theory Spec2Isabelle
  imports Main "HOL-Library.List_Lexorder"
begin

section \<open>CBUtilLib: sorted-array dictionaries and their value iterators\<close>

text \<open>
  The development embeds \<^verbatim>\<open>IntDict.c\<close>, \<^verbatim>\<open>IntDictVIt.c\<close>, \<^verbatim>\<open>StrDict.c\<close>,
  \<^verbatim>\<open>StrDictVIt.c\<close>, the inline accessors of \<^verbatim>\<open>IntDict.h\<close> and \<^verbatim>\<open>StrDict.h\<close>,
  \<^verbatim>\<open>Stricmp.c\<close> and the part of \<^verbatim>\<open>StringBuff.c\<close> that the string dictionary calls.

  Conventions of the embedding.
  \<^item> \<^verbatim>\<open>size_t\<close> values are natural numbers. The only place where the bound of the type
    is consulted is the growth step of insertion, which receives \<^verbatim>\<open>SIZE_MAX\<close> as a
    parameter; no other arithmetic of the code can wrap while \<open>nitems \<le> nalloc \<le> SIZE_MAX\<close>.
  \<^item> \<^verbatim>\<open>void *\<close> values are \<open>nat option\<close>: \<open>None\<close> is the null pointer, \<open>Some p\<close> is
    the address \<open>p\<close>. The dictionaries never dereference them.
  \<^item> The heap block \<^verbatim>\<open>dict->array\<close> is \<open>None\<close> for a null pointer and \<open>Some a\<close> for a
    block whose slot \<open>i\<close> holds \<open>a i\<close>; \<^verbatim>\<open>array[i] = x\<close> is \<open>a(i := x)\<close>. As in C the
    block does not know its size: \<open>nalloc\<close> does.
  \<^item> The pointer \<^verbatim>\<open>dict->candidate\<close> always points into the block \<^verbatim>\<open>dict->array\<close>
    whenever it is read, so it is kept as the offset \<^verbatim>\<open>candidate - array\<close>.
  \<^item> A function that mutates \<^verbatim>\<open>*dict\<close> returns the new dictionary next to its result.
  \<^item> The \<^verbatim>\<open>assert\<close>s of the code are preconditions; they are hypotheses of the
    theorems (\<open>intdict_ok\<close>, \<open>index < nitems\<close>, ...).
\<close>

subsection \<open>The C library's \<^verbatim>\<open>bsearch\<close>\<close>

text \<open>
  \<^verbatim>\<open>bsearch(key, base, nmemb, size, compar)\<close> is not part of the repository. It is
  modelled by the usual halving loop (as in glibc, newlib and UnixLib):
  \<^verbatim>\<open>
  l = 0; u = nmemb;
  while (l < u) {
    idx = (l + u) / 2;
    comparison = compar(key, base + idx * size);
    if (comparison < 0) u = idx;
    else if (comparison > 0) l = idx + 1;
    else return base + idx * size;
  }
  return NULL;
  \<close>
  Both dictionaries pass the dictionary itself as \<^verbatim>\<open>key\<close> and a comparison function
  that writes to it, so the comparison function takes and returns a state \<open>'s\<close>; the
  element \<^verbatim>\<open>base + idx * size\<close> is named by its index.
\<close>

function bsearch :: "('s \<Rightarrow> nat \<Rightarrow> int \<times> 's) \<Rightarrow> 's \<Rightarrow> nat \<Rightarrow> nat \<Rightarrow> nat option \<times> 's" where
  "bsearch compar s l u =
     (if l < u then
        (case compar s ((l + u) div 2) of
           (comparison, s') \<Rightarrow>
             if comparison < 0 then bsearch compar s' l ((l + u) div 2)
             else if comparison > 0 then bsearch compar s' ((l + u) div 2 + 1) u
             else (Some ((l + u) div 2), s'))
      else (None, s))"
  by pat_completeness auto
termination
  by (relation "measure (\<lambda>(compar, s, l, u). u - l)") auto

declare bsearch.simps [simp del]

subsection \<open>Integer dictionary: data (\<^verbatim>\<open>IntDict.h\<close>)\<close>

record IntDictItem =
  item_key :: int
  item_value :: "nat option"

record IntDict =
  nalloc :: nat
  nitems :: nat
  sought_key :: int
  array :: "(nat \<Rightarrow> IntDictItem) option"
  candidate :: "nat option"

text \<open>\<^verbatim>\<open>ArrayInitSize\<close> and \<^verbatim>\<open>ArrayGrowthFactor\<close> of \<^verbatim>\<open>IntDict.c\<close> and \<^verbatim>\<open>StrDict.c\<close>.\<close>

definition ArrayInitSize :: nat where
  "ArrayInitSize = 4"

definition ArrayGrowthFactor :: nat where
  "ArrayGrowthFactor = 2"

text \<open>\<^verbatim>\<open>*dict = (IntDict){0}\<close>.\<close>

definition intdict_init :: IntDict where
  "intdict_init = \<lparr>nalloc = 0, nitems = 0, sought_key = 0, array = None, candidate = None\<rparr>"

subsection \<open>Integer dictionary: searching\<close>

text \<open>
  \<^verbatim>\<open>compare_key_n_item(key, item)\<close>: \<^verbatim>\<open>key\<close> is the dictionary, \<^verbatim>\<open>item\<close> is slot \<open>i\<close> of
  the block \<open>a\<close>. It records the slot as the candidate and compares the sought key
  with the slot's key.
\<close>

definition compare_key_n_item :: "(nat \<Rightarrow> IntDictItem) \<Rightarrow> IntDict \<Rightarrow> nat \<Rightarrow> int \<times> IntDict" where
  "compare_key_n_item a dict i =
     (let dict' = dict\<lparr>candidate := Some i\<rparr> in
      if sought_key dict' < item_key (a i) then (- 1, dict')
      else if sought_key dict' > item_key (a i) then (1, dict')
      else (0, dict'))"

text \<open>
  The two correction loops of \<^verbatim>\<open>intdict_bisect_left\<close>:
  \<^verbatim>\<open>do { ++index; } while (index < dict->nitems && array[index].key < key);\<close> and
  \<^verbatim>\<open>while (index > 0 && array[index - 1].key >= key) { --index; }\<close>.
\<close>

function int_search_forward :: "(nat \<Rightarrow> IntDictItem) \<Rightarrow> nat \<Rightarrow> int \<Rightarrow> nat \<Rightarrow> nat" where
  "int_search_forward a n k index =
     (if index + 1 < n \<and> item_key (a (index + 1)) < k
      then int_search_forward a n k (index + 1) else index + 1)"
  by pat_completeness auto
termination
  by (relation "measure (\<lambda>(a, n, k, index). n - index)") auto

declare int_search_forward.simps [simp del]

fun int_search_backward :: "(nat \<Rightarrow> IntDictItem) \<Rightarrow> int \<Rightarrow> nat \<Rightarrow> nat" where
  "int_search_backward a k 0 = 0"
| "int_search_backward a k (Suc i) =
     (if item_key (a i) \<ge> k then int_search_backward a k i else Suc i)"

definition intdict_bisect_left :: "IntDict \<Rightarrow> int \<Rightarrow> nat \<times> IntDict" where
  "intdict_bisect_left dict k =
     (case array dict of
        None \<Rightarrow> (0, dict)
      | Some a \<Rightarrow>
          if nitems dict > 0 then
            let d1 = (if candidate dict \<noteq> None \<and> sought_key dict \<noteq> k
                      then dict\<lparr>candidate := None\<rparr> else dict);
                d2 = (if candidate d1 = None
                      then snd (bsearch (compare_key_n_item a) (d1\<lparr>sought_key := k\<rparr>) 0 (nitems d1))
                      else d1)
            in (case candidate d2 of
                  Some c \<Rightarrow>
                    (if item_key (a c) < k then int_search_forward a (nitems d2) k c
                     else int_search_backward a k c, d2)
                | None \<Rightarrow> (0, d2))
          else (0, dict))"

text \<open>
  The loop of \<^verbatim>\<open>intdict_bisect_right\<close>:
  \<^verbatim>\<open>while (index < dict->nitems && array[index].key <= key) { ++index; }\<close>.
\<close>

function int_search_right :: "(nat \<Rightarrow> IntDictItem) \<Rightarrow> nat \<Rightarrow> int \<Rightarrow> nat \<Rightarrow> nat" where
  "int_search_right a n k index =
     (if index < n \<and> item_key (a index) \<le> k
      then int_search_right a n k (index + 1) else index)"
  by pat_completeness auto
termination
  by (relation "measure (\<lambda>(a, n, k, index). n - index)") auto

declare int_search_right.simps [simp del]

definition intdict_bisect_right :: "IntDict \<Rightarrow> int \<Rightarrow> nat \<times> IntDict" where
  "intdict_bisect_right dict k =
     (case array dict of
        None \<Rightarrow> (0, dict)
      | Some a \<Rightarrow>
          (case intdict_bisect_left dict k of
             (index, dict') \<Rightarrow> (int_search_right a (nitems dict') k index, dict')))"

text \<open>
  \<^verbatim>\<open>intdict_find\<close>: the result is \<open>Some index\<close> for \<^verbatim>\<open>true\<close> (with \<^verbatim>\<open>*pos = index\<close>) and
  \<open>None\<close> for \<^verbatim>\<open>false\<close>.
\<close>

definition intdict_find :: "IntDict \<Rightarrow> int \<Rightarrow> nat option \<times> IntDict" where
  "intdict_find dict k =
     (case intdict_bisect_left dict k of
        (index, dict') \<Rightarrow>
          (case array dict' of
             None \<Rightarrow> (None, dict')
           | Some a \<Rightarrow>
               if index \<ge> nitems dict' \<or> item_key (a index) \<noteq> k then (None, dict')
               else (Some index, dict')))"

subsection \<open>Integer dictionary: insertion and removal\<close>

text \<open>
  \<^verbatim>\<open>realloc(dict->array, new_size * sizeof(*new_array))\<close>. The product is computed in
  \<^verbatim>\<open>size_t\<close>, so the request is for \<open>new_size * item_size\<close> bytes modulo \<open>SIZE_MAX + 1\<close>,
  where \<open>item_size\<close> stands for \<^verbatim>\<open>sizeof(*new_array)\<close>.
\<close>

definition realloc_bytes :: "nat \<Rightarrow> nat \<Rightarrow> nat \<Rightarrow> nat" where
  "realloc_bytes size_max item_size n = (n * item_size) mod (size_max + 1)"

text \<open>
  The allocator's answer is an input of the model: \<open>None\<close> when it returns a null
  pointer, \<open>Some fresh\<close> when it returns a block, whose slots below the old size keep
  their contents and whose other slots hold whatever \<open>fresh\<close> holds (indeterminate in
  C). A block of \<open>bytes\<close> bytes has room for \<open>bytes div item_size\<close> items.

  Two outcomes of a wrapped request leave the C code without a defined result:
  \<^item> \<open>ReallocZero\<close>: the request is for 0 bytes; whether \<^verbatim>\<open>realloc\<close> then frees the
    block that \<^verbatim>\<open>dict->array\<close> still points at is up to the implementation;
  \<^item> \<open>Overrun\<close>: \<^verbatim>\<open>realloc\<close> returns a block with room for fewer than \<open>new_size\<close> items;
    the code records \<open>new_size\<close> as the capacity of a block that is smaller, and writes
    beyond it.
\<close>

datatype fault = ReallocZero | Overrun

definition realloc_block :: "(nat \<Rightarrow> 'a) option \<Rightarrow> nat \<Rightarrow> (nat \<Rightarrow> 'a) \<Rightarrow> nat \<Rightarrow> 'a" where
  "realloc_block old old_size fresh =
     (case old of None \<Rightarrow> fresh | Some a \<Rightarrow> (\<lambda>i. if i < old_size then a i else fresh i))"

text \<open>The computation of \<^verbatim>\<open>new_size\<close> in \<^verbatim>\<open>intdict_insert\<close> and \<^verbatim>\<open>strdict_insert\<close>.\<close>

definition new_size :: "nat \<Rightarrow> nat \<Rightarrow> nat" where
  "new_size size_max cur_nalloc =
     (if cur_nalloc > 0 then
        if cur_nalloc < size_max div ArrayGrowthFactor then cur_nalloc * ArrayGrowthFactor
        else size_max
      else ArrayInitSize)"

text \<open>
  The shifting loops:
  \<^verbatim>\<open>for (size_t i = nitems; i > ins_index; --i) { array[i] = array[i - 1]; }\<close> and
  \<^verbatim>\<open>for (size_t i = index; i < nitems; ++i) { array[i] = array[i + 1]; }\<close>.
\<close>

function shift_up :: "(nat \<Rightarrow> 'a) \<Rightarrow> nat \<Rightarrow> nat \<Rightarrow> nat \<Rightarrow> 'a" where
  "shift_up a i ins_index =
     (if i > ins_index then shift_up (a(i := a (i - 1))) (i - 1) ins_index else a)"
  by pat_completeness auto
termination
  by (relation "measure (\<lambda>(a, i, ins_index). i)") auto

declare shift_up.simps [simp del]

function shift_down :: "(nat \<Rightarrow> 'a) \<Rightarrow> nat \<Rightarrow> nat \<Rightarrow> nat \<Rightarrow> 'a" where
  "shift_down a i n =
     (if i < n then shift_down (a(i := a (i + 1))) (i + 1) n else a)"
  by pat_completeness auto
termination
  by (relation "measure (\<lambda>(a, i, n). n - i)") auto

declare shift_down.simps [simp del]

text \<open>
  \<^verbatim>\<open>intdict_insert\<close>: \<open>Inr (Some ins_index, dict')\<close> stands for \<^verbatim>\<open>true\<close> with
  \<^verbatim>\<open>*index = ins_index\<close>, \<open>Inr (None, dict')\<close> for \<^verbatim>\<open>false\<close>, \<open>Inl\<close> for a fault.
\<close>

definition intdict_insert ::
  "nat \<Rightarrow> nat \<Rightarrow> (nat \<Rightarrow> IntDictItem) option \<Rightarrow> IntDict \<Rightarrow> int \<Rightarrow> nat option \<Rightarrow>
     fault + (nat option \<times> IntDict)" where
  "intdict_insert size_max item_size mem dict k v =
     (case intdict_bisect_left dict k of
        (ins_index, d0) \<Rightarrow>
          let n = nitems d0;
              grown =
                (if n = nalloc d0 then
                   if nalloc d0 = size_max then Inr None
                   else
                     let new = new_size size_max (nalloc d0);
                         bytes = realloc_bytes size_max item_size new
                     in if bytes = 0 then Inl ReallocZero
                        else (case mem of
                                None \<Rightarrow> Inr None
                              | Some fresh \<Rightarrow>
                                  if bytes div item_size < new then Inl Overrun
                                  else Inr (Some (d0\<lparr>nalloc := new,
                                         array := Some (realloc_block (array d0) (nalloc d0) fresh)\<rparr>)))
                 else Inr (Some d0))
          in (case grown of
                Inl f \<Rightarrow> Inl f
              | Inr None \<Rightarrow> Inr (None, d0)
              | Inr (Some d1) \<Rightarrow>
                  (case array d1 of
                     None \<Rightarrow> Inr (None, d1)
                   | Some a \<Rightarrow>
                       Inr (Some ins_index,
                            d1\<lparr>candidate := None,
                               array := Some ((shift_up a n ins_index)
                                         (ins_index := \<lparr>item_key = k, item_value = v\<rparr>)),
                               nitems := nitems d1 + 1\<rparr>))))"

definition intdict_remove_at :: "IntDict \<Rightarrow> nat \<Rightarrow> IntDict" where
  "intdict_remove_at dict index =
     (case array dict of
        None \<Rightarrow> dict
      | Some a \<Rightarrow>
          dict\<lparr>nitems := nitems dict - 1,
               array := Some (shift_down a index (nitems dict - 1)),
               candidate := None\<rparr>)"

definition intdict_remove_value_at :: "IntDict \<Rightarrow> nat \<Rightarrow> nat option \<times> IntDict" where
  "intdict_remove_value_at dict index =
     ((case array dict of None \<Rightarrow> None | Some a \<Rightarrow> item_value (a index)),
      intdict_remove_at dict index)"

text \<open>The inline functions of \<^verbatim>\<open>IntDict.h\<close>.\<close>

definition intdict_count :: "IntDict \<Rightarrow> nat" where
  "intdict_count dict = nitems dict"

text \<open>
  \<^verbatim>\<open>dict->array[index].key\<close> and \<^verbatim>\<open>dict->array[index].value\<close>; the code asserts
  \<open>index < nitems\<close>, under which the block is not null. Outside the assertion the C
  code has no defined result; the model then answers with the zero key or null.
\<close>

definition intdict_get_key_at :: "IntDict \<Rightarrow> nat \<Rightarrow> int" where
  "intdict_get_key_at dict index = (case array dict of None \<Rightarrow> 0 | Some a \<Rightarrow> item_key (a index))"

definition intdict_get_value_at :: "IntDict \<Rightarrow> nat \<Rightarrow> nat option" where
  "intdict_get_value_at dict index =
     (case array dict of None \<Rightarrow> None | Some a \<Rightarrow> item_value (a index))"

definition intdict_remove :: "IntDict \<Rightarrow> int \<Rightarrow> nat option \<times> IntDict" where
  "intdict_remove dict k =
     (case intdict_find dict k of
        (None, dict') \<Rightarrow> (None, dict')
      | (Some pos, dict') \<Rightarrow> (Some pos, intdict_remove_at dict' pos))"

subsection \<open>Integer dictionary: the value iterator (\<^verbatim>\<open>IntDictVIt.c\<close>)\<close>

text \<open>
  \<^verbatim>\<open>IntDictVIter\<close> holds a pointer to the dictionary; the iterator of the model holds
  the dictionary it borrows, so that \<^verbatim>\<open>intdictviter_remove\<close> can change it. The field
  \<^verbatim>\<open>end\<close> is called \<open>iter_end\<close>.
\<close>

record IntDictVIter =
  iter_dict :: IntDict
  next_index :: nat
  iter_end :: nat

definition intdictviter_advance :: "IntDictVIter \<Rightarrow> nat option \<times> IntDictVIter" where
  "intdictviter_advance iter =
     (if next_index iter < iter_end iter
      then (intdict_get_value_at (iter_dict iter) (next_index iter),
            iter\<lparr>next_index := next_index iter + 1\<rparr>)
      else (None, iter))"

text \<open>
  C leaves the order of the two searches in the compound literal open; they are taken
  here in the order in which they are written. Only the search cache of the resulting
  dictionary depends on that order: the two indices are those of the dictionary as
  \<^verbatim>\<open>init\<close> found it (lemma \<open>intdictviter_init_result\<close>).
\<close>

definition intdictviter_init :: "IntDict \<Rightarrow> int \<Rightarrow> int \<Rightarrow> nat option \<times> IntDictVIter" where
  "intdictviter_init dict min_key max_key =
     (case intdict_bisect_left dict min_key of
        (l, d1) \<Rightarrow>
          (case intdict_bisect_right d1 max_key of
             (r, d2) \<Rightarrow>
               intdictviter_advance \<lparr>iter_dict = d2, next_index = l, iter_end = r\<rparr>))"

definition intdictviter_all_init :: "IntDict \<Rightarrow> nat option \<times> IntDictVIter" where
  "intdictviter_all_init dict =
     intdictviter_advance \<lparr>iter_dict = dict, next_index = 0, iter_end = intdict_count dict\<rparr>"

definition intdictviter_remove :: "IntDictVIter \<Rightarrow> nat \<times> IntDictVIter" where
  "intdictviter_remove iter =
     (let iter1 = iter\<lparr>iter_end := iter_end iter - 1\<rparr>;
          index = next_index iter1 - 1;
          iter2 = iter1\<lparr>next_index := index\<rparr>
      in (index, iter2\<lparr>iter_dict := intdict_remove_at (iter_dict iter2) index\<rparr>))"

subsection \<open>Integer dictionary: observations, invariants and runs of calls\<close>

text \<open>The entries \<^verbatim>\<open>array[0 .. nitems)\<close> and their keys.\<close>

definition intdict_entries :: "IntDict \<Rightarrow> IntDictItem list" where
  "intdict_entries dict = (case array dict of None \<Rightarrow> [] | Some a \<Rightarrow> map a [0..<nitems dict])"

definition intdict_keys :: "IntDict \<Rightarrow> int list" where
  "intdict_keys dict = map item_key (intdict_entries dict)"

text \<open>
  The order that the debug builds assert after every insertion and removal:
  \<^verbatim>\<open>array[i].key <= array[i + 1].key\<close> for every \<open>i + 1 < nitems\<close>.
\<close>

definition intdict_ordered :: "IntDict \<Rightarrow> bool" where
  "intdict_ordered dict =
     (case array dict of
        None \<Rightarrow> True
      | Some a \<Rightarrow> list_all (\<lambda>i. item_key (a i) \<le> item_key (a (i + 1))) [0..<nitems dict - 1])"

text \<open>
  What the assertions at the head of the functions demand of a dictionary:
  \<open>nitems \<le> nalloc\<close>, a block behind every allocated slot, and a candidate that points
  at one of the items.
\<close>

definition intdict_ok :: "nat \<Rightarrow> IntDict \<Rightarrow> bool" where
  "intdict_ok size_max dict \<longleftrightarrow>
     nitems dict \<le> nalloc dict \<and> nalloc dict \<le> size_max \<and>
     (array dict = None \<longrightarrow> nalloc dict = 0) \<and>
     (case candidate dict of None \<Rightarrow> True | Some c \<Rightarrow> c < nitems dict)"

text \<open>
  A client's calls. \<open>Insert k v mem\<close> carries the allocator's answer should the call
  need to grow the block. A call whose assertion fails (\<open>RemoveAt\<close> beyond the last
  item) or that ends in a fault ends the run with \<open>None\<close>. Each call yields an optional
  index: the index written by a successful \<^verbatim>\<open>insert\<close>, \<^verbatim>\<open>find\<close> or \<^verbatim>\<open>remove\<close>, the index
  returned by the bisections.
\<close>

datatype intdict_op =
    Insert int "nat option" "(nat \<Rightarrow> IntDictItem) option"
  | RemoveAt nat
  | Remove int
  | Find int
  | BisectLeft int
  | BisectRight int

fun intdict_step ::
  "nat \<Rightarrow> nat \<Rightarrow> IntDict \<Rightarrow> intdict_op \<Rightarrow> (nat option \<times> IntDict) option" where
  "intdict_step size_max item_size dict (Insert k v mem) =
     (case intdict_insert size_max item_size mem dict k v of
        Inl f \<Rightarrow> None
      | Inr r \<Rightarrow> Some r)"
| "intdict_step size_max item_size dict (RemoveAt index) =
     (if index < nitems dict then Some (None, intdict_remove_at dict index) else None)"
| "intdict_step size_max item_size dict (Remove k) = Some (intdict_remove dict k)"
| "intdict_step size_max item_size dict (Find k) = Some (intdict_find dict k)"
| "intdict_step size_max item_size dict (BisectLeft k) =
     (case intdict_bisect_left dict k of (index, dict') \<Rightarrow> Some (Some index, dict'))"
| "intdict_step size_max item_size dict (BisectRight k) =
     (case intdict_bisect_right dict k of (index, dict') \<Rightarrow> Some (Some index, dict'))"

fun intdict_run ::
  "nat \<Rightarrow> nat \<Rightarrow> IntDict \<Rightarrow> intdict_op list \<Rightarrow> (nat option list \<times> IntDict) option" where
  "intdict_run size_max item_size dict [] = Some ([], dict)"
| "intdict_run size_max item_size dict (op # ops) =
     (case intdict_step size_max item_size dict op of
        None \<Rightarrow> None
      | Some (r, dict') \<Rightarrow>
          (case intdict_run size_max item_size dict' ops of
             None \<Rightarrow> None
           | Some (rs, dict'') \<Rightarrow> Some (r # rs, dict'')))"

text \<open>
  The same run with the search cache disabled: the candidate is discarded before
  every call, so that \<^verbatim>\<open>intdict_bisect_left\<close>, which every call reaches at most once
  and before it changes anything else, always takes the full binary search.
\<close>

definition intdict_bisect_left_nocache :: "IntDict \<Rightarrow> int \<Rightarrow> nat \<times> IntDict" where
  "intdict_bisect_left_nocache dict k = intdict_bisect_left (dict\<lparr>candidate := None\<rparr>) k"

fun intdict_run_nocache ::
  "nat \<Rightarrow> nat \<Rightarrow> IntDict \<Rightarrow> intdict_op list \<Rightarrow> (nat option list \<times> IntDict) option" where
  "intdict_run_nocache size_max item_size dict [] = Some ([], dict)"
| "intdict_run_nocache size_max item_size dict (op # ops) =
     (case intdict_step size_max item_size (dict\<lparr>candidate := None\<rparr>) op of
        None \<Rightarrow> None
      | Some (r, dict') \<Rightarrow>
          (case intdict_run_nocache size_max item_size dict' ops of
             None \<Rightarrow> None
           | Some (rs, dict'') \<Rightarrow> Some (r # rs, dict'')))"

subsection \<open>Case-insensitive comparison (\<^verbatim>\<open>Stricmp.c\<close>)\<close>

text \<open>
  A C string is the list of its characters before the terminating nul; reading at its
  end yields 0. Characters are read as values from 0 to 255, and \<^verbatim>\<open>toupper\<close> is that of
  the "C" locale: it maps \<^verbatim>\<open>a\<close> to \<^verbatim>\<open>z\<close> to \<^verbatim>\<open>A\<close> to \<^verbatim>\<open>Z\<close> and nothing else.
  \<^verbatim>\<open>
  do { i = *s1++, j = *s2++; i = toupper (i); j = toupper (j); } while (i && i == j);
  return (i - j);
  \<close>
\<close>

definition toupper :: "int \<Rightarrow> int" where
  "toupper c = (if 97 \<le> c \<and> c \<le> 122 then c - 32 else c)"

fun stricmp :: "string \<Rightarrow> string \<Rightarrow> int" where
  "stricmp [] [] = toupper 0 - toupper 0"
| "stricmp [] (b # bs) = toupper 0 - toupper (of_char b)"
| "stricmp (a # as) [] = toupper (of_char a) - toupper 0"
| "stricmp (a # as) (b # bs) =
     (if toupper (of_char a) \<noteq> 0 \<and> toupper (of_char a) = toupper (of_char b)
      then stricmp as bs
      else toupper (of_char a) - toupper (of_char b))"

subsection \<open>The string buffer (\<^verbatim>\<open>StringBuff.c\<close>, \<^verbatim>\<open>StringBuff.h\<close>)\<close>

text \<open>
  Of the buffer the dictionary uses \<^verbatim>\<open>stringbuffer_init\<close>, \<^verbatim>\<open>stringbuffer_truncate\<close>,
  \<^verbatim>\<open>stringbuffer_append_all\<close> and \<^verbatim>\<open>stringbuffer_get_pointer\<close>. The field \<open>buffer\<close> is
  \<open>None\<close> for a null pointer and otherwise holds the string in the block, that is its
  first \<open>string_len\<close> characters. The undo fields, which these four functions only write,
  are left out. Whether \<^verbatim>\<open>realloc\<close> succeeds, should it be called, is the input \<open>ok\<close>.
\<close>

record StringBuffer =
  buffer_size :: nat
  string_len :: nat
  buffer :: "string option"

definition GROWTH_FACTOR :: nat where
  "GROWTH_FACTOR = 2"

definition stringbuffer_init :: StringBuffer where
  "stringbuffer_init = \<lparr>buffer_size = 0, string_len = 0, buffer = None\<rparr>"

definition realloc_buffer :: "bool \<Rightarrow> StringBuffer \<Rightarrow> nat \<Rightarrow> bool \<times> StringBuffer" where
  "realloc_buffer ok b new_sz =
     (if new_sz = 0 then (True, b\<lparr>buffer := None, buffer_size := new_sz\<rparr>)
      else if ok then
        (True, b\<lparr>buffer := Some (case buffer b of None \<Rightarrow> [] | Some t \<Rightarrow> t),
                 buffer_size := new_sz\<rparr>)
      else (False, b))"

definition ensure_size :: "bool \<Rightarrow> StringBuffer \<Rightarrow> nat \<Rightarrow> bool \<times> StringBuffer" where
  "ensure_size ok b min_size =
     (if min_size > buffer_size b
      then realloc_buffer ok b (max min_size (buffer_size b * GROWTH_FACTOR))
      else (True, b))"

definition set_len :: "StringBuffer \<Rightarrow> nat \<Rightarrow> StringBuffer" where
  "set_len b new_len = b\<lparr>string_len := new_len, buffer := map_option (take new_len) (buffer b)\<rparr>"

text \<open>
  \<^verbatim>\<open>stringbuffer_prepare_append\<close> answers whether it returns a pointer to free space
  (\<open>True\<close>) or null (\<open>False\<close>).
\<close>

definition stringbuffer_prepare_append :: "bool \<Rightarrow> StringBuffer \<Rightarrow> nat \<Rightarrow> bool \<times> StringBuffer" where
  "stringbuffer_prepare_append ok b min_size =
     (case ensure_size ok b (string_len b + (if min_size \<noteq> 0 then min_size else 1)) of
        (success, b') \<Rightarrow> (success \<and> buffer b' \<noteq> None, b'))"

text \<open>
  \<^verbatim>\<open>stringbuffer_append\<close>: the \<^verbatim>\<open>memcpy\<close> of \<open>extra_chars\<close> characters to the free space
  and \<^verbatim>\<open>stringbuffer_finish_append\<close> together extend the string.
\<close>

definition stringbuffer_append :: "bool \<Rightarrow> StringBuffer \<Rightarrow> string \<Rightarrow> nat \<Rightarrow> bool \<times> StringBuffer" where
  "stringbuffer_append ok b tail n =
     (let tail_len = (if n > 0 then length tail else 0);
          extra_chars = min tail_len n
      in if extra_chars > 0 then
           (case stringbuffer_prepare_append ok b (extra_chars + 1) of
              (True, b') \<Rightarrow>
                (True, b'\<lparr>buffer := map_option (\<lambda>t. t @ take extra_chars tail) (buffer b'),
                          string_len := string_len b' + extra_chars\<rparr>)
            | (False, b') \<Rightarrow> (False, b'))
         else (True, b))"

definition stringbuffer_append_all :: "nat \<Rightarrow> bool \<Rightarrow> StringBuffer \<Rightarrow> string \<Rightarrow> bool \<times> StringBuffer" where
  "stringbuffer_append_all size_max ok b tail = stringbuffer_append ok b tail size_max"

definition stringbuffer_truncate :: "StringBuffer \<Rightarrow> nat \<Rightarrow> StringBuffer" where
  "stringbuffer_truncate b len = (if len < string_len b then set_len b len else b)"

text \<open>
  \<^verbatim>\<open>stringbuffer_get_pointer(buffer)\<close> is \<^verbatim>\<open>buffer->buffer ? buffer->buffer : ""\<close>: the
  string at the pointer it returns is that of the block, or empty. For a buffer without
  a block the pointer is that of a string literal (\<open>buffer b = None\<close>).
\<close>

definition stringbuffer_get_pointer :: "StringBuffer \<Rightarrow> string" where
  "stringbuffer_get_pointer b = (case buffer b of None \<Rightarrow> [] | Some t \<Rightarrow> t)"

subsection \<open>String dictionary: data (\<^verbatim>\<open>StrDict.h\<close>)\<close>

text \<open>
  A key that a caller passes is a \<^verbatim>\<open>char const *\<close>: an address and, while the caller
  keeps it alive, the string there.

  \<^verbatim>\<open>dict->sought_key\<close> is null, or one of the two pointers that
  \<^verbatim>\<open>stringbuffer_get_pointer\<close> returns for the dictionary's own buffer (its block, or
  the literal \<^verbatim>\<open>""\<close> while it has none), or a caller's key. A caller's key is taken
  never to lie in the block of the dictionary's buffer, but it may be the literal: a
  caller that passes \<^verbatim>\<open>""\<close> may pass the very object that \<^verbatim>\<open>stringbuffer_get_pointer\<close>
  returns, since identical literals may share their storage. \<open>empty_literal\<close> is that
  object; a key at its address is the literal.
\<close>

record char_ptr =
  ptr_addr :: nat
  ptr_text :: string

definition empty_literal :: char_ptr where
  "empty_literal = \<lparr>ptr_addr = 0, ptr_text = []\<rparr>"

datatype sought_ptr = SoughtNull | SoughtBuffer | SoughtLiteral | SoughtCaller char_ptr

record StrDictItem =
  sitem_key :: char_ptr
  sitem_value :: "nat option"

record StrDict =
  s_nalloc :: nat
  s_nitems :: nat
  s_buffer :: StringBuffer
  s_sought_key :: sought_ptr
  s_array :: "(nat \<Rightarrow> StrDictItem) option"
  s_candidate :: "nat option"

definition strdict_init :: StrDict where
  "strdict_init =
     \<lparr>s_nalloc = 0, s_nitems = 0, s_buffer = stringbuffer_init, s_sought_key = SoughtNull,
      s_array = None, s_candidate = None\<rparr>"

text \<open>\<^verbatim>\<open>STRING_OR_NULL(dict->sought_key)\<close> and \<^verbatim>\<open>dict->sought_key == key\<close>.\<close>

definition sought_string :: "StrDict \<Rightarrow> string" where
  "sought_string dict =
     (case s_sought_key dict of
        SoughtNull \<Rightarrow> []
      | SoughtBuffer \<Rightarrow> stringbuffer_get_pointer (s_buffer dict)
      | SoughtLiteral \<Rightarrow> ptr_text empty_literal
      | SoughtCaller p \<Rightarrow> ptr_text p)"

definition sought_is :: "StrDict \<Rightarrow> char_ptr \<Rightarrow> bool" where
  "sought_is dict k =
     (case s_sought_key dict of
        SoughtCaller p \<Rightarrow> ptr_addr p = ptr_addr k
      | SoughtLiteral \<Rightarrow> ptr_addr empty_literal = ptr_addr k
      | _ \<Rightarrow> False)"

text \<open>
  The pointer that \<^verbatim>\<open>dict->sought_key = stringbuffer_get_pointer(&dict->buffer)\<close> stores.
\<close>

definition buffer_pointer :: "StringBuffer \<Rightarrow> sought_ptr" where
  "buffer_pointer b = (case buffer b of None \<Rightarrow> SoughtLiteral | Some t \<Rightarrow> SoughtBuffer)"

subsection \<open>String dictionary: searching\<close>

definition str_compare_key_n_item :: "(nat \<Rightarrow> StrDictItem) \<Rightarrow> StrDict \<Rightarrow> nat \<Rightarrow> int \<times> StrDict" where
  "str_compare_key_n_item a dict i =
     (let dict' = dict\<lparr>s_candidate := Some i\<rparr>
      in (stricmp (sought_string dict') (ptr_text (sitem_key (a i))), dict'))"

function str_search_forward :: "(nat \<Rightarrow> StrDictItem) \<Rightarrow> nat \<Rightarrow> char_ptr \<Rightarrow> nat \<Rightarrow> nat" where
  "str_search_forward a n k index =
     (if index + 1 < n \<and> stricmp (ptr_text (sitem_key (a (index + 1)))) (ptr_text k) < 0
      then str_search_forward a n k (index + 1) else index + 1)"
  by pat_completeness auto
termination
  by (relation "measure (\<lambda>(a, n, k, index). n - index)") auto

declare str_search_forward.simps [simp del]

fun str_search_backward :: "(nat \<Rightarrow> StrDictItem) \<Rightarrow> char_ptr \<Rightarrow> nat \<Rightarrow> nat" where
  "str_search_backward a k 0 = 0"
| "str_search_backward a k (Suc i) =
     (if stricmp (ptr_text (sitem_key (a i))) (ptr_text k) \<ge> 0
      then str_search_backward a k i else Suc i)"

text \<open>
  \<^verbatim>\<open>strdict_bisect_left\<close>. \<open>d1\<close> is the dictionary after the test of the cached key,
  \<open>d2\<close> after the copy of the key and the binary search, \<open>d3\<close> after the cache is
  cleared again when \<^verbatim>\<open>dict->sought_key == key\<close>.
\<close>

definition strdict_bisect_left :: "nat \<Rightarrow> bool \<Rightarrow> StrDict \<Rightarrow> char_ptr \<Rightarrow> nat \<times> StrDict" where
  "strdict_bisect_left size_max ok dict k =
     (case s_array dict of
        None \<Rightarrow> (0, dict)
      | Some a \<Rightarrow>
          if s_nitems dict > 0 then
            let d1 = (if s_candidate dict \<noteq> None \<and> stricmp (sought_string dict) (ptr_text k) \<noteq> 0
                      then dict\<lparr>s_candidate := None\<rparr> else dict);
                d2 = (if s_candidate d1 = None then
                        (case stringbuffer_append_all size_max ok
                                (stringbuffer_truncate (s_buffer d1) 0) (ptr_text k) of
                           (copied, b) \<Rightarrow>
                             snd (bsearch (str_compare_key_n_item a)
                                   (d1\<lparr>s_buffer := b,
                                       s_sought_key := (if copied then buffer_pointer b else SoughtCaller k)\<rparr>)
                                   0 (s_nitems d1)))
                      else d1);
                index = (case s_candidate d2 of
                           Some c \<Rightarrow>
                             if stricmp (ptr_text (sitem_key (a c))) (ptr_text k) < 0
                             then str_search_forward a (s_nitems d2) k c
                             else str_search_backward a k c
                         | None \<Rightarrow> 0);
                d3 = (if sought_is d2 k
                      then d2\<lparr>s_sought_key := SoughtNull, s_candidate := None\<rparr> else d2)
            in (index, d3)
          else (0, dict))"

function str_search_right :: "(nat \<Rightarrow> StrDictItem) \<Rightarrow> nat \<Rightarrow> char_ptr \<Rightarrow> nat \<Rightarrow> nat" where
  "str_search_right a n k index =
     (if index < n \<and> stricmp (ptr_text (sitem_key (a index))) (ptr_text k) \<le> 0
      then str_search_right a n k (index + 1) else index)"
  by pat_completeness auto
termination
  by (relation "measure (\<lambda>(a, n, k, index). n - index)") auto

declare str_search_right.simps [simp del]

definition strdict_bisect_right :: "nat \<Rightarrow> bool \<Rightarrow> StrDict \<Rightarrow> char_ptr \<Rightarrow> nat \<times> StrDict" where
  "strdict_bisect_right size_max ok dict k =
     (case s_array dict of
        None \<Rightarrow> (0, dict)
      | Some a \<Rightarrow>
          (case strdict_bisect_left size_max ok dict k of
             (index, dict') \<Rightarrow> (str_search_right a (s_nitems dict') k index, dict')))"

definition strdict_find :: "nat \<Rightarrow> bool \<Rightarrow> StrDict \<Rightarrow> char_ptr \<Rightarrow> nat option \<times> StrDict" where
  "strdict_find size_max ok dict k =
     (case strdict_bisect_left size_max ok dict k of
        (index, dict') \<Rightarrow>
          (case s_array dict' of
             None \<Rightarrow> (None, dict')
           | Some a \<Rightarrow>
               if index \<ge> s_nitems dict' \<or> stricmp (ptr_text (sitem_key (a index))) (ptr_text k) \<noteq> 0
               then (None, dict')
               else (Some index, dict')))"

subsection \<open>String dictionary: insertion and removal\<close>

definition strdict_insert ::
  "nat \<Rightarrow> nat \<Rightarrow> bool \<Rightarrow> (nat \<Rightarrow> StrDictItem) option \<Rightarrow> StrDict \<Rightarrow> char_ptr \<Rightarrow> nat option \<Rightarrow>
   fault + (nat option \<times> StrDict)" where
  "strdict_insert size_max item_size ok mem dict k v =
     (case strdict_bisect_left size_max ok dict k of
        (ins_index, d0) \<Rightarrow>
          let n = s_nitems d0;
              grown =
                (if n = s_nalloc d0 then
                   if s_nalloc d0 = size_max then Inr None
                   else
                     let new = new_size size_max (s_nalloc d0);
                         bytes = realloc_bytes size_max item_size new
                     in if bytes = 0 then Inl ReallocZero
                        else (case mem of
                                None \<Rightarrow> Inr None
                              | Some fresh \<Rightarrow>
                                  if bytes div item_size < new then Inl Overrun
                                  else Inr (Some (d0\<lparr>s_nalloc := new,
                                         s_array := Some (realloc_block (s_array d0) (s_nalloc d0) fresh)\<rparr>)))
                 else Inr (Some d0))
          in (case grown of
                Inl f \<Rightarrow> Inl f
              | Inr None \<Rightarrow> Inr (None, d0)
              | Inr (Some d1) \<Rightarrow>
                  (case s_array d1 of
                     None \<Rightarrow> Inr (None, d1)
                   | Some a \<Rightarrow>
                       Inr (Some ins_index,
                            d1\<lparr>s_candidate := None,
                               s_array := Some ((shift_up a n ins_index)
                                           (ins_index := \<lparr>sitem_key = k, sitem_value = v\<rparr>)),
                               s_nitems := s_nitems d1 + 1\<rparr>))))"

definition strdict_remove_at :: "StrDict \<Rightarrow> nat \<Rightarrow> StrDict" where
  "strdict_remove_at dict index =
     (case s_array dict of
        None \<Rightarrow> dict
      | Some a \<Rightarrow>
          dict\<lparr>s_nitems := s_nitems dict - 1,
               s_array := Some (shift_down a index (s_nitems dict - 1)),
               s_candidate := None\<rparr>)"

definition strdict_count :: "StrDict \<Rightarrow> nat" where
  "strdict_count dict = s_nitems dict"

definition strdict_get_value_at :: "StrDict \<Rightarrow> nat \<Rightarrow> nat option" where
  "strdict_get_value_at dict index =
     (case s_array dict of None \<Rightarrow> None | Some a \<Rightarrow> sitem_value (a index))"

definition strdict_remove :: "nat \<Rightarrow> bool \<Rightarrow> StrDict \<Rightarrow> char_ptr \<Rightarrow> nat option \<times> StrDict" where
  "strdict_remove size_max ok dict k =
     (case strdict_find size_max ok dict k of
        (None, dict') \<Rightarrow> (None, dict')
      | (Some pos, dict') \<Rightarrow> (Some pos, strdict_remove_at dict' pos))"

subsection \<open>String dictionary: the value iterator (\<^verbatim>\<open>StrDictVIt.c\<close>)\<close>

record StrDictVIter =
  siter_dict :: StrDict
  s_next_index :: nat
  siter_end :: nat

definition strdictviter_advance :: "StrDictVIter \<Rightarrow> nat option \<times> StrDictVIter" where
  "strdictviter_advance iter =
     (if s_next_index iter < siter_end iter
      then (strdict_get_value_at (siter_dict iter) (s_next_index iter),
            iter\<lparr>s_next_index := s_next_index iter + 1\<rparr>)
      else (None, iter))"

text \<open>
  \<^verbatim>\<open>strdictviter_init\<close> searches twice; \<open>ok1\<close> and \<open>ok2\<close> are the allocator's answers to
  the buffer in the first and in the second search.
\<close>

definition strdictviter_init ::
  "nat \<Rightarrow> bool \<Rightarrow> bool \<Rightarrow> StrDict \<Rightarrow> char_ptr \<Rightarrow> char_ptr \<Rightarrow> nat option \<times> StrDictVIter" where
  "strdictviter_init size_max ok1 ok2 dict min_key max_key =
     (case strdict_bisect_left size_max ok1 dict min_key of
        (l, d1) \<Rightarrow>
          (case strdict_bisect_right size_max ok2 d1 max_key of
             (r, d2) \<Rightarrow>
               strdictviter_advance \<lparr>siter_dict = d2, s_next_index = l, siter_end = r\<rparr>))"

definition strdictviter_all_init :: "StrDict \<Rightarrow> nat option \<times> StrDictVIter" where
  "strdictviter_all_init dict =
     strdictviter_advance \<lparr>siter_dict = dict, s_next_index = 0, siter_end = strdict_count dict\<rparr>"

definition strdictviter_remove :: "StrDictVIter \<Rightarrow> nat \<times> StrDictVIter" where
  "strdictviter_remove iter =
     (let iter1 = iter\<lparr>siter_end := siter_end iter - 1\<rparr>;
          index = s_next_index iter1 - 1;
          iter2 = iter1\<lparr>s_next_index := index\<rparr>
      in (index, iter2\<lparr>siter_dict := strdict_remove_at (siter_dict iter2) index\<rparr>))"

subsection \<open>String dictionary: observations, invariants and runs of calls\<close>

definition strdict_entries :: "StrDict \<Rightarrow> StrDictItem list" where
  "strdict_entries dict =
     (case s_array dict of None \<Rightarrow> [] | Some a \<Rightarrow> map a [0..<s_nitems dict])"

text \<open>The debug builds assert \<^verbatim>\<open>stricmp(array[i].key, array[i + 1].key) <= 0\<close>.\<close>

definition strdict_ordered :: "StrDict \<Rightarrow> bool" where
  "strdict_ordered dict =
     (case s_array dict of
        None \<Rightarrow> True
      | Some a \<Rightarrow>
          list_all (\<lambda>i. stricmp (ptr_text (sitem_key (a i))) (ptr_text (sitem_key (a (i + 1)))) \<le> 0)
            [0..<s_nitems dict - 1])"

definition strdict_ok :: "nat \<Rightarrow> StrDict \<Rightarrow> bool" where
  "strdict_ok size_max dict \<longleftrightarrow>
     s_nitems dict \<le> s_nalloc dict \<and> s_nalloc dict \<le> size_max \<and>
     (s_array dict = None \<longrightarrow> s_nalloc dict = 0) \<and>
     (case s_candidate dict of None \<Rightarrow> True | Some c \<Rightarrow> c < s_nitems dict)"

text \<open>
  A client's calls on a string dictionary. Every call that searches carries the
  allocator's answer to the buffer; \<open>SInsert\<close> also carries its answer to the growth
  of the block. A call whose assertion fails or that ends in a fault ends the run with
  \<open>None\<close>.
\<close>

datatype strdict_op =
    SInsert char_ptr "nat option" bool "(nat \<Rightarrow> StrDictItem) option"
  | SRemoveAt nat
  | SRemove char_ptr bool
  | SFind char_ptr bool
  | SBisectLeft char_ptr bool
  | SBisectRight char_ptr bool

fun strdict_step ::
  "nat \<Rightarrow> nat \<Rightarrow> StrDict \<Rightarrow> strdict_op \<Rightarrow> (nat option \<times> StrDict) option" where
  "strdict_step size_max item_size dict (SInsert k v ok mem) =
     (case strdict_insert size_max item_size ok mem dict k v of
        Inl f \<Rightarrow> None
      | Inr r \<Rightarrow> Some r)"
| "strdict_step size_max item_size dict (SRemoveAt index) =
     (if index < s_nitems dict then Some (None, strdict_remove_at dict index) else None)"
| "strdict_step size_max item_size dict (SRemove k ok) = Some (strdict_remove size_max ok dict k)"
| "strdict_step size_max item_size dict (SFind k ok) = Some (strdict_find size_max ok dict k)"
| "strdict_step size_max item_size dict (SBisectLeft k ok) =
     (case strdict_bisect_left size_max ok dict k of (index, dict') \<Rightarrow> Some (Some index, dict'))"
| "strdict_step size_max item_size dict (SBisectRight k ok) =
     (case strdict_bisect_right size_max ok dict k of (index, dict') \<Rightarrow> Some (Some index, dict'))"

fun strdict_run ::
  "nat \<Rightarrow> nat \<Rightarrow> StrDict \<Rightarrow> strdict_op list \<Rightarrow> (nat option list \<times> StrDict) option" where
  "strdict_run size_max item_size dict [] = Some ([], dict)"
| "strdict_run size_max item_size dict (op # ops) =
     (case strdict_step size_max item_size dict op of
        None \<Rightarrow> None
      | Some (r, dict') \<Rightarrow>
          (case strdict_run size_max item_size dict' ops of
             None \<Rightarrow> None
           | Some (rs, dict'') \<Rightarrow> Some (r # rs, dict'')))"

definition strdict_bisect_left_nocache :: "nat \<Rightarrow> bool \<Rightarrow> StrDict \<Rightarrow> char_ptr \<Rightarrow> nat \<times> StrDict" where
  "strdict_bisect_left_nocache size_max ok dict k =
     strdict_bisect_left size_max ok (dict\<lparr>s_candidate := None\<rparr>) k"

fun strdict_run_nocache ::
  "nat \<Rightarrow> nat \<Rightarrow> StrDict \<Rightarrow> strdict_op list \<Rightarrow> (nat option list \<times> StrDict) option" where
  "strdict_run_nocache size_max item_size dict [] = Some ([], dict)"
| "strdict_run_nocache size_max item_size dict (op # ops) =
     (case strdict_step size_max item_size (dict\<lparr>s_candidate := None\<rparr>) op of
        None \<Rightarrow> None
      | Some (r, dict') \<Rightarrow>
          (case strdict_run_nocache size_max item_size dict' ops of
             None \<Rightarrow> None
           | Some (rs, dict'') \<Rightarrow> Some (r # rs, dict'')))"

subsection \<open>Vocabulary of the specification\<close>

text \<open>
  \<open>lower_bound f n k r\<close>: \<open>r\<close> is the first position of \<open>f 0, ..., f (n - 1)\<close> whose key
  is not less than \<open>k\<close>, or \<open>n\<close> if there is none. \<open>upper_bound f n k r\<close>: \<open>r\<close> is the first
  position whose key is greater than \<open>k\<close>, or \<open>n\<close>.
\<close>

definition lower_bound :: "(nat \<Rightarrow> 'k::linorder) \<Rightarrow> nat \<Rightarrow> 'k \<Rightarrow> nat \<Rightarrow> bool" where
  "lower_bound f n k r \<longleftrightarrow> r \<le> n \<and> (\<forall>j<r. f j < k) \<and> (r < n \<longrightarrow> k \<le> f r)"

definition upper_bound :: "(nat \<Rightarrow> 'k::linorder) \<Rightarrow> nat \<Rightarrow> 'k \<Rightarrow> nat \<Rightarrow> bool" where
  "upper_bound f n k r \<longleftrightarrow> r \<le> n \<and> (\<forall>j<r. f j \<le> k) \<and> (r < n \<longrightarrow> k < f r)"

text \<open>
  The sort key of a string: its characters up to the first one that \<^verbatim>\<open>toupper\<close> maps to
  0, each mapped by \<^verbatim>\<open>toupper\<close>, under the lexicographic order of lists. \<^verbatim>\<open>stricmp\<close>
  compares two strings as their sort keys (lemmas \<open>stricmp_less_iff\<close> and
  \<open>stricmp_eq_iff\<close>).
\<close>

definition strkey :: "string \<Rightarrow> int list" where
  "strkey s = map (\<lambda>c. toupper (of_char c)) (takeWhile (\<lambda>c. toupper (of_char c) \<noteq> 0) s)"

definition strdict_keys :: "StrDict \<Rightarrow> int list list" where
  "strdict_keys dict = map (\<lambda>e. strkey (ptr_text (sitem_key e))) (strdict_entries dict)"

abbreviation (input) skey :: "(nat \<Rightarrow> StrDictItem) \<Rightarrow> nat \<Rightarrow> int list" where
  "skey a \<equiv> \<lambda>j. strkey (ptr_text (sitem_key (a j)))"

text \<open>
  The slots that the binary search compares with the key, in order, when \<open>cmp i\<close> is the
  result of the comparison with slot \<open>i\<close>; and the comparisons that the two dictionaries
  make.
\<close>

function probes :: "(nat \<Rightarrow> int) \<Rightarrow> nat \<Rightarrow> nat \<Rightarrow> nat list" where
  "probes cmp l u =
     (if l < u then
        (l + u) div 2 #
        (if cmp ((l + u) div 2) < 0 then probes cmp l ((l + u) div 2)
         else if cmp ((l + u) div 2) > 0 then probes cmp ((l + u) div 2 + 1) u
         else [])
      else [])"
  by pat_completeness auto
termination
  by (relation "measure (\<lambda>(cmp, l, u). u - l)") auto

declare probes.simps [simp del]

definition int_compare :: "(nat \<Rightarrow> IntDictItem) \<Rightarrow> int \<Rightarrow> nat \<Rightarrow> int" where
  "int_compare a k i = (if k < item_key (a i) then - 1 else if k > item_key (a i) then 1 else 0)"

definition str_compare :: "(nat \<Rightarrow> StrDictItem) \<Rightarrow> string \<Rightarrow> nat \<Rightarrow> int" where
  "str_compare a t i = stricmp t (ptr_text (sitem_key (a i)))"

text \<open>
  The linear correction of \<^verbatim>\<open>strdict_bisect_left\<close> from the candidate slot \<open>c\<close>.
\<close>

definition str_correction :: "(nat \<Rightarrow> StrDictItem) \<Rightarrow> nat \<Rightarrow> char_ptr \<Rightarrow> nat \<Rightarrow> nat" where
  "str_correction a n k c =
     (if stricmp (ptr_text (sitem_key (a c))) (ptr_text k) < 0
      then str_search_forward a n k c else str_search_backward a k c)"

text \<open>
  The slot from which \<^verbatim>\<open>bisect_left(k)\<close> starts its linear correction in a dictionary that
  is not empty: the cached candidate when the cached key compares equal to \<open>k\<close>, and
  otherwise the last slot that the binary search compares with \<open>k\<close>.
\<close>

definition int_cache_slot :: "IntDict \<Rightarrow> (nat \<Rightarrow> IntDictItem) \<Rightarrow> int \<Rightarrow> nat" where
  "int_cache_slot dict a k =
     (case candidate dict of
        Some c \<Rightarrow> if sought_key dict = k then c
                  else last (probes (int_compare a k) 0 (nitems dict))
      | None \<Rightarrow> last (probes (int_compare a k) 0 (nitems dict)))"

definition str_cache_slot :: "StrDict \<Rightarrow> (nat \<Rightarrow> StrDictItem) \<Rightarrow> char_ptr \<Rightarrow> nat" where
  "str_cache_slot dict a k =
     (case s_candidate dict of
        Some c \<Rightarrow> if stricmp (sought_string dict) (ptr_text k) = 0 then c
                  else last (probes (str_compare a (ptr_text k)) 0 (s_nitems dict))
      | None \<Rightarrow> last (probes (str_compare a (ptr_text k)) 0 (s_nitems dict)))"

text \<open>
  Whether \<^verbatim>\<open>dict->sought_key == key\<close> holds at the end of \<^verbatim>\<open>strdict_bisect_left\<close>, so that
  the cache is cleared: with the cache reused, when the cached pointer is the caller's;
  after a search, when the copy of the key failed, or when it succeeded with the buffer
  still without a block (the key is empty) and the caller's key is the literal itself.
\<close>

definition str_cache_cleared :: "nat \<Rightarrow> bool \<Rightarrow> StrDict \<Rightarrow> char_ptr \<Rightarrow> bool" where
  "str_cache_cleared size_max ok dict k =
     (if s_candidate dict \<noteq> None \<and> stricmp (sought_string dict) (ptr_text k) = 0
      then sought_is dict k
      else (case stringbuffer_append_all size_max ok
                   (stringbuffer_truncate (s_buffer dict) 0) (ptr_text k) of
              (copied, b) \<Rightarrow>
                \<not> copied \<or> (buffer b = None \<and> ptr_addr empty_literal = ptr_addr k)))"

text \<open>
  Two dictionaries hold the same store when they agree on everything but the search
  cache (and, for strings, the buffer that holds the copy of the sought key).
\<close>

definition int_same_store :: "IntDict \<Rightarrow> IntDict \<Rightarrow> bool" where
  "int_same_store d d' \<longleftrightarrow> nalloc d = nalloc d' \<and> nitems d = nitems d' \<and> array d = array d'"

definition str_same_store :: "StrDict \<Rightarrow> StrDict \<Rightarrow> bool" where
  "str_same_store d d' \<longleftrightarrow> s_nalloc d = s_nalloc d' \<and> s_nitems d = s_nitems d' \<and> s_array d = s_array d'"

text \<open>
  The cached key of a string dictionary is not a caller's pointer.
\<close>

definition no_raw_key :: "StrDict \<Rightarrow> bool" where
  "no_raw_key dict = (case s_sought_key dict of SoughtCaller p \<Rightarrow> False | _ \<Rightarrow> True)"

text \<open>
  What the assertions of \<^verbatim>\<open>StringBuff.c\<close> demand of a buffer: a null block has size 0
  and holds the empty string, and a block holds \<open>string_len\<close> characters.
\<close>

definition stringbuffer_ok :: "StringBuffer \<Rightarrow> bool" where
  "stringbuffer_ok b =
     (case buffer b of
        None \<Rightarrow> buffer_size b = 0 \<and> string_len b = 0
      | Some t \<Rightarrow> length t = string_len b)"

text \<open>
  Three facts that every call keeps: the capacity is a multiple of 4 or \<^verbatim>\<open>SIZE_MAX\<close>; the
  block is null exactly when the capacity is 0; and the block fits in memory, that is
  \<open>nalloc * item_size \<le> SIZE_MAX\<close>.
\<close>

definition int_capacity_inv :: "nat \<Rightarrow> nat \<Rightarrow> IntDict \<Rightarrow> bool" where
  "int_capacity_inv M S d \<longleftrightarrow>
     (nalloc d = M \<or> 4 dvd nalloc d) \<and> ((array d = None) = (nalloc d = 0)) \<and> nalloc d * S \<le> M"

subsection \<open>A client's loop over the iterator\<close>

text \<open>
  The loop of the library's own test of removal during iteration (test 40 of
  \<^verbatim>\<open>StrDicTest.c\<close>, \<^verbatim>\<open>RemoveInterval = 2\<close>), over an integer dictionary:
  \<^verbatim>\<open>
  size_t count = 0;
  for (void *value = intdictviter_all_init(&iter, &dict);
       value != NULL;
       value = intdictviter_advance(&iter), ++count)
  {
    if (count % RemoveInterval) { intdictviter_remove(&iter); }
  }
  \<close>
  \<open>iterate_removing value iter count seen\<close> is the loop from its test on; \<open>seen\<close> collects
  the values that the body has been run with. It returns \<open>seen\<close>, \<open>count\<close> and the
  iterator when the loop ends.
\<close>

definition RemoveInterval :: nat where
  "RemoveInterval = 2"

function iterate_removing ::
  "nat option \<Rightarrow> IntDictVIter \<Rightarrow> nat \<Rightarrow> nat list \<Rightarrow> nat list \<times> nat \<times> IntDictVIter" where
  "iterate_removing value iter count seen =
     (case value of
        None \<Rightarrow> (seen, count, iter)
      | Some v \<Rightarrow>
          (case intdictviter_advance
                  (if count mod RemoveInterval \<noteq> 0 then snd (intdictviter_remove iter) else iter) of
             (value', iter') \<Rightarrow> iterate_removing value' iter' (count + 1) (seen @ [v])))"
  by pat_completeness auto
termination
  by (relation "measure (\<lambda>(value, iter, count, seen).
          case value of None \<Rightarrow> 0 | Some v \<Rightarrow> Suc (iter_end iter - next_index iter))")
     (auto simp: intdictviter_advance_def intdictviter_remove_def Let_def
           split: if_splits option.splits)

declare iterate_removing.simps [simp del]

text \<open>
  The same body run a given number of times, whatever the values are: \<open>visit_calls n\<close>
  is \<open>n\<close> rounds of the loop. Begun with the result of \<^verbatim>\<open>intdictviter_all_init\<close> and run
  for as many rounds as the dictionary has items, it makes as many calls that yield an
  item and one more call of \<^verbatim>\<open>intdictviter_advance\<close>, whose result it returns.
\<close>

fun visit_calls ::
  "nat \<Rightarrow> nat option \<Rightarrow> IntDictVIter \<Rightarrow> nat \<Rightarrow> nat option list \<Rightarrow>
   nat option list \<times> nat option \<times> IntDictVIter" where
  "visit_calls 0 cur iter count seen = (seen, cur, iter)"
| "visit_calls (Suc n) cur iter count seen =
     (case intdictviter_advance
             (if count mod RemoveInterval \<noteq> 0 then snd (intdictviter_remove iter) else iter) of
        (value', iter') \<Rightarrow> visit_calls n value' iter' (count + 1) (seen @ [cur]))"

text \<open>
  The entries that the loop keeps among the first \<open>c\<close>, and among all: those at the
  positions divisible by \<open>RemoveInterval\<close>.
\<close>

definition kept_upto :: "'a list \<Rightarrow> nat \<Rightarrow> 'a list" where
  "kept_upto es c = map (\<lambda>i. es ! i) (filter (\<lambda>i. i mod RemoveInterval = 0) [0..<c])"

definition kept_entries :: "'a list \<Rightarrow> 'a list" where
  "kept_entries es = kept_upto es (length es)"

subsection \<open>Example inputs\<close>

text \<open>A block that the allocator hands out with every slot zeroed.\<close>

definition zeroed_items :: "nat \<Rightarrow> IntDictItem" where
  "zeroed_items = (\<lambda>i. \<lparr>item_key = 0, item_value = None\<rparr>)"


text \<open>
  A block with the given items in its first slots and zeroed slots behind them, and a
  dictionary of five items in a block of eight slots.
\<close>

definition block_of :: "'a \<Rightarrow> 'a list \<Rightarrow> nat \<Rightarrow> 'a" where
  "block_of z xs i = (if i < length xs then xs ! i else z)"

definition example_dict :: IntDict where
  "example_dict =
     \<lparr>nalloc = 8, nitems = 5, sought_key = 0,
      array = Some (block_of \<lparr>item_key = 0, item_value = None\<rparr>
        [\<lparr>item_key = 1, item_value = Some 10\<rparr>, \<lparr>item_key = 3, item_value = Some 11\<rparr>,
         \<lparr>item_key = 3, item_value = None\<rparr>, \<lparr>item_key = 4, item_value = Some 13\<rparr>,
         \<lparr>item_key = 6, item_value = Some 14\<rparr>]),
      candidate = None\<rparr>"

text \<open>A string dictionary of three items in a block of four slots.\<close>

definition key_at :: "nat \<Rightarrow> string \<Rightarrow> char_ptr" where
  "key_at addr s = \<lparr>ptr_addr = addr, ptr_text = s\<rparr>"

definition str_example_dict :: StrDict where
  "str_example_dict =
     \<lparr>s_nalloc = 4, s_nitems = 3, s_buffer = stringbuffer_init, s_sought_key = SoughtNull,
      s_array = Some (block_of \<lparr>sitem_key = key_at 0 [], sitem_value = None\<rparr>
        [\<lparr>sitem_key = key_at 100 ''Aardvark'', sitem_value = Some 20\<rparr>,
         \<lparr>sitem_key = key_at 101 ''bison'', sitem_value = None\<rparr>,
         \<lparr>sitem_key = key_at 102 ''Camel'', sitem_value = Some 22\<rparr>]),
      s_candidate = None\<rparr>"

text \<open>
  The scenario of the library's tests on a string dictionary: six insertions (the second
  with a failing copy of the key, the fifth with a growing block), two bisections, a search and a
  removal by key.
\<close>

definition str_zeroed_items :: "nat \<Rightarrow> StrDictItem" where
  "str_zeroed_items = (\<lambda>i. \<lparr>sitem_key = key_at 0 [], sitem_value = None\<rparr>)"

definition str_example_calls :: "strdict_op list" where
  "str_example_calls =
     [SInsert (key_at 100 []) (Some 1) True (Some str_zeroed_items),
      SInsert (key_at 101 ''Aardvark'') (Some 2) False None,
      SInsert (key_at 102 ''bison'') (Some 3) True None,
      SInsert (key_at 103 ''Camel'') (Some 4) True None,
      SInsert (key_at 104 ''YAK'') (Some 5) True (Some str_zeroed_items),
      SInsert (key_at 105 ''zebra'') (Some 6) True None,
      SBisectLeft (key_at 200 ''c'') True,
      SBisectRight (key_at 201 ''CAMEL'') False,
      SFind (key_at 202 ''BISON'') True,
      SRemove (key_at 203 ''aardvark'') True]"

text \<open>
  Calls that search for the same key again, so that the second and later searches find
  the key of the first in the cache.
\<close>

definition cached_calls :: "intdict_op list" where
  "cached_calls =
     [Insert 5 (Some 1) (Some zeroed_items), Insert 3 None None, Insert 7 (Some 2) None,
      Insert 5 (Some 3) None, BisectLeft 5, BisectLeft 5, BisectRight 5, Find 5]"

definition str_cached_calls :: "strdict_op list" where
  "str_cached_calls =
     [SInsert (key_at 100 ''bison'') (Some 1) True (Some str_zeroed_items),
      SInsert (key_at 101 ''Camel'') (Some 2) True None,
      SInsert (key_at 102 ''aardvark'') (Some 3) True None,
      SBisectLeft (key_at 200 ''camel'') True,
      SFind (key_at 201 ''CAMEL'') True,
      SBisectRight (key_at 202 ''Camel'') False,
      SBisectLeft (key_at 200 ''camel'') False]"

text \<open>The first \<open>n\<close> natural numbers inserted as keys, the allocator always willing.\<close>

definition insert_calls :: "nat \<Rightarrow> intdict_op list" where
  "insert_calls n = map (\<lambda>i. Insert (int i) None (Some zeroed_items)) [0..<n]"

text \<open>The same dictionary with a value behind every key.\<close>

definition valued_dict :: IntDict where
  "valued_dict =
     \<lparr>nalloc = 8, nitems = 5, sought_key = 0,
      array = Some (block_of \<lparr>item_key = 0, item_value = None\<rparr>
        [\<lparr>item_key = 1, item_value = Some 10\<rparr>, \<lparr>item_key = 3, item_value = Some 11\<rparr>,
         \<lparr>item_key = 3, item_value = Some 12\<rparr>, \<lparr>item_key = 4, item_value = Some 13\<rparr>,
         \<lparr>item_key = 6, item_value = Some 14\<rparr>]),
      candidate = None\<rparr>"
section \<open>Proofs\<close>

subsection \<open>Binary search leaves its last probe as the candidate\<close>

lemma bsearch_empty: "\<not> l < u \<Longrightarrow> bsearch compar s l u = (None, s)"
  by (subst bsearch.simps) simp

lemma bsearch_step:
  "l < u \<Longrightarrow> compar s ((l + u) div 2) = (c, s') \<Longrightarrow>
   bsearch compar s l u =
     (if c < 0 then bsearch compar s' l ((l + u) div 2)
      else if c > 0 then bsearch compar s' ((l + u) div 2 + 1) u
      else (Some ((l + u) div 2), s'))"
  by (subst bsearch.simps) simp

lemma probes_empty: "\<not> l < u \<Longrightarrow> probes cmp l u = []"
  by (subst probes.simps) simp

lemma probes_step:
  "l < u \<Longrightarrow> probes cmp l u =
     (l + u) div 2 #
     (if cmp ((l + u) div 2) < 0 then probes cmp l ((l + u) div 2)
      else if cmp ((l + u) div 2) > 0 then probes cmp ((l + u) div 2 + 1) u
      else [])"
  by (subst probes.simps) simp

lemma probes_nonempty: "l < u \<Longrightarrow> probes cmp l u \<noteq> []"
  by (simp add: probes_step)

lemma bsearch_last_probe:
  assumes absorb: "\<And>i j s. f i (f j s) = f i s"
    and stable: "\<And>i j s. g (f j s) i = g s i"
    and "l < u"
  shows "l \<le> last (probes (g s) l u) \<and> last (probes (g s) l u) < u \<and>
         snd (bsearch (\<lambda>s i. (g s i, f i s)) s l u) = f (last (probes (g s) l u)) s"
  using \<open>l < u\<close>
proof (induction "u - l" arbitrary: s l u rule: less_induct)
  case less
  define m where "m = (l + u) div 2"
  have m: "l \<le> m" "m < u" using less.prems by (simp_all add: m_def)
  let ?B = "bsearch (\<lambda>s i. (g s i, f i s))"
  have gs: "g (f m s) = g s" by (intro ext) (rule stable)
  have step: "?B s l u =
     (if g s m < 0 then ?B (f m s) l m
      else if g s m > 0 then ?B (f m s) (m + 1) u
      else (Some m, f m s))"
    unfolding m_def by (rule bsearch_step[OF less.prems]) simp
  have pstep: "probes (g s) l u =
     m # (if g s m < 0 then probes (g s) l m
          else if g s m > 0 then probes (g s) (m + 1) u else [])"
    unfolding m_def by (rule probes_step[OF less.prems])
  consider (lt) "g s m < 0" | (gt) "g s m > 0" | (eq) "g s m = 0" by linarith
  then show ?case
  proof cases
    case lt
    show ?thesis
    proof (cases "l < m")
      case True
      have "m - l < u - l" using m by simp
      from less.hyps[OF this True, of "f m s"]
      have "l \<le> last (probes (g s) l m)" "last (probes (g s) l m) < m"
        "snd (?B (f m s) l m) = f (last (probes (g s) l m)) (f m s)"
        by (simp_all add: gs)
      then show ?thesis using lt m step pstep absorb probes_nonempty[OF True, of "g s"] by simp
    next
      case False
      then show ?thesis using lt m step pstep by (simp add: bsearch_empty probes_empty)
    qed
  next
    case gt
    show ?thesis
    proof (cases "m + 1 < u")
      case True
      have "u - (m + 1) < u - l" using m by simp
      from less.hyps[OF this True, of "f m s"]
      have "m + 1 \<le> last (probes (g s) (m + 1) u)" "last (probes (g s) (m + 1) u) < u"
        "snd (?B (f m s) (m + 1) u) = f (last (probes (g s) (m + 1) u)) (f m s)"
        by (simp_all add: gs)
      then show ?thesis using gt m step pstep absorb probes_nonempty[OF True, of "g s"] by simp
    next
      case False
      then show ?thesis using gt m step pstep by (simp add: bsearch_empty probes_empty)
    qed
  next
    case eq
    then show ?thesis using m step pstep by simp
  qed
qed

lemma compare_key_n_item_eq:
  "compare_key_n_item a =
     (\<lambda>s i. (int_compare a (sought_key s) i, s\<lparr>candidate := Some i\<rparr>))"
  by (intro ext) (simp add: compare_key_n_item_def int_compare_def Let_def)

lemma bsearch_int_candidate:
  assumes "l < u"
  shows "\<exists>c. l \<le> c \<and> c < u \<and> c = last (probes (int_compare a (sought_key d)) l u) \<and>
     snd (bsearch (compare_key_n_item a) d l u) = d\<lparr>candidate := Some c\<rparr>"
  unfolding compare_key_n_item_eq
  using bsearch_last_probe[where f = "\<lambda>i s. s\<lparr>candidate := Some i\<rparr>"
      and g = "\<lambda>s. int_compare a (sought_key s)" and s = d, OF _ _ assms]
  by simp


lemma adj_mono:
  fixes f :: "nat \<Rightarrow> 'a::preorder"
  assumes "\<And>i. i + 1 < n \<Longrightarrow> f i \<le> f (i + 1)" and "i \<le> j" and "j < n"
  shows "f i \<le> f j"
  using assms(2,3)
proof (induction j)
  case 0
  then show ?case by simp
next
  case (Suc j)
  show ?case
  proof (cases "i = Suc j")
    case True
    then show ?thesis by simp
  next
    case False
    with Suc.prems have "i \<le> j" "j < n" by simp_all
    then have "f i \<le> f j" by (rule Suc.IH)
    also have "f j \<le> f (j + 1)" using Suc.prems(2) by (intro assms(1)) simp
    finally show ?thesis by simp
  qed
qed


lemma intdict_ordered_adj:
  "intdict_ordered d \<Longrightarrow> array d = Some a \<Longrightarrow> i + 1 < nitems d \<Longrightarrow>
   item_key (a i) \<le> item_key (a (i + 1))"
  by (auto simp: intdict_ordered_def list_all_iff)


lemma intdict_ordered_mono:
  assumes "intdict_ordered d" "array d = Some a" "i \<le> j" "j < nitems d"
  shows "item_key (a i) \<le> item_key (a j)"
  using intdict_ordered_adj[OF assms(1,2)] assms(3,4)
  by (rule adj_mono[where f = "\<lambda>i. item_key (a i)"])


lemma int_search_forward_bound:
  assumes "c < n" "\<forall>j\<le>c. item_key (a j) < k"
  shows "lower_bound (\<lambda>j. item_key (a j)) n k (int_search_forward a n k c)"
  using assms
proof (induction a n k c rule: int_search_forward.induct)
  case (1 a n k index)
  show ?case
  proof (cases "index + 1 < n \<and> item_key (a (index + 1)) < k")
    case True
    then have "\<forall>j\<le>index + 1. item_key (a j) < k"
      using "1.prems"(2) by (auto simp: le_Suc_eq)
    with True "1.IH" show ?thesis by (subst int_search_forward.simps) simp
  next
    case False
    have "\<forall>j<index + 1. item_key (a j) < k" using "1.prems"(2) by auto
    with False "1.prems"(1) show ?thesis
      by (subst int_search_forward.simps) (auto simp: lower_bound_def)
  qed
qed


lemma int_search_backward_bound:
  assumes "c < n" "k \<le> item_key (a c)"
    and mono: "\<And>i j. i \<le> j \<Longrightarrow> j < n \<Longrightarrow> item_key (a i) \<le> item_key (a j)"
  shows "lower_bound (\<lambda>j. item_key (a j)) n k (int_search_backward a k c)"
  using assms(1,2)
proof (induction c)
  case 0
  then show ?case by (simp add: lower_bound_def)
next
  case (Suc c)
  show ?case
  proof (cases "k \<le> item_key (a c)")
    case True
    with Suc show ?thesis by simp
  next
    case False
    have "\<forall>j<Suc c. item_key (a j) < k"
    proof (intro allI impI)
      fix j assume "j < Suc c"
      then have "item_key (a j) \<le> item_key (a c)" using Suc.prems(1) by (intro mono) simp_all
      with False show "item_key (a j) < k" by simp
    qed
    with False Suc.prems show ?thesis by (simp add: lower_bound_def)
  qed
qed


lemma int_search_right_bound:
  assumes "index \<le> n" "\<forall>j<index. item_key (a j) \<le> k"
  shows "upper_bound (\<lambda>j. item_key (a j)) n k (int_search_right a n k index)"
  using assms
proof (induction a n k index rule: int_search_right.induct)
  case (1 a n k index)
  show ?case
  proof (cases "index < n \<and> item_key (a index) \<le> k")
    case True
    then have "\<forall>j<index + 1. item_key (a j) \<le> k"
      using "1.prems"(2) by (auto simp: less_Suc_eq)
    with True "1.IH" show ?thesis by (subst int_search_right.simps) simp
  next
    case False
    with "1.prems" show ?thesis
      by (subst int_search_right.simps) (auto simp: upper_bound_def)
  qed
qed


lemma int_search_right_ge: "index \<le> int_search_right a n k index"
proof (induction a n k index rule: int_search_right.induct)
  case (1 a n k index)
  show ?case
  proof (cases "index < n \<and> item_key (a index) \<le> k")
    case True
    with "1.IH" show ?thesis by (subst int_search_right.simps) simp
  next
    case False
    then show ?thesis by (subst int_search_right.simps) auto
  qed
qed


lemma lower_bound_takeWhile:
  assumes "lower_bound f n k r"
  shows "length (takeWhile (\<lambda>x. x < k) (map f [0..<n])) = r"
proof -
  have "takeWhile (\<lambda>x. x < k) (map f [0..<n]) = take r (map f [0..<n])"
    using assms by (intro takeWhile_eq_take_P_nth) (auto simp: lower_bound_def)
  then show ?thesis using assms by (simp add: lower_bound_def)
qed


lemma upper_bound_takeWhile:
  assumes "upper_bound f n k r"
  shows "length (takeWhile (\<lambda>x. x \<le> k) (map f [0..<n])) = r"
proof -
  have "takeWhile (\<lambda>x. x \<le> k) (map f [0..<n]) = take r (map f [0..<n])"
    using assms by (intro takeWhile_eq_take_P_nth) (auto simp: upper_bound_def)
  then show ?thesis using assms by (simp add: upper_bound_def)
qed


lemma sorted_filter_takeWhile:
  fixes xs :: "'a::linorder list"
  shows "sorted xs \<Longrightarrow> filter (\<lambda>x. x < k) xs = takeWhile (\<lambda>x. x < k) xs"
proof (induction xs)
  case Nil
  then show ?case by simp
next
  case (Cons x xs)
  show ?case
  proof (cases "x < k")
    case True
    with Cons show ?thesis by simp
  next
    case False
    with Cons.prems have "\<forall>y\<in>set xs. \<not> y < k" by auto
    with False show ?thesis by (simp add: filter_empty_conv)
  qed
qed

subsection \<open>The bisection of the integer dictionary\<close>

lemma intdict_bisect_left_empty:
  "array d = None \<or> nitems d = 0 \<Longrightarrow> intdict_bisect_left d k = (0, d)"
  by (auto simp: intdict_bisect_left_def split: option.splits)

lemma intdict_bisect_left_nonempty:
  assumes ok: "intdict_ok M d" and arr: "array d = Some a" and pos: "nitems d > 0"
  shows "\<exists>c<nitems d.
           snd (intdict_bisect_left d k) = d\<lparr>sought_key := k, candidate := Some c\<rparr> \<and>
           fst (intdict_bisect_left d k) =
             (if item_key (a c) < k then int_search_forward a (nitems d) k c
              else int_search_backward a k c) \<and>
           (candidate d \<noteq> None \<and> sought_key d = k \<longrightarrow> candidate d = Some c) \<and>
           (\<not> (candidate d \<noteq> None \<and> sought_key d = k) \<longrightarrow>
              c = last (probes (int_compare a k) 0 (nitems d)))"
proof (cases "candidate d \<noteq> None \<and> sought_key d = k")
  case True
  then obtain c where c: "candidate d = Some c" by auto
  with ok have "c < nitems d" by (simp add: intdict_ok_def)
  moreover have "d\<lparr>sought_key := k, candidate := Some c\<rparr> = d" using True c by simp
  ultimately show ?thesis using True c arr pos
    by (intro exI[of _ c]) (simp add: intdict_bisect_left_def)
next
  case False
  define D1 where "D1 = (if candidate d \<noteq> None \<and> sought_key d \<noteq> k
                         then d\<lparr>candidate := None\<rparr> else d)"
  have D1: "candidate D1 = None" "nitems D1 = nitems d"
    using False by (auto simp: D1_def)
  define D2 where "D2 = snd (bsearch (compare_key_n_item a) (D1\<lparr>sought_key := k\<rparr>) 0 (nitems D1))"
  from bsearch_int_candidate[of 0 "nitems D1" a "D1\<lparr>sought_key := k\<rparr>"] pos D1(2)
  obtain c where c: "c < nitems d" "D2 = D1\<lparr>sought_key := k, candidate := Some c\<rparr>"
    "c = last (probes (int_compare a k) 0 (nitems d))"
    unfolding D2_def by auto
  have D2: "D2 = d\<lparr>sought_key := k, candidate := Some c\<rparr>"
    unfolding c(2) by (simp add: D1_def)
  have unf: "intdict_bisect_left d k =
      (case candidate D2 of
         Some c \<Rightarrow> (if item_key (a c) < k then int_search_forward a (nitems D2) k c
                    else int_search_backward a k c, D2)
       | None \<Rightarrow> (0, D2))"
    unfolding intdict_bisect_left_def Let_def D2_def D1_def[symmetric]
    using arr pos D1(1) by simp
  show ?thesis
    unfolding unf using c(1,3) False by (intro exI[of _ c]) (auto simp add: D2)
qed

lemma int_correction_bound:
  assumes ord: "intdict_ordered d" and arr: "array d = Some a" and c: "c < nitems d"
  shows "lower_bound (\<lambda>j. item_key (a j)) (nitems d) k
           (if item_key (a c) < k then int_search_forward a (nitems d) k c
            else int_search_backward a k c)"
proof (cases "item_key (a c) < k")
  case True
  have "\<forall>j\<le>c. item_key (a j) < k"
  proof (intro allI impI)
    fix j assume "j \<le> c"
    then have "item_key (a j) \<le> item_key (a c)"
      using c by (intro intdict_ordered_mono[OF ord arr])
    with True show "item_key (a j) < k" by simp
  qed
  with True c show ?thesis by (simp add: int_search_forward_bound)
next
  case False
  then have "k \<le> item_key (a c)" by simp
  with c have "lower_bound (\<lambda>j. item_key (a j)) (nitems d) k (int_search_backward a k c)"
    by (intro int_search_backward_bound intdict_ordered_mono[OF ord arr])
  with False show ?thesis by simp
qed

lemma lower_bound_unique:
  "lower_bound f n k r \<Longrightarrow> lower_bound f n k r' \<Longrightarrow> r = r'"
  by (metis lower_bound_takeWhile)

lemma intdict_bisect_left_bound:
  assumes ok: "intdict_ok M d" and ord: "intdict_ordered d" and arr: "array d = Some a"
  shows "lower_bound (\<lambda>j. item_key (a j)) (nitems d) k (fst (intdict_bisect_left d k))"
proof (cases "nitems d > 0")
  case True
  from intdict_bisect_left_nonempty[OF ok arr True, of k]
  obtain c where "c < nitems d" "fst (intdict_bisect_left d k) =
             (if item_key (a c) < k then int_search_forward a (nitems d) k c
              else int_search_backward a k c)" by blast
  then show ?thesis using int_correction_bound[OF ord arr, of c k] by simp
next
  case False
  then show ?thesis by (simp add: intdict_bisect_left_empty lower_bound_def)
qed

text \<open>The dictionary after a bisection differs from the one before in the cache only.\<close>

lemma intdict_bisect_left_state:
  assumes ok: "intdict_ok M d"
  shows "\<exists>sk c. snd (intdict_bisect_left d k) = d\<lparr>sought_key := sk, candidate := c\<rparr> \<and>
           (case c of None \<Rightarrow> True | Some i \<Rightarrow> i < nitems d)"
proof (cases "array d = None \<or> nitems d = 0")
  case True
  have "d = d\<lparr>sought_key := sought_key d, candidate := candidate d\<rparr>" by simp
  moreover have "case candidate d of None \<Rightarrow> True | Some i \<Rightarrow> i < nitems d"
    using ok by (simp add: intdict_ok_def)
  ultimately show ?thesis using intdict_bisect_left_empty[OF True, of k]
    by (metis snd_conv)
next
  case False
  then obtain a where arr: "array d = Some a" and pos: "nitems d > 0" by auto
  from intdict_bisect_left_nonempty[OF ok arr pos, of k]
  obtain c where "c < nitems d"
    "snd (intdict_bisect_left d k) = d\<lparr>sought_key := k, candidate := Some c\<rparr>" by blast
  then show ?thesis by (intro exI[of _ k] exI[of _ "Some c"]) simp
qed

subsection \<open>The shifting loops\<close>

lemma shift_down_apply:
  "shift_down a i n j = (if i \<le> j \<and> j < n then a (j + 1) else a j)"
proof (induction a i n arbitrary: j rule: shift_down.induct)
  case (1 a i n)
  show ?case
  proof (cases "i < n")
    case True
    have "shift_down a i n j = shift_down (a(i := a (i + 1))) (i + 1) n j"
      using True by (subst shift_down.simps) simp
    also have "\<dots> = (if i + 1 \<le> j \<and> j < n then (a(i := a (i + 1))) (j + 1)
                      else (a(i := a (i + 1))) j)"
      using True by (rule "1.IH")
    also have "\<dots> = (if i \<le> j \<and> j < n then a (j + 1) else a j)"
      using True by auto
    finally show ?thesis .
  next
    case False
    then show ?thesis by (subst shift_down.simps) auto
  qed
qed

lemma shift_up_apply:
  "shift_up a i ins j = (if ins < j \<and> j \<le> i then a (j - 1) else a j)"
proof (induction a i ins arbitrary: j rule: shift_up.induct)
  case (1 a i ins)
  show ?case
  proof (cases "i > ins")
    case True
    have "shift_up a i ins j = shift_up (a(i := a (i - 1))) (i - 1) ins j"
      using True by (subst shift_up.simps) simp
    also have "\<dots> = (if ins < j \<and> j \<le> i - 1 then (a(i := a (i - 1))) (j - 1)
                      else (a(i := a (i - 1))) j)"
      using True by (rule "1.IH")
    also have "\<dots> = (if ins < j \<and> j \<le> i then a (j - 1) else a j)"
      using True by auto
    finally show ?thesis .
  next
    case False
    then show ?thesis by (subst shift_up.simps) auto
  qed
qed

lemma map_shift_down:
  assumes "index < n"
  shows "map (shift_down a index (n - 1)) [0..<n - 1] =
         take index (map a [0..<n]) @ drop (index + 1) (map a [0..<n])"
  using assms
  by (intro nth_equalityI) (auto simp: shift_down_apply nth_append min_def)

lemma map_shift_up:
  assumes "ins \<le> n"
  shows "map ((shift_up a n ins)(ins := x)) [0..<n + 1] =
         take ins (map a [0..<n]) @ [x] @ drop ins (map a [0..<n])"
proof (intro nth_equalityI)
  show "length (map ((shift_up a n ins)(ins := x)) [0..<n + 1]) =
        length (take ins (map a [0..<n]) @ [x] @ drop ins (map a [0..<n]))"
    using assms by simp
next
  fix i assume "i < length (map ((shift_up a n ins)(ins := x)) [0..<n + 1])"
  then have i: "i < n + 1" by simp
  consider "i < ins" | "i = ins" | "ins < i" by linarith
  then show "map ((shift_up a n ins)(ins := x)) [0..<n + 1] ! i =
        (take ins (map a [0..<n]) @ [x] @ drop ins (map a [0..<n])) ! i"
  proof cases
    case 1
    with i assms show ?thesis by (simp add: shift_up_apply nth_append)
  next
    case 2
    with i assms show ?thesis by (simp add: nth_append)
  next
    case 3
    then obtain m where m: "i - ins = Suc m" by (metis Suc_diff_Suc)
    let ?es = "map a [0..<n]"
    have len: "length (take ins ?es) = ins" using assms by simp
    have im: "ins + m < n" "i - 1 = ins + m" using m i by simp_all
    have "(take ins ?es @ [x] @ drop ins ?es) ! i = ([x] @ drop ins ?es) ! (i - ins)"
      using 3 len by (simp only: nth_append) simp
    also have "\<dots> = drop ins ?es ! m" by (simp only: m) simp
    also have "\<dots> = a (ins + m)" using im(1) by simp
    finally have rhs: "(take ins ?es @ [x] @ drop ins ?es) ! i = a (i - 1)"
      by (simp only: im(2))
    have "map ((shift_up a n ins)(ins := x)) [0..<n + 1] ! i = ((shift_up a n ins)(ins := x)) i"
      using i by (simp only: nth_map_upt) simp
    also have "\<dots> = a (i - 1)" using 3 i by (simp add: shift_up_apply)
    finally show ?thesis using rhs by simp
  qed
qed

subsection \<open>Sorted key lists\<close>

lemma intdict_ordered_sorted: "intdict_ordered d \<longleftrightarrow> sorted (intdict_keys d)"
proof (cases "array d")
  case None
  then show ?thesis by (simp add: intdict_ordered_def intdict_keys_def intdict_entries_def)
next
  case (Some a)
  have "sorted (map (\<lambda>i. item_key (a i)) [0..<nitems d]) \<longleftrightarrow>
        (\<forall>i. Suc i < nitems d \<longrightarrow> item_key (a i) \<le> item_key (a (Suc i)))"
    by (simp add: sorted_iff_nth_Suc)
  also have "\<dots> \<longleftrightarrow> list_all (\<lambda>i. item_key (a i) \<le> item_key (a (i + 1))) [0..<nitems d - 1]"
    by (auto simp: list_all_iff)
  finally show ?thesis
    using Some by (simp add: intdict_ordered_def intdict_keys_def intdict_entries_def comp_def)
qed

lemma intdict_keys_Some:
  "array d = Some a \<Longrightarrow> intdict_keys d = map (\<lambda>i. item_key (a i)) [0..<nitems d]"
  by (simp add: intdict_keys_def intdict_entries_def comp_def)

lemma intdict_keys_None: "array d = None \<Longrightarrow> intdict_keys d = []"
  by (simp add: intdict_keys_def intdict_entries_def)

lemma intdict_bisect_left_index:
  assumes ok: "intdict_ok M d" and ord: "intdict_ordered d"
  shows "fst (intdict_bisect_left d k) = length (takeWhile (\<lambda>x. x < k) (intdict_keys d))"
proof (cases "array d")
  case None
  then show ?thesis by (simp add: intdict_bisect_left_empty intdict_keys_None)
next
  case (Some a)
  from intdict_bisect_left_bound[OF ok ord Some, of k]
  show ?thesis by (simp add: intdict_keys_Some[OF Some] lower_bound_takeWhile)
qed

lemma intdict_bisect_left_le:
  assumes ok: "intdict_ok M d" and ord: "intdict_ordered d"
  shows "fst (intdict_bisect_left d k) \<le> nitems d"
proof -
  have "length (takeWhile (\<lambda>x. x < k) (intdict_keys d)) \<le> length (intdict_keys d)"
    by (rule length_takeWhile_le)
  also have "\<dots> \<le> nitems d"
    by (simp add: intdict_keys_def intdict_entries_def split: option.splits)
  finally show ?thesis by (simp add: intdict_bisect_left_index[OF ok ord])
qed

lemma sorted_insert_at_boundary:
  fixes xs :: "'a::linorder list"
  assumes "sorted xs"
  shows "sorted (take (length (takeWhile (\<lambda>x. x < k) xs)) xs @ [k] @
                 drop (length (takeWhile (\<lambda>x. x < k) xs)) xs)"
proof -
  let ?P = "\<lambda>x. x < k"
  have tk: "take (length (takeWhile ?P xs)) xs = takeWhile ?P xs"
    by (rule takeWhile_eq_take[symmetric])
  have dr: "drop (length (takeWhile ?P xs)) xs = dropWhile ?P xs"
    by (rule dropWhile_eq_drop[symmetric])
  have lo: "\<forall>x\<in>set (takeWhile ?P xs). x \<le> k"
    by (auto dest: set_takeWhileD)
  have hi: "\<forall>y\<in>set (dropWhile ?P xs). k \<le> y"
  proof (cases "dropWhile ?P xs")
    case Nil
    then show ?thesis by (simp only: list.set ball_empty)
  next
    case (Cons z zs)
    then have "\<not> z < k" using hd_dropWhile[of ?P xs] by simp
    moreover have "sorted (z # zs)" using sorted_dropWhile[OF assms, of ?P] Cons by simp
    ultimately show ?thesis using Cons by auto
  qed
  have "sorted (takeWhile ?P xs @ [k] @ dropWhile ?P xs)"
    using sorted_takeWhile[OF assms, of ?P] sorted_dropWhile[OF assms, of ?P] lo hi
    by (fastforce simp: sorted_append)
  then show ?thesis by (simp only: tk dr)
qed

lemma sorted_remove_nth:
  fixes xs :: "'a::linorder list"
  assumes "sorted xs"
  shows "sorted (take i xs @ drop (i + 1) xs)"
proof -
  have "sorted (take i xs @ drop i xs)" using assms by simp
  then have "\<forall>x\<in>set (take i xs). \<forall>y\<in>set (drop i xs). x \<le> y"
    by (simp only: sorted_append) simp
  moreover have "set (drop (i + 1) xs) \<subseteq> set (drop i xs)"
    by (rule set_drop_subset_set_drop) simp
  ultimately show ?thesis
    using assms by (auto simp: sorted_append)
qed

subsection \<open>What insertion and removal do to the entries\<close>

lemma intdict_bisect_left_fields:
  assumes ok: "intdict_ok M d"
  shows "nitems (snd (intdict_bisect_left d k)) = nitems d"
    and "nalloc (snd (intdict_bisect_left d k)) = nalloc d"
    and "array (snd (intdict_bisect_left d k)) = array d"
    and "intdict_entries (snd (intdict_bisect_left d k)) = intdict_entries d"
    and "intdict_ok M (snd (intdict_bisect_left d k))"
    and "intdict_ordered (snd (intdict_bisect_left d k)) = intdict_ordered d"
proof -
  from intdict_bisect_left_state[OF ok, of k]
  obtain sk c where st: "snd (intdict_bisect_left d k) = d\<lparr>sought_key := sk, candidate := c\<rparr>"
    and c: "case c of None \<Rightarrow> True | Some i \<Rightarrow> i < nitems d" by blast
  show "nitems (snd (intdict_bisect_left d k)) = nitems d" by (simp add: st)
  show "nalloc (snd (intdict_bisect_left d k)) = nalloc d" by (simp add: st)
  show "array (snd (intdict_bisect_left d k)) = array d" by (simp add: st)
  show "intdict_entries (snd (intdict_bisect_left d k)) = intdict_entries d"
    by (simp add: st intdict_entries_def split: option.splits)
  show "intdict_ok M (snd (intdict_bisect_left d k))"
    using ok c by (simp add: st intdict_ok_def split: option.splits)
  show "intdict_ordered (snd (intdict_bisect_left d k)) = intdict_ordered d"
    by (simp add: st intdict_ordered_def split: option.splits)
qed

lemma realloc_bytes_exact:
  "n * S \<le> M \<Longrightarrow> realloc_bytes M S n = n * S"
  by (simp add: realloc_bytes_def)

lemma realloc_bytes_room:
  assumes "0 < S"
  shows "(realloc_bytes M S n div S < n) = (M < n * S)"
proof (cases "n * S \<le> M")
  case True
  then show ?thesis using assms by (simp add: realloc_bytes_exact)
next
  case False
  have "realloc_bytes M S n < M + 1" by (simp add: realloc_bytes_def)
  also have "\<dots> \<le> n * S" using False by simp
  finally have "realloc_bytes M S n div S < n"
    using assms by (simp add: div_less_iff_less_mult)
  with False show ?thesis by simp
qed

lemma realloc_bytes_zero:
  assumes "0 < S" "0 < n" "realloc_bytes M S n = 0"
  shows "M < n * S"
proof (rule ccontr)
  assume "\<not> M < n * S"
  then have "realloc_bytes M S n = n * S" by (simp add: realloc_bytes_exact)
  with assms show False by simp
qed

text \<open>
  The three outcomes of an insertion into a full block below the greatest capacity. The
  request wraps when \<open>new_size * item_size\<close> exceeds \<^verbatim>\<open>SIZE_MAX\<close>.
\<close>

lemma intdict_insert_fault:
  assumes ok: "intdict_ok M d" and full: "nitems d = nalloc d" and nmax: "nalloc d \<noteq> M"
  shows "realloc_bytes M S (new_size M (nalloc d)) = 0 \<Longrightarrow>
           intdict_insert M S mem d k v = Inl ReallocZero"
    and "realloc_bytes M S (new_size M (nalloc d)) \<noteq> 0 \<Longrightarrow> mem = Some fresh \<Longrightarrow>
         realloc_bytes M S (new_size M (nalloc d)) div S < new_size M (nalloc d) \<Longrightarrow>
           intdict_insert M S mem d k v = Inl Overrun"
proof -
  obtain r d0 where bl: "intdict_bisect_left d k = (r, d0)" by (cases "intdict_bisect_left d k")
  have d0: "nitems d0 = nitems d" "nalloc d0 = nalloc d"
    using intdict_bisect_left_fields(1,2)[OF ok, of k] bl by simp_all
  show "realloc_bytes M S (new_size M (nalloc d)) = 0 \<Longrightarrow>
           intdict_insert M S mem d k v = Inl ReallocZero"
    using full nmax by (simp add: intdict_insert_def bl Let_def d0)
  show "realloc_bytes M S (new_size M (nalloc d)) \<noteq> 0 \<Longrightarrow> mem = Some fresh \<Longrightarrow>
         realloc_bytes M S (new_size M (nalloc d)) div S < new_size M (nalloc d) \<Longrightarrow>
           intdict_insert M S mem d k v = Inl Overrun"
    using full nmax by (simp add: intdict_insert_def bl Let_def d0)
qed

lemma intdict_insert_fail:
  assumes ok: "intdict_ok M d" and full: "nitems d = nalloc d"
    and no: "nalloc d = M \<or> (mem = None \<and> realloc_bytes M S (new_size M (nalloc d)) \<noteq> 0)"
  shows "intdict_insert M S mem d k v = Inr (None, snd (intdict_bisect_left d k))"
proof -
  obtain r d0 where bl: "intdict_bisect_left d k = (r, d0)" by (cases "intdict_bisect_left d k")
  have "nitems d0 = nitems d" "nalloc d0 = nalloc d"
    using intdict_bisect_left_fields(1,2)[OF ok, of k] bl by simp_all
  with full no show ?thesis
    by (auto simp: intdict_insert_def bl Let_def)
qed

lemma realloc_block_entries:
  assumes "array d = None \<longrightarrow> nalloc d = 0" "nitems d \<le> nalloc d"
  shows "map (realloc_block (array d) (nalloc d) fresh) [0..<nitems d] = intdict_entries d"
  using assms
  by (cases "array d") (auto simp: realloc_block_def intdict_entries_def)

lemma intdict_insert_success:
  assumes ok: "intdict_ok M d" and ord: "intdict_ordered d"
    and can: "nitems d = nalloc d \<longrightarrow>
                nalloc d \<noteq> M \<and> mem \<noteq> None \<and> realloc_bytes M S (new_size M (nalloc d)) \<noteq> 0 \<and>
                \<not> realloc_bytes M S (new_size M (nalloc d)) div S < new_size M (nalloc d)"
  shows "\<exists>d'. intdict_insert M S mem d k v = Inr (Some (fst (intdict_bisect_left d k)), d') \<and>
           intdict_entries d' =
             take (fst (intdict_bisect_left d k)) (intdict_entries d) @
             [\<lparr>item_key = k, item_value = v\<rparr>] @
             drop (fst (intdict_bisect_left d k)) (intdict_entries d) \<and>
           nitems d' = nitems d + 1 \<and>
           nalloc d' = (if nitems d = nalloc d then new_size M (nalloc d) else nalloc d) \<and>
           candidate d' = None \<and> array d' \<noteq> None"
proof -
  obtain r d0 where bl: "intdict_bisect_left d k = (r, d0)" by (cases "intdict_bisect_left d k")
  have d0: "nitems d0 = nitems d" "nalloc d0 = nalloc d" "array d0 = array d"
    using intdict_bisect_left_fields(1,2,3)[OF ok, of k] bl by simp_all
  have r: "r \<le> nitems d" using intdict_bisect_left_le[OF ok ord, of k] bl by simp
  let ?x = "\<lparr>item_key = k, item_value = v\<rparr>"
  show ?thesis
  proof (cases "nitems d = nalloc d")
    case True
    with can obtain fresh where mem: "mem = Some fresh" and nmax: "nalloc d \<noteq> M"
      and bytes: "realloc_bytes M S (new_size M (nalloc d)) \<noteq> 0"
        "\<not> realloc_bytes M S (new_size M (nalloc d)) div S < new_size M (nalloc d)" by auto
    let ?a = "realloc_block (array d) (nalloc d) fresh"
    let ?d' = "d0\<lparr>nalloc := new_size M (nalloc d), array := Some ?a,
                  candidate := None,
                  array := Some ((shift_up ?a (nitems d) r)(r := ?x)),
                  nitems := nitems d + 1\<rparr>"
    have ins: "intdict_insert M S mem d k v = Inr (Some r, ?d')"
      using True mem nmax bytes by (simp add: intdict_insert_def bl Let_def d0)
    have "intdict_entries ?d' = map ((shift_up ?a (nitems d) r)(r := ?x)) [0..<nitems d + 1]"
      by (simp add: intdict_entries_def)
    also have "\<dots> = take r (map ?a [0..<nitems d]) @ [?x] @ drop r (map ?a [0..<nitems d])"
      by (rule map_shift_up[OF r])
    also have "map ?a [0..<nitems d] = intdict_entries d"
      using ok by (intro realloc_block_entries) (simp_all add: intdict_ok_def)
    finally have "intdict_entries ?d' = take r (intdict_entries d) @ [?x] @ drop r (intdict_entries d)" .
    then show ?thesis using True by (intro exI[of _ ?d']) (simp add: ins bl)
  next
    case False
    with ok have "nitems d < nalloc d" by (simp add: intdict_ok_def)
    with ok obtain a where arr: "array d = Some a" by (cases "array d") (auto simp: intdict_ok_def)
    let ?d' = "d0\<lparr>candidate := None,
                  array := Some ((shift_up a (nitems d) r)(r := ?x)),
                  nitems := nitems d + 1\<rparr>"
    have ins: "intdict_insert M S mem d k v = Inr (Some r, ?d')"
      using False arr by (simp add: intdict_insert_def bl Let_def d0)
    have "intdict_entries ?d' = map ((shift_up a (nitems d) r)(r := ?x)) [0..<nitems d + 1]"
      by (simp add: intdict_entries_def)
    also have "\<dots> = take r (map a [0..<nitems d]) @ [?x] @ drop r (map a [0..<nitems d])"
      by (rule map_shift_up[OF r])
    also have "map a [0..<nitems d] = intdict_entries d"
      using arr by (simp add: intdict_entries_def)
    finally have "intdict_entries ?d' = take r (intdict_entries d) @ [?x] @ drop r (intdict_entries d)" .
    then show ?thesis using False by (intro exI[of _ ?d']) (simp add: ins bl d0)
  qed
qed

lemma intdict_remove_at_effect:
  assumes ok: "intdict_ok M d" and idx: "index < nitems d"
  shows "intdict_entries (intdict_remove_at d index) =
           take index (intdict_entries d) @ drop (index + 1) (intdict_entries d)"
    and "nitems (intdict_remove_at d index) = nitems d - 1"
    and "nalloc (intdict_remove_at d index) = nalloc d"
    and "candidate (intdict_remove_at d index) = None"
    and "sought_key (intdict_remove_at d index) = sought_key d"
    and "array (intdict_remove_at d index) \<noteq> None"
proof -
  from ok idx obtain a where arr: "array d = Some a"
    by (cases "array d") (auto simp: intdict_ok_def)
  show "intdict_entries (intdict_remove_at d index) =
           take index (intdict_entries d) @ drop (index + 1) (intdict_entries d)"
    using map_shift_down[OF idx, of a] arr
    by (simp add: intdict_remove_at_def intdict_entries_def)
  show "nitems (intdict_remove_at d index) = nitems d - 1"
    "nalloc (intdict_remove_at d index) = nalloc d"
    "candidate (intdict_remove_at d index) = None"
    "sought_key (intdict_remove_at d index) = sought_key d"
    "array (intdict_remove_at d index) \<noteq> None"
    using arr by (simp_all add: intdict_remove_at_def)
qed

subsection \<open>The invariant of the integer dictionary\<close>

lemma new_size_bounds:
  assumes "c \<le> M" "c \<noteq> M" "4 \<le> M"
  shows "c < new_size M c" and "new_size M c \<le> M"
proof -
  show "c < new_size M c"
    using assms by (auto simp: new_size_def ArrayInitSize_def ArrayGrowthFactor_def)
  show "new_size M c \<le> M"
    using assms by (auto simp: new_size_def ArrayInitSize_def ArrayGrowthFactor_def)
qed

lemma intdict_keys_entries: "intdict_keys d = map item_key (intdict_entries d)"
  by (simp add: intdict_keys_def)

lemma intdict_entries_length:
  "intdict_ok M d \<Longrightarrow> length (intdict_entries d) = nitems d"
  by (auto simp: intdict_entries_def intdict_ok_def split: option.splits)

lemma intdict_insert_outcome:
  assumes ok: "intdict_ok M d" and ord: "intdict_ordered d"
    and res: "intdict_insert M S mem d k v = Inr (r, d')"
  obtains (fail) "r = None" "d' = snd (intdict_bisect_left d k)" "nitems d = nalloc d"
      "nalloc d = M \<or> (mem = None \<and> realloc_bytes M S (new_size M (nalloc d)) \<noteq> 0)"
  | (success) "r = Some (fst (intdict_bisect_left d k))"
      "intdict_entries d' =
         take (fst (intdict_bisect_left d k)) (intdict_entries d) @
         [\<lparr>item_key = k, item_value = v\<rparr>] @
         drop (fst (intdict_bisect_left d k)) (intdict_entries d)"
      "nitems d' = nitems d + 1"
      "nalloc d' = (if nitems d = nalloc d then new_size M (nalloc d) else nalloc d)"
      "candidate d' = None" "array d' \<noteq> None"
      "nitems d = nalloc d \<longrightarrow>
         nalloc d \<noteq> M \<and> mem \<noteq> None \<and> realloc_bytes M S (new_size M (nalloc d)) \<noteq> 0 \<and>
         \<not> realloc_bytes M S (new_size M (nalloc d)) div S < new_size M (nalloc d)"
proof (cases "nitems d = nalloc d \<longrightarrow>
                nalloc d \<noteq> M \<and> mem \<noteq> None \<and> realloc_bytes M S (new_size M (nalloc d)) \<noteq> 0 \<and>
                \<not> realloc_bytes M S (new_size M (nalloc d)) div S < new_size M (nalloc d)")
  case True
  from intdict_insert_success[OF ok ord True, of k v] res True show ?thesis
    by (intro success) auto
next
  case False
  then have full: "nitems d = nalloc d" by simp
  show ?thesis
  proof (cases "nalloc d = M \<or> (mem = None \<and> realloc_bytes M S (new_size M (nalloc d)) \<noteq> 0)")
    case True
    from intdict_insert_fail[OF ok full True, of k v] res full True show ?thesis
      by (intro fail) auto
  next
    case nofail: False
    then have nmax: "nalloc d \<noteq> M" by simp
    show ?thesis
    proof (cases "realloc_bytes M S (new_size M (nalloc d)) = 0")
      case True
      from intdict_insert_fault(1)[OF ok full nmax True, of mem k v] res show ?thesis by simp
    next
      case nz: False
      with nofail obtain fresh where mem: "mem = Some fresh" by auto
      with False full nmax nz
      have "realloc_bytes M S (new_size M (nalloc d)) div S < new_size M (nalloc d)" by simp
      from intdict_insert_fault(2)[OF ok full nmax nz mem this, of k v] res show ?thesis by simp
    qed
  qed
qed

lemma intdict_insert_inv:
  assumes M: "4 \<le> M" and ok: "intdict_ok M d" and ord: "intdict_ordered d"
    and res: "intdict_insert M S mem d k v = Inr (r, d')"
  shows "intdict_ok M d' \<and> intdict_ordered d'"
  using ok ord res
proof (cases rule: intdict_insert_outcome)
  case fail
  then show ?thesis
    using intdict_bisect_left_fields(5,6)[OF ok, of k] ord by simp
next
  case success
  let ?r = "fst (intdict_bisect_left d k)"
  note d' = success
  have "nitems d' \<le> nalloc d' \<and> nalloc d' \<le> M"
  proof (cases "nitems d = nalloc d")
    case True
    with d'(7) have "nalloc d \<noteq> M" by simp
    moreover have "nalloc d \<le> M" using ok by (simp add: intdict_ok_def)
    ultimately show ?thesis using new_size_bounds[of "nalloc d" M] M True d'(3,4) by simp
  next
    case False
    then show ?thesis using ok d'(3,4) by (simp add: intdict_ok_def)
  qed
  then have ok': "intdict_ok M d'" using d'(5,6) by (auto simp: intdict_ok_def)
  have "intdict_keys d' = take ?r (intdict_keys d) @ [k] @ drop ?r (intdict_keys d)"
    by (simp add: intdict_keys_entries d'(2) take_map drop_map)
  moreover have "sorted (intdict_keys d)" using ord by (simp add: intdict_ordered_sorted)
  ultimately have "sorted (intdict_keys d')"
    using sorted_insert_at_boundary[of "intdict_keys d" k]
    by (simp only: intdict_bisect_left_index[OF ok ord])
  then show ?thesis using ok' by (simp add: intdict_ordered_sorted)
qed

lemma intdict_remove_at_inv:
  assumes ok: "intdict_ok M d" and ord: "intdict_ordered d" and idx: "index < nitems d"
  shows "intdict_ok M (intdict_remove_at d index) \<and> intdict_ordered (intdict_remove_at d index)"
proof -
  note e = intdict_remove_at_effect[OF ok idx]
  have "intdict_ok M (intdict_remove_at d index)"
    using ok e(2,3,4,6) by (auto simp: intdict_ok_def)
  moreover have "sorted (intdict_keys (intdict_remove_at d index))"
    using sorted_remove_nth[of "intdict_keys d" index] ord
    by (simp add: intdict_keys_entries e(1) take_map drop_map intdict_ordered_sorted)
  ultimately show ?thesis by (simp add: intdict_ordered_sorted)
qed

lemma intdict_find_eq:
  assumes ok: "intdict_ok M d"
  shows "intdict_find d k =
          (if fst (intdict_bisect_left d k) < nitems d \<and>
              intdict_get_key_at d (fst (intdict_bisect_left d k)) = k \<and> array d \<noteq> None
           then Some (fst (intdict_bisect_left d k)) else None,
           snd (intdict_bisect_left d k))"
proof -
  obtain r d0 where bl: "intdict_bisect_left d k = (r, d0)" by (cases "intdict_bisect_left d k")
  have d0: "nitems d0 = nitems d" "array d0 = array d"
    using intdict_bisect_left_fields(1,3)[OF ok, of k] bl by simp_all
  show ?thesis
    by (auto simp: intdict_find_def bl d0 intdict_get_key_at_def split: option.splits)
qed

lemma intdict_bisect_right_eq:
  assumes ok: "intdict_ok M d"
  shows "intdict_bisect_right d k =
          (case array d of None \<Rightarrow> 0
           | Some a \<Rightarrow> int_search_right a (nitems d) k (fst (intdict_bisect_left d k)),
           snd (intdict_bisect_left d k))"
proof -
  obtain r d0 where bl: "intdict_bisect_left d k = (r, d0)" by (cases "intdict_bisect_left d k")
  have d0: "nitems d0 = nitems d" "array d0 = array d"
    using intdict_bisect_left_fields(1,3)[OF ok, of k] bl by simp_all
  show ?thesis
  proof (cases "array d")
    case None
    then show ?thesis
      using intdict_bisect_left_empty[of d k] by (simp add: intdict_bisect_right_def)
  next
    case (Some a)
    then show ?thesis by (simp add: intdict_bisect_right_def bl d0)
  qed
qed

lemma intdict_step_inv:
  assumes M: "4 \<le> M" and ok: "intdict_ok M d" and ord: "intdict_ordered d"
    and step: "intdict_step M S d op = Some (r, d')"
  shows "intdict_ok M d' \<and> intdict_ordered d'"
proof (cases op)
  case (Insert k v mem)
  then have "intdict_insert M S mem d k v = Inr (r, d')"
    using step by (auto split: sum.splits)
  then show ?thesis by (rule intdict_insert_inv[OF M ok ord])
next
  case (RemoveAt index)
  then have "index < nitems d" "d' = intdict_remove_at d index"
    using step by (auto split: if_splits)
  then show ?thesis using intdict_remove_at_inv[OF ok ord] by simp
next
  case (Remove k)
  let ?r = "fst (intdict_bisect_left d k)"
  let ?d0 = "snd (intdict_bisect_left d k)"
  note f = intdict_bisect_left_fields[OF ok, of k]
  show ?thesis
  proof (cases "fst (intdict_find d k)")
    case None
    then have "d' = ?d0" using step Remove intdict_find_eq[OF ok, of k]
      by (auto simp: intdict_remove_def split: if_splits)
    then show ?thesis using f(5,6) ord by simp
  next
    case (Some pos)
    then have "pos < nitems d" "d' = intdict_remove_at ?d0 pos"
      using step Remove intdict_find_eq[OF ok, of k]
      by (auto simp: intdict_remove_def split: if_splits)
    then show ?thesis using intdict_remove_at_inv[of M ?d0 pos] f(1,5,6) ord by simp
  qed
next
  case (Find k)
  then have "d' = snd (intdict_bisect_left d k)"
    using step intdict_find_eq[OF ok, of k] by auto
  then show ?thesis using intdict_bisect_left_fields(5,6)[OF ok, of k] ord by simp
next
  case (BisectLeft k)
  then have "d' = snd (intdict_bisect_left d k)"
    using step by (auto split: prod.splits)
  then show ?thesis using intdict_bisect_left_fields(5,6)[OF ok, of k] ord by simp
next
  case (BisectRight k)
  then have "d' = snd (intdict_bisect_left d k)"
    using step intdict_bisect_right_eq[OF ok, of k] by (auto split: prod.splits)
  then show ?thesis using intdict_bisect_left_fields(5,6)[OF ok, of k] ord by simp
qed

lemma intdict_run_inv:
  assumes M: "4 \<le> M"
  shows "intdict_ok M d \<Longrightarrow> intdict_ordered d \<Longrightarrow> intdict_run M S d ops = Some (rs, d') \<Longrightarrow>
         intdict_ok M d' \<and> intdict_ordered d'"
proof (induction ops arbitrary: d rs)
  case Nil
  then show ?case by simp
next
  case (Cons op ops)
  from Cons.prems(3) obtain r d1 rs' where
    s: "intdict_step M S d op = Some (r, d1)" and run: "intdict_run M S d1 ops = Some (rs', d')"
    by (auto split: option.splits prod.splits)
  from intdict_step_inv[OF M Cons.prems(1,2) s] have "intdict_ok M d1" "intdict_ordered d1"
    by simp_all
  then show ?case using Cons.IH run by blast
qed

lemma intdict_init_inv: "intdict_ok M intdict_init \<and> intdict_ordered intdict_init"
  by (simp add: intdict_ok_def intdict_ordered_def intdict_init_def)

subsection \<open>The right bisection of the integer dictionary\<close>

lemma intdict_bisect_right_bound:
  assumes ok: "intdict_ok M d" and ord: "intdict_ordered d" and arr: "array d = Some a"
  shows "upper_bound (\<lambda>j. item_key (a j)) (nitems d) k (fst (intdict_bisect_right d k))"
    and "fst (intdict_bisect_left d k) \<le> fst (intdict_bisect_right d k)"
proof -
  let ?l = "fst (intdict_bisect_left d k)"
  have r: "fst (intdict_bisect_right d k) = int_search_right a (nitems d) k ?l"
    by (simp add: intdict_bisect_right_eq[OF ok] arr)
  from intdict_bisect_left_bound[OF ok ord arr, of k]
  have "?l \<le> nitems d" "\<forall>j<?l. item_key (a j) \<le> k"
    by (auto simp: lower_bound_def intro: less_imp_le)
  then show "upper_bound (\<lambda>j. item_key (a j)) (nitems d) k (fst (intdict_bisect_right d k))"
    unfolding r by (rule int_search_right_bound)
  show "?l \<le> fst (intdict_bisect_right d k)"
    unfolding r by (rule int_search_right_ge)
qed

lemma intdict_bisect_right_index:
  assumes ok: "intdict_ok M d" and ord: "intdict_ordered d"
  shows "fst (intdict_bisect_right d k) = length (takeWhile (\<lambda>x. x \<le> k) (intdict_keys d))"
proof (cases "array d")
  case None
  then show ?thesis by (simp add: intdict_bisect_right_def intdict_keys_None)
next
  case (Some a)
  from intdict_bisect_right_bound(1)[OF ok ord Some, of k]
  show ?thesis by (simp add: intdict_keys_Some[OF Some] upper_bound_takeWhile)
qed

lemma takeWhile_boundary:
  "length (takeWhile P xs) \<le> length xs \<and>
   (\<forall>i<length (takeWhile P xs). P (xs ! i)) \<and>
   (length (takeWhile P xs) < length xs \<longrightarrow> \<not> P (xs ! length (takeWhile P xs)))"
  by (metis length_takeWhile_le nth_length_takeWhile takeWhile_nth nth_mem set_takeWhileD)


subsection \<open>Integer dictionary: results do not depend on the cache\<close>

lemma int_same_store_keys: "int_same_store d d' \<Longrightarrow> intdict_keys d = intdict_keys d'"
  by (auto simp: int_same_store_def intdict_keys_def intdict_entries_def split: option.splits)

lemma int_same_store_entries: "int_same_store d d' \<Longrightarrow> intdict_entries d = intdict_entries d'"
  by (auto simp: int_same_store_def intdict_entries_def split: option.splits)

lemma int_same_store_ordered: "int_same_store d d' \<Longrightarrow> intdict_ordered d = intdict_ordered d'"
  by (auto simp: int_same_store_def intdict_ordered_def split: option.splits)

lemma int_same_store_bisect_left:
  assumes "intdict_ok M d" "intdict_ok M d'" "intdict_ordered d" "int_same_store d d'"
  shows "fst (intdict_bisect_left d k) = fst (intdict_bisect_left d' k)"
    and "int_same_store (snd (intdict_bisect_left d k)) (snd (intdict_bisect_left d' k))"
proof -
  have ord': "intdict_ordered d'" using assms(3,4) by (simp add: int_same_store_ordered)
  show "fst (intdict_bisect_left d k) = fst (intdict_bisect_left d' k)"
    by (simp add: intdict_bisect_left_index[OF assms(1,3)] intdict_bisect_left_index[OF assms(2) ord']
        int_same_store_keys[OF assms(4)])
  show "int_same_store (snd (intdict_bisect_left d k)) (snd (intdict_bisect_left d' k))"
    using assms(4) intdict_bisect_left_fields(1,2,3)[OF assms(1), of k]
      intdict_bisect_left_fields(1,2,3)[OF assms(2), of k]
    by (simp add: int_same_store_def)
qed

lemma int_same_store_insert_rel:
  assumes "intdict_ok M d" "intdict_ok M d'" "intdict_ordered d" "int_same_store d d'"
  shows "(case (intdict_insert M S mem d k v, intdict_insert M S mem d' k v) of
            (Inl f, Inl f') \<Rightarrow> f = f'
          | (Inr (r, e), Inr (r', e')) \<Rightarrow> r = r' \<and> int_same_store e e'
          | _ \<Rightarrow> False)"
proof -
  obtain i d0 where bl: "intdict_bisect_left d k = (i, d0)" by (cases "intdict_bisect_left d k")
  obtain i' d0' where bl': "intdict_bisect_left d' k = (i', d0')" by (cases "intdict_bisect_left d' k")
  from int_same_store_bisect_left[OF assms(1-4), of k] bl bl'
  have i: "i' = i" and s: "nalloc d0 = nalloc d0'" "nitems d0 = nitems d0'" "array d0 = array d0'"
    by (simp_all add: int_same_store_def)
  show ?thesis
    unfolding intdict_insert_def bl bl' i
    by (simp add: Let_def s int_same_store_def split: option.splits)
qed

lemma int_same_store_insert:
  assumes "intdict_ok M d" "intdict_ok M d'" "intdict_ordered d" "int_same_store d d'"
    and res: "intdict_insert M S mem d k v = Inr (r, e)"
  shows "\<exists>e'. intdict_insert M S mem d' k v = Inr (r, e') \<and> int_same_store e e'"
  using int_same_store_insert_rel[OF assms(1-4), of S mem k v] res
  by (auto split: sum.splits)

lemma int_same_store_remove_at:
  assumes "int_same_store d d'"
  shows "int_same_store (intdict_remove_at d i) (intdict_remove_at d' i)"
  using assms by (auto simp: int_same_store_def intdict_remove_at_def split: option.splits)

lemma int_same_store_find:
  assumes "intdict_ok M d" "intdict_ok M d'" "intdict_ordered d" "int_same_store d d'"
  shows "fst (intdict_find d k) = fst (intdict_find d' k) \<and>
         int_same_store (snd (intdict_find d k)) (snd (intdict_find d' k))"
  using int_same_store_bisect_left[OF assms, of k] assms(4)
  by (auto simp: intdict_find_eq[OF assms(1)] intdict_find_eq[OF assms(2)]
      int_same_store_def intdict_get_key_at_def split: option.splits)

lemma int_same_store_bisect_right:
  assumes "intdict_ok M d" "intdict_ok M d'" "intdict_ordered d" "int_same_store d d'"
  shows "fst (intdict_bisect_right d k) = fst (intdict_bisect_right d' k) \<and>
         int_same_store (snd (intdict_bisect_right d k)) (snd (intdict_bisect_right d' k))"
  using int_same_store_bisect_left[OF assms, of k] assms(4)
  by (auto simp: intdict_bisect_right_eq[OF assms(1)] intdict_bisect_right_eq[OF assms(2)]
      int_same_store_def split: option.splits)

lemma int_same_store_step:
  assumes "intdict_ok M d" "intdict_ok M d'" "intdict_ordered d" "int_same_store d d'"
    and "intdict_step M S d op = Some (r, e)"
  shows "\<exists>e'. intdict_step M S d' op = Some (r, e') \<and> int_same_store e e'"
proof (cases op)
  case (Insert k v mem)
  with assms(5) have "intdict_insert M S mem d k v = Inr (r, e)"
    by (auto split: sum.splits)
  from int_same_store_insert[OF assms(1-4) this] Insert show ?thesis by auto
next
  case (RemoveAt i)
  with assms(4,5) int_same_store_remove_at[OF assms(4), of i] show ?thesis
    by (auto simp: int_same_store_def split: if_splits)
next
  case (Remove k)
  from int_same_store_find[OF assms(1-4), of k]
  obtain p f f' where f: "intdict_find d k = (p, f)" "intdict_find d' k = (p, f')"
    "int_same_store f f'"
    by (cases "intdict_find d k"; cases "intdict_find d' k") auto
  with assms(5) Remove show ?thesis
    by (cases p) (auto simp: intdict_remove_def int_same_store_remove_at)
next
  case (Find k)
  with assms(5) int_same_store_find[OF assms(1-4), of k] show ?thesis
    by (cases "intdict_find d' k") auto
next
  case (BisectLeft k)
  with assms(5) int_same_store_bisect_left[OF assms(1-4), of k] show ?thesis
    by (cases "intdict_bisect_left d k"; cases "intdict_bisect_left d' k") auto
next
  case (BisectRight k)
  with assms(5) int_same_store_bisect_right[OF assms(1-4), of k] show ?thesis
    by (cases "intdict_bisect_right d k"; cases "intdict_bisect_right d' k") auto
qed

lemma intdict_ok_discard: "intdict_ok M d \<Longrightarrow> intdict_ok M (d\<lparr>candidate := None\<rparr>)"
  by (simp add: intdict_ok_def)

lemma int_same_store_discard: "int_same_store d d' \<Longrightarrow> int_same_store d (d'\<lparr>candidate := None\<rparr>)"
  by (simp add: int_same_store_def)

lemma intdict_run_nocache_sim:
  assumes M: "4 \<le> M"
  shows "intdict_ok M d \<Longrightarrow> intdict_ok M d' \<Longrightarrow> intdict_ordered d \<Longrightarrow> int_same_store d d' \<Longrightarrow>
         intdict_run M S d ops = Some (rs, e) \<Longrightarrow>
         \<exists>e'. intdict_run_nocache M S d' ops = Some (rs, e') \<and> int_same_store e e'"
proof (induction ops arbitrary: d d' rs)
  case Nil
  then show ?case by simp
next
  case (Cons op ops)
  from Cons.prems(5) obtain r d1 rs' where
    s: "intdict_step M S d op = Some (r, d1)" and run: "intdict_run M S d1 ops = Some (rs', e)"
    and rs: "rs = r # rs'"
    by (auto split: option.splits prod.splits)
  let ?d' = "d'\<lparr>candidate := None\<rparr>"
  have ok': "intdict_ok M ?d'" using Cons.prems(2) by (rule intdict_ok_discard)
  have same': "int_same_store d ?d'" using Cons.prems(4) by (rule int_same_store_discard)
  from int_same_store_step[OF Cons.prems(1) ok' Cons.prems(3) same' s]
  obtain d1' where s': "intdict_step M S ?d' op = Some (r, d1')" and same1: "int_same_store d1 d1'"
    by blast
  have inv1: "intdict_ok M d1" "intdict_ordered d1"
    using intdict_step_inv[OF M Cons.prems(1,3) s] by simp_all
  have ord': "intdict_ordered ?d'" using Cons.prems(3) same' by (simp add: int_same_store_ordered)
  have inv1': "intdict_ok M d1'"
    using intdict_step_inv[OF M ok' ord' s'] by simp
  from Cons.IH[OF inv1(1) inv1' inv1(2) same1 run]
  obtain e' where "intdict_run_nocache M S d1' ops = Some (rs', e')" "int_same_store e e'" by blast
  then show ?case using s' rs by auto
qed

subsection \<open>\<^verbatim>\<open>stricmp\<close> compares sort keys\<close>

lemma of_char_nonneg: "0 \<le> (of_char c :: int)"
proof -
  have "(of_char c :: int) = of_nat (of_char c)" by (simp only: of_nat_of_char)
  then show ?thesis by simp
qed

lemma toupper_nonneg: "0 \<le> toupper (of_char c)"
  using of_char_nonneg[of c] by (simp add: toupper_def)

lemma toupper_zero [simp]: "toupper 0 = 0"
  by (simp add: toupper_def)

lemma strkey_Nil [simp]: "strkey [] = []"
  by (simp add: strkey_def)

lemma strkey_Cons:
  "strkey (c # cs) = (if toupper (of_char c) \<noteq> 0 then toupper (of_char c) # strkey cs else [])"
  by (simp add: strkey_def)

lemma stricmp_less_iff: "stricmp s t < 0 \<longleftrightarrow> strkey s < strkey t"
proof (induction s t rule: stricmp.induct)
  case 1
  then show ?case by simp
next
  case (2 b bs)
  then show ?case using toupper_nonneg[of b] by (simp add: strkey_Cons)
next
  case (3 a as)
  then show ?case using toupper_nonneg[of a] by (simp add: strkey_Cons)
next
  case (4 a as b bs)
  then show ?case using toupper_nonneg[of a] toupper_nonneg[of b]
    by (auto simp: strkey_Cons)
qed

lemma stricmp_eq_iff: "stricmp s t = 0 \<longleftrightarrow> strkey s = strkey t"
proof (induction s t rule: stricmp.induct)
  case 1
  then show ?case by simp
next
  case (2 b bs)
  then show ?case by (simp add: strkey_Cons)
next
  case (3 a as)
  then show ?case by (simp add: strkey_Cons)
next
  case (4 a as b bs)
  then show ?case by (auto simp: strkey_Cons)
qed

lemma stricmp_le_iff: "stricmp s t \<le> 0 \<longleftrightarrow> strkey s \<le> strkey t"
  using stricmp_less_iff[of s t] stricmp_eq_iff[of s t] by (auto simp: le_less)

lemma stricmp_ge_iff: "stricmp s t \<ge> 0 \<longleftrightarrow> strkey t \<le> strkey s"
  using stricmp_less_iff[of s t] by (auto simp: not_less[symmetric])

subsection \<open>The bisection of the string dictionary\<close>

lemma sought_string_candidate [simp]:
  "sought_string (s\<lparr>s_candidate := c\<rparr>) = sought_string s"
  by (simp add: sought_string_def split: sought_ptr.splits)

lemma str_compare_key_n_item_eq:
  "str_compare_key_n_item a =
     (\<lambda>s i. (str_compare a (sought_string s) i, s\<lparr>s_candidate := Some i\<rparr>))"
  by (intro ext) (simp add: str_compare_key_n_item_def str_compare_def Let_def)

lemma bsearch_str_candidate:
  assumes "l < u"
  shows "\<exists>c. l \<le> c \<and> c < u \<and> c = last (probes (str_compare a (sought_string d)) l u) \<and>
     snd (bsearch (str_compare_key_n_item a) d l u) = d\<lparr>s_candidate := Some c\<rparr>"
  unfolding str_compare_key_n_item_eq
  using bsearch_last_probe[where f = "\<lambda>i s. s\<lparr>s_candidate := Some i\<rparr>"
      and g = "\<lambda>s. str_compare a (sought_string s)" and s = d, OF _ _ assms]
  by simp

lemma strdict_bisect_left_empty:
  "s_array d = None \<or> s_nitems d = 0 \<Longrightarrow> strdict_bisect_left M okb d k = (0, d)"
  by (auto simp: strdict_bisect_left_def split: option.splits)

lemma strdict_bisect_left_cases:
  assumes ok: "strdict_ok M d" and arr: "s_array d = Some a" and pos: "s_nitems d > 0"
  obtains (reuse) c where
      "s_candidate d = Some c" "c < s_nitems d" "stricmp (sought_string d) (ptr_text k) = 0"
      "strdict_bisect_left M okb d k =
         (str_correction a (s_nitems d) k c,
          if sought_is d k then d\<lparr>s_sought_key := SoughtNull, s_candidate := None\<rparr> else d)"
  | (search) c copied b where
      "c < s_nitems d"
      "s_candidate d = None \<or> stricmp (sought_string d) (ptr_text k) \<noteq> 0"
      "stringbuffer_append_all M okb (stringbuffer_truncate (s_buffer d) 0) (ptr_text k) = (copied, b)"
      "c = last (probes (str_compare a
               (if copied then stringbuffer_get_pointer b else ptr_text k)) 0 (s_nitems d))"
      "strdict_bisect_left M okb d k =
         (str_correction a (s_nitems d) k c,
          if copied \<and> \<not> (buffer b = None \<and> ptr_addr empty_literal = ptr_addr k)
          then d\<lparr>s_buffer := b, s_sought_key := buffer_pointer b, s_candidate := Some c\<rparr>
          else d\<lparr>s_buffer := b, s_sought_key := SoughtNull, s_candidate := None\<rparr>)"
proof (cases "s_candidate d \<noteq> None \<and> stricmp (sought_string d) (ptr_text k) = 0")
  case True
  then obtain c where c: "s_candidate d = Some c" by auto
  with ok have cn: "c < s_nitems d" by (simp add: strdict_ok_def)
  have "strdict_bisect_left M okb d k =
         (str_correction a (s_nitems d) k c,
          if sought_is d k then d\<lparr>s_sought_key := SoughtNull, s_candidate := None\<rparr> else d)"
    using True c arr pos by (simp add: strdict_bisect_left_def str_correction_def)
  with c cn True show ?thesis by (intro reuse[of c]) simp_all
next
  case False
  define D1 where "D1 = (if s_candidate d \<noteq> None \<and> stricmp (sought_string d) (ptr_text k) \<noteq> 0
                         then d\<lparr>s_candidate := None\<rparr> else d)"
  have D1: "s_candidate D1 = None" "s_nitems D1 = s_nitems d" "s_buffer D1 = s_buffer d"
    using False by (auto simp: D1_def)
  have D1': "D1 = d\<lparr>s_candidate := None\<rparr>"
    using False by (auto simp: D1_def)
  obtain copied b where app:
    "stringbuffer_append_all M okb (stringbuffer_truncate (s_buffer d) 0) (ptr_text k) = (copied, b)"
    by (cases "stringbuffer_append_all M okb (stringbuffer_truncate (s_buffer d) 0) (ptr_text k)")
  have app1:
    "stringbuffer_append_all M okb (stringbuffer_truncate (s_buffer D1) 0) (ptr_text k) = (copied, b)"
    using app D1(3) by simp
  define S where "S = (if copied then buffer_pointer b else SoughtCaller k)"
  define D2 where "D2 = snd (bsearch (str_compare_key_n_item a)
        (D1\<lparr>s_buffer := b, s_sought_key := S\<rparr>) 0 (s_nitems D1))"
  from bsearch_str_candidate[of 0 "s_nitems D1" a "D1\<lparr>s_buffer := b, s_sought_key := S\<rparr>"] pos D1(2)
  obtain c where c: "c < s_nitems d" "D2 = D1\<lparr>s_buffer := b, s_sought_key := S, s_candidate := Some c\<rparr>"
    "c = last (probes (str_compare a (sought_string (D1\<lparr>s_buffer := b, s_sought_key := S\<rparr>)))
            0 (s_nitems d))"
    unfolding D2_def by auto
  have "sought_string (D1\<lparr>s_buffer := b, s_sought_key := S\<rparr>) =
        (if copied then stringbuffer_get_pointer b else ptr_text k)"
    by (simp add: sought_string_def S_def buffer_pointer_def stringbuffer_get_pointer_def
        empty_literal_def split: option.splits)
  with c(3) have bs: "c = last (probes (str_compare a
               (if copied then stringbuffer_get_pointer b else ptr_text k)) 0 (s_nitems d))"
    by simp
  have D2: "D2 = d\<lparr>s_buffer := b, s_sought_key := S, s_candidate := Some c\<rparr>"
    unfolding c(2) by (simp add: D1_def)
  have unf: "strdict_bisect_left M okb d k =
      ((case s_candidate D2 of
         Some c \<Rightarrow> if stricmp (ptr_text (sitem_key (a c))) (ptr_text k) < 0
                   then str_search_forward a (s_nitems D2) k c
                   else str_search_backward a k c
       | None \<Rightarrow> 0),
       if sought_is D2 k then D2\<lparr>s_sought_key := SoughtNull, s_candidate := None\<rparr> else D2)"
    unfolding strdict_bisect_left_def Let_def D2_def S_def D1_def[symmetric] app1 prod.case
    using arr pos D1(1) by simp
  have si: "sought_is D2 k \<longleftrightarrow> \<not> (copied \<and> \<not> (buffer b = None \<and> ptr_addr empty_literal = ptr_addr k))"
    by (simp add: D2 S_def sought_is_def buffer_pointer_def split: option.splits)
  have "strdict_bisect_left M okb d k =
         (str_correction a (s_nitems d) k c,
          if copied \<and> \<not> (buffer b = None \<and> ptr_addr empty_literal = ptr_addr k)
          then d\<lparr>s_buffer := b, s_sought_key := buffer_pointer b, s_candidate := Some c\<rparr>
          else d\<lparr>s_buffer := b, s_sought_key := SoughtNull, s_candidate := None\<rparr>)"
    unfolding unf si by (auto simp: D2 S_def str_correction_def)
  with c(1) False app bs show ?thesis unfolding S_def by (intro search[of c copied b]) auto
qed

lemma str_search_forward_bound:
  assumes "c < n" "\<forall>j\<le>c. skey a j < strkey (ptr_text k)"
  shows "lower_bound (skey a) n (strkey (ptr_text k)) (str_search_forward a n k c)"
  using assms
proof (induction a n k c rule: str_search_forward.induct)
  case (1 a n k index)
  show ?case
  proof (cases "index + 1 < n \<and> stricmp (ptr_text (sitem_key (a (index + 1)))) (ptr_text k) < 0")
    case True
    then have "\<forall>j\<le>index + 1. skey a j < strkey (ptr_text k)"
      using "1.prems"(2) by (auto simp: le_Suc_eq stricmp_less_iff)
    with True "1.IH" show ?thesis by (subst str_search_forward.simps) simp
  next
    case False
    have "\<forall>j<index + 1. skey a j < strkey (ptr_text k)" using "1.prems"(2) by auto
    with False "1.prems"(1) show ?thesis
      by (subst str_search_forward.simps) (auto simp: lower_bound_def stricmp_less_iff)
  qed
qed

lemma str_search_backward_bound:
  assumes "c < n" "strkey (ptr_text k) \<le> skey a c"
    and mono: "\<And>i j. i \<le> j \<Longrightarrow> j < n \<Longrightarrow> skey a i \<le> skey a j"
  shows "lower_bound (skey a) n (strkey (ptr_text k)) (str_search_backward a k c)"
  using assms(1,2)
proof (induction c)
  case 0
  then show ?case by (simp add: lower_bound_def)
next
  case (Suc c)
  show ?case
  proof (cases "strkey (ptr_text k) \<le> skey a c")
    case True
    with Suc show ?thesis by (simp add: stricmp_ge_iff)
  next
    case False
    have "\<forall>j<Suc c. skey a j < strkey (ptr_text k)"
    proof (intro allI impI)
      fix j assume "j < Suc c"
      then have "skey a j \<le> skey a c" using Suc.prems(1) by (intro mono) simp_all
      with False show "skey a j < strkey (ptr_text k)" by simp
    qed
    with False Suc.prems show ?thesis by (simp add: lower_bound_def stricmp_ge_iff)
  qed
qed

lemma str_search_right_bound:
  assumes "index \<le> n" "\<forall>j<index. skey a j \<le> strkey (ptr_text k)"
  shows "upper_bound (skey a) n (strkey (ptr_text k)) (str_search_right a n k index)"
  using assms
proof (induction a n k index rule: str_search_right.induct)
  case (1 a n k index)
  show ?case
  proof (cases "index < n \<and> stricmp (ptr_text (sitem_key (a index))) (ptr_text k) \<le> 0")
    case True
    then have "\<forall>j<index + 1. skey a j \<le> strkey (ptr_text k)"
      using "1.prems"(2) by (auto simp: less_Suc_eq stricmp_le_iff)
    with True "1.IH" show ?thesis by (subst str_search_right.simps) simp
  next
    case False
    with "1.prems" show ?thesis
      by (subst str_search_right.simps) (auto simp: upper_bound_def stricmp_le_iff)
  qed
qed

lemma str_search_right_ge: "index \<le> str_search_right a n k index"
proof (induction a n k index rule: str_search_right.induct)
  case (1 a n k index)
  show ?case
  proof (cases "index < n \<and> stricmp (ptr_text (sitem_key (a index))) (ptr_text k) \<le> 0")
    case True
    with "1.IH" show ?thesis by (subst str_search_right.simps) simp
  next
    case False
    then show ?thesis by (subst str_search_right.simps) auto
  qed
qed

lemma strdict_keys_Some:
  "s_array d = Some a \<Longrightarrow> strdict_keys d = map (skey a) [0..<s_nitems d]"
  by (simp add: strdict_keys_def strdict_entries_def comp_def)

lemma strdict_keys_None: "s_array d = None \<Longrightarrow> strdict_keys d = []"
  by (simp add: strdict_keys_def strdict_entries_def)

lemma strdict_ordered_sorted: "strdict_ordered d \<longleftrightarrow> sorted (strdict_keys d)"
proof (cases "s_array d")
  case None
  then show ?thesis by (simp add: strdict_ordered_def strdict_keys_None)
next
  case (Some a)
  have "sorted (map (skey a) [0..<s_nitems d]) \<longleftrightarrow>
        (\<forall>i. Suc i < s_nitems d \<longrightarrow> skey a i \<le> skey a (Suc i))"
    by (simp add: sorted_iff_nth_Suc)
  also have "\<dots> \<longleftrightarrow> list_all (\<lambda>i. stricmp (ptr_text (sitem_key (a i)))
       (ptr_text (sitem_key (a (i + 1)))) \<le> 0) [0..<s_nitems d - 1]"
    by (auto simp: list_all_iff stricmp_le_iff)
  finally show ?thesis
    using Some by (simp add: strdict_ordered_def strdict_keys_Some)
qed

lemma strdict_ordered_mono:
  assumes "strdict_ordered d" "s_array d = Some a" "i \<le> j" "j < s_nitems d"
  shows "skey a i \<le> skey a j"
proof -
  have "sorted (map (skey a) [0..<s_nitems d])"
    using assms(1,2) by (simp add: strdict_ordered_sorted strdict_keys_Some)
  then show ?thesis using assms(3,4) by (auto simp: sorted_iff_nth_mono dest!: spec[of _ i] spec[of _ j])
qed

lemma str_correction_bound:
  assumes ord: "strdict_ordered d" and arr: "s_array d = Some a" and c: "c < s_nitems d"
  shows "lower_bound (skey a) (s_nitems d) (strkey (ptr_text k))
           (str_correction a (s_nitems d) k c)"
proof (cases "stricmp (ptr_text (sitem_key (a c))) (ptr_text k) < 0")
  case True
  have "\<forall>j\<le>c. skey a j < strkey (ptr_text k)"
  proof (intro allI impI)
    fix j assume "j \<le> c"
    then have "skey a j \<le> skey a c"
      using c by (intro strdict_ordered_mono[OF ord arr])
    with True show "skey a j < strkey (ptr_text k)" by (simp add: stricmp_less_iff)
  qed
  with True c show ?thesis by (simp add: str_search_forward_bound str_correction_def)
next
  case False
  then have "strkey (ptr_text k) \<le> skey a c" by (simp add: stricmp_less_iff)
  with c have "lower_bound (skey a) (s_nitems d) (strkey (ptr_text k)) (str_search_backward a k c)"
    by (intro str_search_backward_bound strdict_ordered_mono[OF ord arr])
  with False show ?thesis by (simp add: str_correction_def)
qed

lemma strdict_bisect_left_bound:
  assumes ok: "strdict_ok M d" and ord: "strdict_ordered d" and arr: "s_array d = Some a"
  shows "lower_bound (skey a) (s_nitems d) (strkey (ptr_text k))
           (fst (strdict_bisect_left M okb d k))"
proof (cases "s_nitems d > 0")
  case True
  from ok arr True show ?thesis
  proof (cases rule: strdict_bisect_left_cases[where k = k and okb = okb])
    case (reuse c)
    then show ?thesis using str_correction_bound[OF ord arr, of c k] by simp
  next
    case (search c copied b)
    then show ?thesis using str_correction_bound[OF ord arr, of c k] by simp
  qed
next
  case False
  then show ?thesis by (simp add: strdict_bisect_left_empty lower_bound_def)
qed

lemma strdict_bisect_left_index:
  assumes ok: "strdict_ok M d" and ord: "strdict_ordered d"
  shows "fst (strdict_bisect_left M okb d k) =
         length (takeWhile (\<lambda>x. x < strkey (ptr_text k)) (strdict_keys d))"
proof (cases "s_array d")
  case None
  then show ?thesis by (simp add: strdict_bisect_left_empty strdict_keys_None)
next
  case (Some a)
  from strdict_bisect_left_bound[OF ok ord Some, of k okb]
  show ?thesis by (simp add: strdict_keys_Some[OF Some] lower_bound_takeWhile)
qed

text \<open>state\<close>

lemma strdict_bisect_left_state:
  assumes ok: "strdict_ok M d"
  shows "\<exists>b sk c. snd (strdict_bisect_left M okb d k) =
            d\<lparr>s_buffer := b, s_sought_key := sk, s_candidate := c\<rparr> \<and>
           (case c of None \<Rightarrow> True | Some i \<Rightarrow> i < s_nitems d) \<and>
           (sk = s_sought_key d \<or> sk = SoughtNull \<or> sk = SoughtBuffer \<or> sk = SoughtLiteral)"
proof (cases "s_array d = None \<or> s_nitems d = 0")
  case True
  have "d = d\<lparr>s_buffer := s_buffer d, s_sought_key := s_sought_key d, s_candidate := s_candidate d\<rparr>"
    by simp
  moreover have "case s_candidate d of None \<Rightarrow> True | Some i \<Rightarrow> i < s_nitems d"
    using ok by (simp add: strdict_ok_def)
  ultimately show ?thesis using strdict_bisect_left_empty[OF True, of M okb k]
    by (metis snd_conv)
next
  case False
  then obtain a where arr: "s_array d = Some a" and pos: "s_nitems d > 0" by auto
  from ok arr pos show ?thesis
  proof (cases rule: strdict_bisect_left_cases[where k = k and okb = okb])
    case (reuse c)
    show ?thesis
    proof (cases "sought_is d k")
      case True
      with reuse show ?thesis
        by (intro exI[of _ "s_buffer d"] exI[of _ SoughtNull] exI[of _ None]) simp
    next
      case False
      with reuse show ?thesis
        by (intro exI[of _ "s_buffer d"] exI[of _ "s_sought_key d"] exI[of _ "Some c"]) simp
    qed
  next
    case (search c copied b)
    show ?thesis
    proof (cases "copied \<and> \<not> (buffer b = None \<and> ptr_addr empty_literal = ptr_addr k)")
      case True
      with search(1,5) show ?thesis
        by (intro exI[of _ b] exI[of _ "buffer_pointer b"] exI[of _ "Some c"])
           (simp add: buffer_pointer_def split: option.splits)
    next
      case False
      then have "snd (strdict_bisect_left M okb d k) =
          d\<lparr>s_buffer := b, s_sought_key := SoughtNull, s_candidate := None\<rparr>"
        unfolding search(5) by (simp only: snd_conv if_False)
      then show ?thesis
        by (intro exI[of _ b] exI[of _ SoughtNull] exI[of _ None]) simp
    qed
  qed
qed

subsection \<open>String dictionary: effects, invariant and independence of the cache\<close>

lemma strdict_bisect_left_fields:
  assumes ok: "strdict_ok M d"
  shows "s_nitems (snd (strdict_bisect_left M okb d k)) = s_nitems d"
    and "s_nalloc (snd (strdict_bisect_left M okb d k)) = s_nalloc d"
    and "s_array (snd (strdict_bisect_left M okb d k)) = s_array d"
    and "strdict_entries (snd (strdict_bisect_left M okb d k)) = strdict_entries d"
    and "strdict_ok M (snd (strdict_bisect_left M okb d k))"
    and "strdict_ordered (snd (strdict_bisect_left M okb d k)) = strdict_ordered d"
proof -
  from strdict_bisect_left_state[OF ok, of okb k]
  obtain b sk c where st: "snd (strdict_bisect_left M okb d k) =
      d\<lparr>s_buffer := b, s_sought_key := sk, s_candidate := c\<rparr>"
    and c: "case c of None \<Rightarrow> True | Some i \<Rightarrow> i < s_nitems d" by blast
  show "s_nitems (snd (strdict_bisect_left M okb d k)) = s_nitems d" by (simp add: st)
  show "s_nalloc (snd (strdict_bisect_left M okb d k)) = s_nalloc d" by (simp add: st)
  show "s_array (snd (strdict_bisect_left M okb d k)) = s_array d" by (simp add: st)
  show "strdict_entries (snd (strdict_bisect_left M okb d k)) = strdict_entries d"
    by (simp add: st strdict_entries_def split: option.splits)
  show "strdict_ok M (snd (strdict_bisect_left M okb d k))"
    using ok c by (simp add: st strdict_ok_def split: option.splits)
  show "strdict_ordered (snd (strdict_bisect_left M okb d k)) = strdict_ordered d"
    by (simp add: st strdict_ordered_def split: option.splits)
qed

lemma strdict_bisect_left_le:
  assumes ok: "strdict_ok M d" and ord: "strdict_ordered d"
  shows "fst (strdict_bisect_left M okb d k) \<le> s_nitems d"
proof -
  have "length (takeWhile (\<lambda>x. x < strkey (ptr_text k)) (strdict_keys d)) \<le> length (strdict_keys d)"
    by (rule length_takeWhile_le)
  also have "\<dots> \<le> s_nitems d"
    by (simp add: strdict_keys_def strdict_entries_def split: option.splits)
  finally show ?thesis by (simp add: strdict_bisect_left_index[OF ok ord])
qed

lemma strdict_insert_fault:
  assumes ok: "strdict_ok M d" and full: "s_nitems d = s_nalloc d" and nmax: "s_nalloc d \<noteq> M"
  shows "realloc_bytes M S (new_size M (s_nalloc d)) = 0 \<Longrightarrow>
           strdict_insert M S okb mem d k v = Inl ReallocZero"
    and "realloc_bytes M S (new_size M (s_nalloc d)) \<noteq> 0 \<Longrightarrow> mem = Some fresh \<Longrightarrow>
         realloc_bytes M S (new_size M (s_nalloc d)) div S < new_size M (s_nalloc d) \<Longrightarrow>
           strdict_insert M S okb mem d k v = Inl Overrun"
proof -
  obtain r d0 where bl: "strdict_bisect_left M okb d k = (r, d0)"
    by (cases "strdict_bisect_left M okb d k")
  have d0: "s_nitems d0 = s_nitems d" "s_nalloc d0 = s_nalloc d"
    using strdict_bisect_left_fields(1,2)[OF ok, of okb k] bl by simp_all
  show "realloc_bytes M S (new_size M (s_nalloc d)) = 0 \<Longrightarrow>
           strdict_insert M S okb mem d k v = Inl ReallocZero"
    using full nmax by (simp add: strdict_insert_def bl Let_def d0)
  show "realloc_bytes M S (new_size M (s_nalloc d)) \<noteq> 0 \<Longrightarrow> mem = Some fresh \<Longrightarrow>
         realloc_bytes M S (new_size M (s_nalloc d)) div S < new_size M (s_nalloc d) \<Longrightarrow>
           strdict_insert M S okb mem d k v = Inl Overrun"
    using full nmax by (simp add: strdict_insert_def bl Let_def d0)
qed

lemma strdict_insert_fail:
  assumes ok: "strdict_ok M d" and full: "s_nitems d = s_nalloc d"
    and no: "s_nalloc d = M \<or> (mem = None \<and> realloc_bytes M S (new_size M (s_nalloc d)) \<noteq> 0)"
  shows "strdict_insert M S okb mem d k v = Inr (None, snd (strdict_bisect_left M okb d k))"
proof -
  obtain r d0 where bl: "strdict_bisect_left M okb d k = (r, d0)" by (cases "strdict_bisect_left M okb d k")
  have "s_nitems d0 = s_nitems d" "s_nalloc d0 = s_nalloc d"
    using strdict_bisect_left_fields(1,2)[OF ok, of okb k] bl by simp_all
  with full no show ?thesis
    by (auto simp: strdict_insert_def bl Let_def)
qed

lemma str_realloc_block_entries:
  assumes "s_array d = None \<longrightarrow> s_nalloc d = 0" "s_nitems d \<le> s_nalloc d"
  shows "map (realloc_block (s_array d) (s_nalloc d) fresh) [0..<s_nitems d] = strdict_entries d"
  using assms
  by (cases "s_array d") (auto simp: realloc_block_def strdict_entries_def)

lemma strdict_insert_success:
  assumes ok: "strdict_ok M d" and ord: "strdict_ordered d"
    and can: "s_nitems d = s_nalloc d \<longrightarrow>
                s_nalloc d \<noteq> M \<and> mem \<noteq> None \<and> realloc_bytes M S (new_size M (s_nalloc d)) \<noteq> 0 \<and>
                \<not> realloc_bytes M S (new_size M (s_nalloc d)) div S < new_size M (s_nalloc d)"
  shows "\<exists>d'. strdict_insert M S okb mem d k v = Inr (Some (fst (strdict_bisect_left M okb d k)), d') \<and>
           strdict_entries d' =
             take (fst (strdict_bisect_left M okb d k)) (strdict_entries d) @
             [\<lparr>sitem_key = k, sitem_value = v\<rparr>] @
             drop (fst (strdict_bisect_left M okb d k)) (strdict_entries d) \<and>
           s_nitems d' = s_nitems d + 1 \<and>
           s_nalloc d' = (if s_nitems d = s_nalloc d then new_size M (s_nalloc d) else s_nalloc d) \<and>
           s_candidate d' = None \<and> s_array d' \<noteq> None"
proof -
  obtain r d0 where bl: "strdict_bisect_left M okb d k = (r, d0)" by (cases "strdict_bisect_left M okb d k")
  have d0: "s_nitems d0 = s_nitems d" "s_nalloc d0 = s_nalloc d" "s_array d0 = s_array d"
    using strdict_bisect_left_fields(1,2,3)[OF ok, of okb k] bl by simp_all
  have r: "r \<le> s_nitems d" using strdict_bisect_left_le[OF ok ord, of okb k] bl by simp
  let ?x = "\<lparr>sitem_key = k, sitem_value = v\<rparr>"
  show ?thesis
  proof (cases "s_nitems d = s_nalloc d")
    case True
    with can obtain fresh where mem: "mem = Some fresh" and nmax: "s_nalloc d \<noteq> M"
      and bytes: "realloc_bytes M S (new_size M (s_nalloc d)) \<noteq> 0"
        "\<not> realloc_bytes M S (new_size M (s_nalloc d)) div S < new_size M (s_nalloc d)" by auto
    let ?a = "realloc_block (s_array d) (s_nalloc d) fresh"
    let ?d' = "d0\<lparr>s_nalloc := new_size M (s_nalloc d), s_array := Some ?a,
                  s_candidate := None,
                  s_array := Some ((shift_up ?a (s_nitems d) r)(r := ?x)),
                  s_nitems := s_nitems d + 1\<rparr>"
    have ins: "strdict_insert M S okb mem d k v = Inr (Some r, ?d')"
      using True mem nmax bytes by (simp add: strdict_insert_def bl Let_def d0)
    have "strdict_entries ?d' = map ((shift_up ?a (s_nitems d) r)(r := ?x)) [0..<s_nitems d + 1]"
      by (simp add: strdict_entries_def)
    also have "\<dots> = take r (map ?a [0..<s_nitems d]) @ [?x] @ drop r (map ?a [0..<s_nitems d])"
      by (rule map_shift_up[OF r])
    also have "map ?a [0..<s_nitems d] = strdict_entries d"
      using ok by (intro str_realloc_block_entries) (simp_all add: strdict_ok_def)
    finally have "strdict_entries ?d' = take r (strdict_entries d) @ [?x] @ drop r (strdict_entries d)" .
    then show ?thesis using True by (intro exI[of _ ?d']) (simp add: ins bl)
  next
    case False
    with ok have "s_nitems d < s_nalloc d" by (simp add: strdict_ok_def)
    with ok obtain a where arr: "s_array d = Some a" by (cases "s_array d") (auto simp: strdict_ok_def)
    let ?d' = "d0\<lparr>s_candidate := None,
                  s_array := Some ((shift_up a (s_nitems d) r)(r := ?x)),
                  s_nitems := s_nitems d + 1\<rparr>"
    have ins: "strdict_insert M S okb mem d k v = Inr (Some r, ?d')"
      using False arr by (simp add: strdict_insert_def bl Let_def d0)
    have "strdict_entries ?d' = map ((shift_up a (s_nitems d) r)(r := ?x)) [0..<s_nitems d + 1]"
      by (simp add: strdict_entries_def)
    also have "\<dots> = take r (map a [0..<s_nitems d]) @ [?x] @ drop r (map a [0..<s_nitems d])"
      by (rule map_shift_up[OF r])
    also have "map a [0..<s_nitems d] = strdict_entries d"
      using arr by (simp add: strdict_entries_def)
    finally have "strdict_entries ?d' = take r (strdict_entries d) @ [?x] @ drop r (strdict_entries d)" .
    then show ?thesis using False by (intro exI[of _ ?d']) (simp add: ins bl d0)
  qed
qed

lemma strdict_remove_at_effect:
  assumes ok: "strdict_ok M d" and idx: "index < s_nitems d"
  shows "strdict_entries (strdict_remove_at d index) =
           take index (strdict_entries d) @ drop (index + 1) (strdict_entries d)"
    and "s_nitems (strdict_remove_at d index) = s_nitems d - 1"
    and "s_nalloc (strdict_remove_at d index) = s_nalloc d"
    and "s_candidate (strdict_remove_at d index) = None"
    and "s_sought_key (strdict_remove_at d index) = s_sought_key d"
    and "s_array (strdict_remove_at d index) \<noteq> None"
proof -
  from ok idx obtain a where arr: "s_array d = Some a"
    by (cases "s_array d") (auto simp: strdict_ok_def)
  show "strdict_entries (strdict_remove_at d index) =
           take index (strdict_entries d) @ drop (index + 1) (strdict_entries d)"
    using map_shift_down[OF idx, of a] arr
    by (simp add: strdict_remove_at_def strdict_entries_def)
  show "s_nitems (strdict_remove_at d index) = s_nitems d - 1"
    "s_nalloc (strdict_remove_at d index) = s_nalloc d"
    "s_candidate (strdict_remove_at d index) = None"
    "s_sought_key (strdict_remove_at d index) = s_sought_key d"
    "s_array (strdict_remove_at d index) \<noteq> None"
    using arr by (simp_all add: strdict_remove_at_def)
qed



lemma strdict_keys_entries:
  "strdict_keys d = map (\<lambda>e. strkey (ptr_text (sitem_key e))) (strdict_entries d)"
  by (simp add: strdict_keys_def)

lemma strdict_entries_length:
  "strdict_ok M d \<Longrightarrow> length (strdict_entries d) = s_nitems d"
  by (auto simp: strdict_entries_def strdict_ok_def split: option.splits)

lemma strdict_insert_outcome:
  assumes ok: "strdict_ok M d" and ord: "strdict_ordered d"
    and res: "strdict_insert M S okb mem d k v = Inr (r, d')"
  obtains (fail) "r = None" "d' = snd (strdict_bisect_left M okb d k)" "s_nitems d = s_nalloc d"
      "s_nalloc d = M \<or> (mem = None \<and> realloc_bytes M S (new_size M (s_nalloc d)) \<noteq> 0)"
  | (success) "r = Some (fst (strdict_bisect_left M okb d k))"
      "strdict_entries d' =
         take (fst (strdict_bisect_left M okb d k)) (strdict_entries d) @
         [\<lparr>sitem_key = k, sitem_value = v\<rparr>] @
         drop (fst (strdict_bisect_left M okb d k)) (strdict_entries d)"
      "s_nitems d' = s_nitems d + 1"
      "s_nalloc d' = (if s_nitems d = s_nalloc d then new_size M (s_nalloc d) else s_nalloc d)"
      "s_candidate d' = None" "s_array d' \<noteq> None"
      "s_nitems d = s_nalloc d \<longrightarrow>
         s_nalloc d \<noteq> M \<and> mem \<noteq> None \<and> realloc_bytes M S (new_size M (s_nalloc d)) \<noteq> 0 \<and>
         \<not> realloc_bytes M S (new_size M (s_nalloc d)) div S < new_size M (s_nalloc d)"
proof (cases "s_nitems d = s_nalloc d \<longrightarrow>
                s_nalloc d \<noteq> M \<and> mem \<noteq> None \<and> realloc_bytes M S (new_size M (s_nalloc d)) \<noteq> 0 \<and>
                \<not> realloc_bytes M S (new_size M (s_nalloc d)) div S < new_size M (s_nalloc d)")
  case True
  from strdict_insert_success[OF ok ord True, of okb k v] res True show ?thesis
    by (intro success) auto
next
  case False
  then have full: "s_nitems d = s_nalloc d" by simp
  show ?thesis
  proof (cases "s_nalloc d = M \<or> (mem = None \<and> realloc_bytes M S (new_size M (s_nalloc d)) \<noteq> 0)")
    case True
    from strdict_insert_fail[OF ok full True, of okb k v] res full True show ?thesis
      by (intro fail) auto
  next
    case nofail: False
    then have nmax: "s_nalloc d \<noteq> M" by simp
    show ?thesis
    proof (cases "realloc_bytes M S (new_size M (s_nalloc d)) = 0")
      case True
      from strdict_insert_fault(1)[OF ok full nmax True, of okb mem k v] res show ?thesis by simp
    next
      case nz: False
      with nofail obtain fresh where mem: "mem = Some fresh" by auto
      with False full nmax nz
      have "realloc_bytes M S (new_size M (s_nalloc d)) div S < new_size M (s_nalloc d)" by simp
      from strdict_insert_fault(2)[OF ok full nmax nz mem this, of okb k v] res show ?thesis by simp
    qed
  qed
qed

lemma strdict_insert_inv:
  assumes M: "4 \<le> M" and ok: "strdict_ok M d" and ord: "strdict_ordered d"
    and res: "strdict_insert M S okb mem d k v = Inr (r, d')"
  shows "strdict_ok M d' \<and> strdict_ordered d'"
  using ok ord res
proof (cases rule: strdict_insert_outcome)
  case fail
  then show ?thesis
    using strdict_bisect_left_fields(5,6)[OF ok, of okb k] ord by simp
next
  case success
  let ?r = "fst (strdict_bisect_left M okb d k)"
  note d' = success
  have "s_nitems d' \<le> s_nalloc d' \<and> s_nalloc d' \<le> M"
  proof (cases "s_nitems d = s_nalloc d")
    case True
    with d'(7) have "s_nalloc d \<noteq> M" by simp
    moreover have "s_nalloc d \<le> M" using ok by (simp add: strdict_ok_def)
    ultimately show ?thesis using new_size_bounds[of "s_nalloc d" M] M True d'(3,4) by simp
  next
    case False
    then show ?thesis using ok d'(3,4) by (simp add: strdict_ok_def)
  qed
  then have ok': "strdict_ok M d'" using d'(5,6) by (auto simp: strdict_ok_def)
  have "strdict_keys d' = take ?r (strdict_keys d) @ [strkey (ptr_text k)] @ drop ?r (strdict_keys d)"
    by (simp add: strdict_keys_entries d'(2) take_map drop_map)
  moreover have "sorted (strdict_keys d)" using ord by (simp add: strdict_ordered_sorted)
  ultimately have "sorted (strdict_keys d')"
    using sorted_insert_at_boundary[of "strdict_keys d" "strkey (ptr_text k)"]
    by (simp only: strdict_bisect_left_index[OF ok ord])
  then show ?thesis using ok' by (simp add: strdict_ordered_sorted)
qed

lemma strdict_remove_at_inv:
  assumes ok: "strdict_ok M d" and ord: "strdict_ordered d" and idx: "index < s_nitems d"
  shows "strdict_ok M (strdict_remove_at d index) \<and> strdict_ordered (strdict_remove_at d index)"
proof -
  note e = strdict_remove_at_effect[OF ok idx]
  have "strdict_ok M (strdict_remove_at d index)"
    using ok e(2,3,4,6) by (auto simp: strdict_ok_def)
  moreover have "sorted (strdict_keys (strdict_remove_at d index))"
    using sorted_remove_nth[of "strdict_keys d" index] ord
    by (simp add: strdict_keys_entries e(1) take_map drop_map strdict_ordered_sorted)
  ultimately show ?thesis by (simp add: strdict_ordered_sorted)
qed

lemma strdict_find_eq:
  assumes ok: "strdict_ok M d"
  shows "strdict_find M okb d k =
          (case s_array d of
             None \<Rightarrow> None
           | Some a \<Rightarrow>
               if fst (strdict_bisect_left M okb d k) < s_nitems d \<and>
                  stricmp (ptr_text (sitem_key (a (fst (strdict_bisect_left M okb d k))))) (ptr_text k) = 0
               then Some (fst (strdict_bisect_left M okb d k)) else None,
           snd (strdict_bisect_left M okb d k))"
proof -
  obtain r d0 where bl: "strdict_bisect_left M okb d k = (r, d0)" by (cases "strdict_bisect_left M okb d k")
  have d0: "s_nitems d0 = s_nitems d" "s_array d0 = s_array d"
    using strdict_bisect_left_fields(1,3)[OF ok, of okb k] bl by simp_all
  show ?thesis
    by (auto simp: strdict_find_def bl d0 split: option.splits)
qed

lemma strdict_bisect_right_eq:
  assumes ok: "strdict_ok M d"
  shows "strdict_bisect_right M okb d k =
          (case s_array d of None \<Rightarrow> 0
           | Some a \<Rightarrow> str_search_right a (s_nitems d) k (fst (strdict_bisect_left M okb d k)),
           snd (strdict_bisect_left M okb d k))"
proof -
  obtain r d0 where bl: "strdict_bisect_left M okb d k = (r, d0)" by (cases "strdict_bisect_left M okb d k")
  have d0: "s_nitems d0 = s_nitems d" "s_array d0 = s_array d"
    using strdict_bisect_left_fields(1,3)[OF ok, of okb k] bl by simp_all
  show ?thesis
  proof (cases "s_array d")
    case None
    then show ?thesis
      using strdict_bisect_left_empty[of d M okb k] by (simp add: strdict_bisect_right_def)
  next
    case (Some a)
    then show ?thesis by (simp add: strdict_bisect_right_def bl d0)
  qed
qed

lemma strdict_step_inv:
  assumes M: "4 \<le> M" and ok: "strdict_ok M d" and ord: "strdict_ordered d"
    and step: "strdict_step M S d op = Some (r, d')"
  shows "strdict_ok M d' \<and> strdict_ordered d'"
proof (cases op)
  case (SInsert k v okb mem)
  then have "strdict_insert M S okb mem d k v = Inr (r, d')"
    using step by (auto split: sum.splits)
  then show ?thesis by (rule strdict_insert_inv[OF M ok ord])
next
  case (SRemoveAt index)
  then have "index < s_nitems d" "d' = strdict_remove_at d index"
    using step by (auto split: if_splits)
  then show ?thesis using strdict_remove_at_inv[OF ok ord] by simp
next
  case (SRemove k okb)
  let ?r = "fst (strdict_bisect_left M okb d k)"
  let ?d0 = "snd (strdict_bisect_left M okb d k)"
  note f = strdict_bisect_left_fields[OF ok, of okb k]
  show ?thesis
  proof (cases "fst (strdict_find M okb d k)")
    case None
    then have "d' = ?d0" using step SRemove strdict_find_eq[OF ok, of okb k]
      by (auto simp: strdict_remove_def split: if_splits option.splits)
    then show ?thesis using f(5,6) ord by simp
  next
    case (Some pos)
    then have "pos < s_nitems d" "d' = strdict_remove_at ?d0 pos"
      using step SRemove strdict_find_eq[OF ok, of okb k]
      by (auto simp: strdict_remove_def split: if_splits option.splits)
    then show ?thesis using strdict_remove_at_inv[of M ?d0 pos] f(1,5,6) ord by simp
  qed
next
  case (SFind k okb)
  then have "d' = snd (strdict_bisect_left M okb d k)"
    using step strdict_find_eq[OF ok, of okb k] by auto
  then show ?thesis using strdict_bisect_left_fields(5,6)[OF ok, of okb k] ord by simp
next
  case (SBisectLeft k okb)
  then have "d' = snd (strdict_bisect_left M okb d k)"
    using step by (auto split: prod.splits)
  then show ?thesis using strdict_bisect_left_fields(5,6)[OF ok, of okb k] ord by simp
next
  case (SBisectRight k okb)
  then have "d' = snd (strdict_bisect_left M okb d k)"
    using step strdict_bisect_right_eq[OF ok, of okb k] by (auto split: prod.splits)
  then show ?thesis using strdict_bisect_left_fields(5,6)[OF ok, of okb k] ord by simp
qed

lemma strdict_run_inv:
  assumes M: "4 \<le> M"
  shows "strdict_ok M d \<Longrightarrow> strdict_ordered d \<Longrightarrow> strdict_run M S d ops = Some (rs, d') \<Longrightarrow>
         strdict_ok M d' \<and> strdict_ordered d'"
proof (induction ops arbitrary: d rs)
  case Nil
  then show ?case by simp
next
  case (Cons op ops)
  from Cons.prems(3) obtain r d1 rs' where
    s: "strdict_step M S d op = Some (r, d1)" and run: "strdict_run M S d1 ops = Some (rs', d')"
    by (auto split: option.splits prod.splits)
  from strdict_step_inv[OF M Cons.prems(1,2) s] have "strdict_ok M d1" "strdict_ordered d1"
    by simp_all
  then show ?case using Cons.IH run by blast
qed

lemma strdict_init_inv: "strdict_ok M strdict_init \<and> strdict_ordered strdict_init"
  by (simp add: strdict_ok_def strdict_ordered_def strdict_init_def)



lemma strdict_bisect_right_bound:
  assumes ok: "strdict_ok M d" and ord: "strdict_ordered d" and arr: "s_array d = Some a"
  shows "upper_bound (skey a) (s_nitems d) (strkey (ptr_text k)) (fst (strdict_bisect_right M okb d k))"
    and "fst (strdict_bisect_left M okb d k) \<le> fst (strdict_bisect_right M okb d k)"
proof -
  let ?l = "fst (strdict_bisect_left M okb d k)"
  have r: "fst (strdict_bisect_right M okb d k) = str_search_right a (s_nitems d) k ?l"
    by (simp add: strdict_bisect_right_eq[OF ok] arr)
  from strdict_bisect_left_bound[OF ok ord arr, of k okb]
  have "?l \<le> s_nitems d" "\<forall>j<?l. skey a j \<le> strkey (ptr_text k)"
    by (auto simp: lower_bound_def intro: less_imp_le)
  then show "upper_bound (skey a) (s_nitems d) (strkey (ptr_text k)) (fst (strdict_bisect_right M okb d k))"
    unfolding r by (rule str_search_right_bound)
  show "?l \<le> fst (strdict_bisect_right M okb d k)"
    unfolding r by (rule str_search_right_ge)
qed

lemma strdict_bisect_right_index:
  assumes ok: "strdict_ok M d" and ord: "strdict_ordered d"
  shows "fst (strdict_bisect_right M okb d k) = length (takeWhile (\<lambda>x. x \<le> strkey (ptr_text k)) (strdict_keys d))"
proof (cases "s_array d")
  case None
  then show ?thesis by (simp add: strdict_bisect_right_def strdict_keys_None)
next
  case (Some a)
  from strdict_bisect_right_bound(1)[OF ok ord Some, of k okb]
  show ?thesis by (simp add: strdict_keys_Some[OF Some] upper_bound_takeWhile)
qed




lemma str_same_store_keys: "str_same_store d d' \<Longrightarrow> strdict_keys d = strdict_keys d'"
  by (auto simp: str_same_store_def strdict_keys_def strdict_entries_def split: option.splits)

lemma str_same_store_entries: "str_same_store d d' \<Longrightarrow> strdict_entries d = strdict_entries d'"
  by (auto simp: str_same_store_def strdict_entries_def split: option.splits)

lemma str_same_store_ordered: "str_same_store d d' \<Longrightarrow> strdict_ordered d = strdict_ordered d'"
  by (auto simp: str_same_store_def strdict_ordered_def split: option.splits)

lemma str_same_store_bisect_left:
  assumes "strdict_ok M d" "strdict_ok M d'" "strdict_ordered d" "str_same_store d d'"
  shows "fst (strdict_bisect_left M okb d k) = fst (strdict_bisect_left M okb d' k)"
    and "str_same_store (snd (strdict_bisect_left M okb d k)) (snd (strdict_bisect_left M okb d' k))"
proof -
  have ord': "strdict_ordered d'" using assms(3,4) by (simp add: str_same_store_ordered)
  show "fst (strdict_bisect_left M okb d k) = fst (strdict_bisect_left M okb d' k)"
    by (simp add: strdict_bisect_left_index[OF assms(1,3)] strdict_bisect_left_index[OF assms(2) ord']
        str_same_store_keys[OF assms(4)])
  show "str_same_store (snd (strdict_bisect_left M okb d k)) (snd (strdict_bisect_left M okb d' k))"
    using assms(4) strdict_bisect_left_fields(1,2,3)[OF assms(1), of okb k]
      strdict_bisect_left_fields(1,2,3)[OF assms(2), of okb k]
    by (simp add: str_same_store_def)
qed

lemma str_same_store_insert_rel:
  assumes "strdict_ok M d" "strdict_ok M d'" "strdict_ordered d" "str_same_store d d'"
  shows "(case (strdict_insert M S okb mem d k v, strdict_insert M S okb mem d' k v) of
            (Inl f, Inl f') \<Rightarrow> f = f'
          | (Inr (r, e), Inr (r', e')) \<Rightarrow> r = r' \<and> str_same_store e e'
          | _ \<Rightarrow> False)"
proof -
  obtain i d0 where bl: "strdict_bisect_left M okb d k = (i, d0)" by (cases "strdict_bisect_left M okb d k")
  obtain i' d0' where bl': "strdict_bisect_left M okb d' k = (i', d0')" by (cases "strdict_bisect_left M okb d' k")
  from str_same_store_bisect_left[OF assms, of okb k] bl bl'
  have i: "i' = i" and s: "s_nalloc d0 = s_nalloc d0'" "s_nitems d0 = s_nitems d0'" "s_array d0 = s_array d0'"
    by (simp_all add: str_same_store_def)
  show ?thesis
    unfolding strdict_insert_def bl bl' i
    by (simp add: Let_def s str_same_store_def split: option.splits)
qed

lemma str_same_store_insert:
  assumes "strdict_ok M d" "strdict_ok M d'" "strdict_ordered d" "str_same_store d d'"
    and res: "strdict_insert M S okb mem d k v = Inr (r, e)"
  shows "\<exists>e'. strdict_insert M S okb mem d' k v = Inr (r, e') \<and> str_same_store e e'"
  using str_same_store_insert_rel[OF assms(1-4), of S okb mem k v] res
  by (auto split: sum.splits)

lemma str_same_store_remove_at:
  assumes "str_same_store d d'"
  shows "str_same_store (strdict_remove_at d i) (strdict_remove_at d' i)"
  using assms by (auto simp: str_same_store_def strdict_remove_at_def split: option.splits)

lemma str_same_store_find:
  assumes "strdict_ok M d" "strdict_ok M d'" "strdict_ordered d" "str_same_store d d'"
  shows "fst (strdict_find M okb d k) = fst (strdict_find M okb d' k) \<and>
         str_same_store (snd (strdict_find M okb d k)) (snd (strdict_find M okb d' k))"
  using str_same_store_bisect_left[OF assms, of okb k] assms(4)
  by (auto simp: strdict_find_eq[OF assms(1)] strdict_find_eq[OF assms(2)]
      str_same_store_def split: option.splits)

lemma str_same_store_bisect_right:
  assumes "strdict_ok M d" "strdict_ok M d'" "strdict_ordered d" "str_same_store d d'"
  shows "fst (strdict_bisect_right M okb d k) = fst (strdict_bisect_right M okb d' k) \<and>
         str_same_store (snd (strdict_bisect_right M okb d k)) (snd (strdict_bisect_right M okb d' k))"
  using str_same_store_bisect_left[OF assms, of okb k] assms(4)
  by (auto simp: strdict_bisect_right_eq[OF assms(1)] strdict_bisect_right_eq[OF assms(2)]
      str_same_store_def split: option.splits)

lemma str_same_store_step:
  assumes "strdict_ok M d" "strdict_ok M d'" "strdict_ordered d" "str_same_store d d'"
    and "strdict_step M S d op = Some (r, e)"
  shows "\<exists>e'. strdict_step M S d' op = Some (r, e') \<and> str_same_store e e'"
proof (cases op)
  case (SInsert k v okb mem)
  with assms(5) have "strdict_insert M S okb mem d k v = Inr (r, e)"
    by (auto split: sum.splits)
  from str_same_store_insert[OF assms(1-4) this] SInsert show ?thesis by auto
next
  case (SRemoveAt i)
  with assms(4,5) str_same_store_remove_at[OF assms(4), of i] show ?thesis
    by (auto simp: str_same_store_def split: if_splits)
next
  case (SRemove k okb)
  from str_same_store_find[OF assms(1-4), of okb k]
  obtain p f f' where f: "strdict_find M okb d k = (p, f)" "strdict_find M okb d' k = (p, f')"
    "str_same_store f f'"
    by (cases "strdict_find M okb d k"; cases "strdict_find M okb d' k") auto
  with assms(5) SRemove show ?thesis
    by (cases p) (auto simp: strdict_remove_def str_same_store_remove_at)
next
  case (SFind k okb)
  with assms(5) str_same_store_find[OF assms(1-4), of okb k] show ?thesis
    by (cases "strdict_find M okb d' k") auto
next
  case (SBisectLeft k okb)
  with assms(5) str_same_store_bisect_left[OF assms(1-4), of okb k] show ?thesis
    by (cases "strdict_bisect_left M okb d k"; cases "strdict_bisect_left M okb d' k") auto
next
  case (SBisectRight k okb)
  with assms(5) str_same_store_bisect_right[OF assms(1-4), of okb k] show ?thesis
    by (cases "strdict_bisect_right M okb d k"; cases "strdict_bisect_right M okb d' k") auto
qed

lemma strdict_ok_discard: "strdict_ok M d \<Longrightarrow> strdict_ok M (d\<lparr>s_candidate := None\<rparr>)"
  by (simp add: strdict_ok_def)

lemma str_same_store_discard: "str_same_store d d' \<Longrightarrow> str_same_store d (d'\<lparr>s_candidate := None\<rparr>)"
  by (simp add: str_same_store_def)

lemma strdict_run_nocache_sim:
  assumes M: "4 \<le> M"
  shows "strdict_ok M d \<Longrightarrow> strdict_ok M d' \<Longrightarrow> strdict_ordered d \<Longrightarrow> str_same_store d d' \<Longrightarrow>
         strdict_run M S d ops = Some (rs, e) \<Longrightarrow>
         \<exists>e'. strdict_run_nocache M S d' ops = Some (rs, e') \<and> str_same_store e e'"
proof (induction ops arbitrary: d d' rs)
  case Nil
  then show ?case by simp
next
  case (Cons op ops)
  from Cons.prems(5) obtain r d1 rs' where
    s: "strdict_step M S d op = Some (r, d1)" and run: "strdict_run M S d1 ops = Some (rs', e)"
    and rs: "rs = r # rs'"
    by (auto split: option.splits prod.splits)
  let ?d' = "d'\<lparr>s_candidate := None\<rparr>"
  have ok': "strdict_ok M ?d'" using Cons.prems(2) by (rule strdict_ok_discard)
  have same': "str_same_store d ?d'" using Cons.prems(4) by (rule str_same_store_discard)
  from str_same_store_step[OF Cons.prems(1) ok' Cons.prems(3) same' s]
  obtain d1' where s': "strdict_step M S ?d' op = Some (r, d1')" and same1: "str_same_store d1 d1'"
    by blast
  have inv1: "strdict_ok M d1" "strdict_ordered d1"
    using strdict_step_inv[OF M Cons.prems(1,3) s] by simp_all
  have ord': "strdict_ordered ?d'" using Cons.prems(3) same' by (simp add: str_same_store_ordered)
  have inv1': "strdict_ok M d1'"
    using strdict_step_inv[OF M ok' ord' s'] by simp
  from Cons.IH[OF inv1(1) inv1' inv1(2) same1 run]
  obtain e' where "strdict_run_nocache M S d1' ops = Some (rs', e')" "str_same_store e e'" by blast
  then show ?case using s' rs by auto
qed

subsection \<open>Prefixes of runs\<close>


subsection \<open>Evaluation of concrete calls\<close>

lemmas intdict_eval =
  intdict_insert_def intdict_bisect_left_def intdict_init_def
  bsearch.simps compare_key_n_item_def int_search_forward.simps shift_up.simps shift_down.simps
  new_size_def ArrayInitSize_def ArrayGrowthFactor_def realloc_block_def Let_def
  intdict_remove_at_def intdict_remove_def intdict_find_def intdict_bisect_right_def
  int_search_right.simps intdict_keys_def intdict_entries_def realloc_bytes_def



lemma example_dict_ok: "intdict_ok 65535 example_dict"
  by (simp add: intdict_ok_def example_dict_def)

lemma example_dict_ordered: "intdict_ordered example_dict"
  by code_simp

lemma example_dict_keys: "intdict_keys example_dict = [1, 3, 3, 4, 6]"
  by code_simp

lemma example_dict_bisect_3:
  "fst (intdict_bisect_left example_dict 3) = 1"
  "fst (intdict_bisect_right example_dict 3) = 3"
  by code_simp+


lemmas strdict_eval =
  strdict_insert_def strdict_bisect_left_def strdict_init_def stringbuffer_init_def
  bsearch.simps str_compare_key_n_item_def str_search_forward.simps shift_up.simps shift_down.simps
  new_size_def ArrayInitSize_def ArrayGrowthFactor_def realloc_block_def Let_def
  strdict_remove_at_def strdict_remove_def strdict_find_def strdict_bisect_right_def
  str_search_right.simps strdict_entries_def
  stringbuffer_append_all_def stringbuffer_append_def stringbuffer_prepare_append_def
  ensure_size_def realloc_buffer_def set_len_def stringbuffer_truncate_def
  stringbuffer_get_pointer_def GROWTH_FACTOR_def sought_string_def sought_is_def
  toupper_def key_at_def str_zeroed_items_def realloc_bytes_def buffer_pointer_def
  empty_literal_def

lemma str_example_calls_run:
  "\<exists>s. strdict_run 65535 8 strdict_init str_example_calls =
     Some ([Some 0, Some 1, Some 2, Some 3, Some 4, Some 5, Some 3, Some 4, Some 2, Some 1], s) \<and>
     s_nitems s = 5 \<and> s_nalloc s = 8 \<and> s_candidate s = None \<and>
     buffer_size (s_buffer s) = 12 \<and>
     map sitem_value (strdict_entries s) = [Some 1, Some 3, Some 4, Some 5, Some 6]"
  by (simp add: str_example_calls_def strdict_eval)

lemma intdict_nocache_index:
  assumes "intdict_ok M d" "intdict_ordered d"
  shows "fst (intdict_bisect_left_nocache d k) = fst (intdict_bisect_left d k)"
    and "fst (intdict_find (d\<lparr>candidate := None\<rparr>) k) = fst (intdict_find d k)"
    and "fst (intdict_bisect_right (d\<lparr>candidate := None\<rparr>) k) = fst (intdict_bisect_right d k)"
proof -
  let ?d' = "d\<lparr>candidate := None\<rparr>"
  have ok': "intdict_ok M ?d'" using assms(1) by (rule intdict_ok_discard)
  have same: "int_same_store d ?d'" by (simp add: int_same_store_def)
  show "fst (intdict_bisect_left_nocache d k) = fst (intdict_bisect_left d k)"
    using int_same_store_bisect_left(1)[OF assms(1) ok' assms(2) same, of k]
    by (simp add: intdict_bisect_left_nocache_def)
  show "fst (intdict_find ?d' k) = fst (intdict_find d k)"
    using int_same_store_find[OF assms(1) ok' assms(2) same, of k] by simp
  show "fst (intdict_bisect_right ?d' k) = fst (intdict_bisect_right d k)"
    using int_same_store_bisect_right[OF assms(1) ok' assms(2) same, of k] by simp
qed

lemma strdict_nocache_index:
  assumes "strdict_ok M d" "strdict_ordered d"
  shows "fst (strdict_bisect_left_nocache M okb d k) = fst (strdict_bisect_left M okb d k)"
    and "fst (strdict_find M okb (d\<lparr>s_candidate := None\<rparr>) k) = fst (strdict_find M okb d k)"
    and "fst (strdict_bisect_right M okb (d\<lparr>s_candidate := None\<rparr>) k) =
         fst (strdict_bisect_right M okb d k)"
proof -
  let ?d' = "d\<lparr>s_candidate := None\<rparr>"
  have ok': "strdict_ok M ?d'" using assms(1) by (rule strdict_ok_discard)
  have same: "str_same_store d ?d'" by (simp add: str_same_store_def)
  show "fst (strdict_bisect_left_nocache M okb d k) = fst (strdict_bisect_left M okb d k)"
    using str_same_store_bisect_left(1)[OF assms(1) ok' assms(2) same, of okb k]
    by (simp add: strdict_bisect_left_nocache_def)
  show "fst (strdict_find M okb ?d' k) = fst (strdict_find M okb d k)"
    using str_same_store_find[OF assms(1) ok' assms(2) same, of okb k] by simp
  show "fst (strdict_bisect_right M okb ?d' k) = fst (strdict_bisect_right M okb d k)"
    using str_same_store_bisect_right[OF assms(1) ok' assms(2) same, of okb k] by simp
qed

lemma int_same_store_refl: "int_same_store d d"
  by (simp add: int_same_store_def)

lemma str_same_store_refl: "str_same_store d d"
  by (simp add: str_same_store_def)


lemma str_example_dict_ok: "strdict_ok 65535 str_example_dict"
  by (simp add: strdict_ok_def str_example_dict_def)

lemma str_example_dict_ordered: "strdict_ordered str_example_dict"
  by (simp add: strdict_ordered_def str_example_dict_def block_of_def key_at_def toupper_def eval_nat_numeral)



subsection \<open>Capacity\<close>

lemma new_size_dvd:
  assumes "4 dvd c"
  shows "new_size M c = M \<or> 4 dvd new_size M c"
  using assms by (auto simp: new_size_def ArrayInitSize_def ArrayGrowthFactor_def)

lemma int_capacity_inv_cache:
  "nalloc d' = nalloc d \<Longrightarrow> array d' = array d \<Longrightarrow> int_capacity_inv M S d \<Longrightarrow>
   int_capacity_inv M S d'"
  by (simp add: int_capacity_inv_def)

lemma intdict_insert_capacity:
  assumes M: "4 \<le> M" and ok: "intdict_ok M d" and ord: "intdict_ordered d" and S: "0 < S"
    and cap: "int_capacity_inv M S d"
    and res: "intdict_insert M S mem d k v = Inr (r, d')"
  shows "int_capacity_inv M S d'"
  using ok ord res
proof (cases rule: intdict_insert_outcome)
  case fail
  then show ?thesis
    using cap intdict_bisect_left_fields(2,3)[OF ok, of k] by (simp add: int_capacity_inv_def)
next
  case success
  have ok': "intdict_ok M d'" using intdict_insert_inv[OF M ok ord res] by simp
  then have nz: "nalloc d' \<noteq> 0" using success(3) by (auto simp: intdict_ok_def)
  show ?thesis
  proof (cases "nitems d = nalloc d")
    case True
    with success(7) have "\<not> M < new_size M (nalloc d) * S"
      using realloc_bytes_room[OF S, of M "new_size M (nalloc d)"] by simp
    moreover have "nalloc d \<noteq> M" using True success(7) by simp
    ultimately show ?thesis
      using True success(4,6) nz cap new_size_dvd[of "nalloc d" M]
      by (auto simp: int_capacity_inv_def)
  next
    case False
    then show ?thesis using success(4,6) nz cap by (auto simp: int_capacity_inv_def)
  qed
qed

lemma intdict_step_capacity:
  assumes M: "4 \<le> M" and ok: "intdict_ok M d" and ord: "intdict_ordered d" and S: "0 < S"
    and cap: "int_capacity_inv M S d"
    and step: "intdict_step M S d op = Some (r, d')"
  shows "int_capacity_inv M S d'"
proof (cases op)
  case (Insert k v mem)
  then have "intdict_insert M S mem d k v = Inr (r, d')"
    using step by (auto split: sum.splits)
  then show ?thesis by (rule intdict_insert_capacity[OF M ok ord S cap])
next
  case (RemoveAt index)
  then have i: "index < nitems d" "d' = intdict_remove_at d index"
    using step by (auto split: if_splits)
  then have "nalloc d \<noteq> 0" using ok by (auto simp: intdict_ok_def)
  then show ?thesis
    using intdict_remove_at_effect(3,6)[OF ok i(1)] i(2) cap by (simp add: int_capacity_inv_def)
next
  case (Remove k)
  note f = intdict_bisect_left_fields[OF ok, of k]
  have cap0: "int_capacity_inv M S (snd (intdict_bisect_left d k))"
    using f(2,3) cap by (rule int_capacity_inv_cache)
  show ?thesis
  proof (cases "fst (intdict_find d k)")
    case None
    then have "d' = snd (intdict_bisect_left d k)" using step Remove intdict_find_eq[OF ok, of k]
      by (auto simp: intdict_remove_def split: if_splits)
    then show ?thesis using cap0 by simp
  next
    case (Some pos)
    then have p: "pos < nitems d" "d' = intdict_remove_at (snd (intdict_bisect_left d k)) pos"
      using step Remove intdict_find_eq[OF ok, of k]
      by (auto simp: intdict_remove_def split: if_splits)
    then have "nalloc d \<noteq> 0" using ok by (auto simp: intdict_ok_def)
    then show ?thesis
      using intdict_remove_at_effect(3,6)[of M "snd (intdict_bisect_left d k)" pos] f(1,2,5) p cap
      by (simp add: int_capacity_inv_def)
  qed
next
  case (Find k)
  then have "d' = snd (intdict_bisect_left d k)"
    using step intdict_find_eq[OF ok, of k] by auto
  then show ?thesis
    using intdict_bisect_left_fields(2,3)[OF ok, of k] cap by (simp add: int_capacity_inv_def)
next
  case (BisectLeft k)
  then have "d' = snd (intdict_bisect_left d k)"
    using step by (auto split: prod.splits)
  then show ?thesis
    using intdict_bisect_left_fields(2,3)[OF ok, of k] cap by (simp add: int_capacity_inv_def)
next
  case (BisectRight k)
  then have "d' = snd (intdict_bisect_left d k)"
    using step intdict_bisect_right_eq[OF ok, of k] by (auto split: prod.splits)
  then show ?thesis
    using intdict_bisect_left_fields(2,3)[OF ok, of k] cap by (simp add: int_capacity_inv_def)
qed

lemma intdict_run_capacity:
  assumes M: "4 \<le> M" and S: "0 < S"
  shows "intdict_ok M d \<Longrightarrow> intdict_ordered d \<Longrightarrow> int_capacity_inv M S d \<Longrightarrow>
         intdict_run M S d ops = Some (rs, d') \<Longrightarrow> int_capacity_inv M S d'"
proof (induction ops arbitrary: d rs)
  case Nil
  then show ?case by simp
next
  case (Cons op ops)
  from Cons.prems(4) obtain r d1 rs' where
    s: "intdict_step M S d op = Some (r, d1)" and run: "intdict_run M S d1 ops = Some (rs', d')"
    by (auto split: option.splits prod.splits)
  from intdict_step_inv[OF M Cons.prems(1,2) s] have inv1: "intdict_ok M d1" "intdict_ordered d1"
    by simp_all
  have cap1: "int_capacity_inv M S d1"
    by (rule intdict_step_capacity[OF M Cons.prems(1,2) S Cons.prems(3) s])
  show ?case by (rule Cons.IH[OF inv1 cap1 run])
qed

lemma intdict_init_capacity: "int_capacity_inv M S intdict_init"
  by (simp add: int_capacity_inv_def intdict_init_def)

lemma size_max_shape:
  assumes "3 \<le> w"
  shows "\<exists>z::nat. 2 ^ w - 1 = 4 * z - 1 \<and> 2 \<le> z"
proof -
  from assms obtain u where u: "w = u + 3" using le_Suc_ex add.commute by metis
  have "(2::nat) ^ w = 4 * (2 * 2 ^ u)" by (simp add: u power_add)
  moreover have "(1::nat) \<le> 2 ^ u" by simp
  ultimately show ?thesis by (intro exI[of _ "2 * 2 ^ u"]) simp
qed

lemma new_size_doubling:
  assumes M: "M = 2 ^ w - 1" "3 \<le> w" and c: "4 dvd c" "c \<noteq> M"
  shows "new_size M c = (if c = 0 then 4 else if 2 * c \<le> M then 2 * c else M)"
proof -
  from size_max_shape[OF M(2)] M(1) obtain z where z: "M = 4 * z - 1" "2 \<le> z" by auto
  from c(1) obtain y where y: "c = 4 * y" by (auto simp: dvd_def)
  have "M div 2 = 2 * z - 1" using z by simp
  moreover have "(4 * y < 2 * z - 1) = (2 * (4 * y) \<le> 4 * z - 1)" using z(2) by presburger
  ultimately have "(c < M div 2) = (2 * c \<le> M)" using y z(1) by simp
  then show ?thesis by (simp add: new_size_def ArrayInitSize_def ArrayGrowthFactor_def)
qed

text \<open>
  With items of two bytes or more, no block that fits in memory has \<^verbatim>\<open>SIZE_MAX\<close> slots, or
  so many that doubling them would exceed \<^verbatim>\<open>SIZE_MAX\<close>: the branch of \<open>new_size\<close> that
  saturates and the refusal at \<^verbatim>\<open>SIZE_MAX\<close> are not reached.
\<close>

lemma capacity_below_half:
  assumes M: "M = 2 ^ w - 1" "3 \<le> w" and S: "2 \<le> S" and cap: "int_capacity_inv M S d"
  shows "nalloc d \<noteq> M" and "2 * nalloc d \<le> M"
    and "new_size M (nalloc d) = (if nalloc d = 0 then 4 else 2 * nalloc d)"
proof -
  from size_max_shape[OF M(2)] M(1) obtain z where z: "M = 4 * z - 1" "2 \<le> z" by auto
  have "nalloc d * 2 \<le> nalloc d * S" using S by simp
  also have "\<dots> \<le> M" using cap by (simp add: int_capacity_inv_def)
  finally show half: "2 * nalloc d \<le> M" by (simp add: mult.commute)
  then show ne: "nalloc d \<noteq> M" using z by auto
  with cap have "4 dvd nalloc d" by (simp add: int_capacity_inv_def)
  from new_size_doubling[OF M this ne] half
  show "new_size M (nalloc d) = (if nalloc d = 0 then 4 else 2 * nalloc d)" by simp
qed

lemma strdict_bisect_left_no_raw:
  assumes ok: "strdict_ok M d" and nr: "no_raw_key d"
  shows "no_raw_key (snd (strdict_bisect_left M okb d k))"
proof -
  from strdict_bisect_left_state[OF ok, of okb k]
  obtain b sk c where st: "snd (strdict_bisect_left M okb d k) =
      d\<lparr>s_buffer := b, s_sought_key := sk, s_candidate := c\<rparr>"
    and sk: "sk = s_sought_key d \<or> sk = SoughtNull \<or> sk = SoughtBuffer \<or> sk = SoughtLiteral"
    by blast
  from sk nr show ?thesis by (auto simp: st no_raw_key_def)
qed

lemma strdict_bisect_left_copy_failure:
  assumes ok: "strdict_ok M d" and arr: "s_array d = Some a" and pos: "0 < s_nitems d"
    and search: "s_candidate d = None \<or> stricmp (sought_string d) (ptr_text k) \<noteq> 0"
    and fail: "\<not> fst (stringbuffer_append_all M okb (stringbuffer_truncate (s_buffer d) 0) (ptr_text k))"
  shows "s_sought_key (snd (strdict_bisect_left M okb d k)) = SoughtNull \<and>
         s_candidate (snd (strdict_bisect_left M okb d k)) = None"
  using ok arr pos
proof (cases rule: strdict_bisect_left_cases[where k = k and okb = okb])
  case (reuse c)
  with search show ?thesis by simp
next
  case (search c copied b)
  with fail show ?thesis by simp
qed

lemma strdict_insert_sought:
  "strdict_insert M S okb mem d k v = Inr (r, d') \<Longrightarrow>
   s_sought_key d' = s_sought_key (snd (strdict_bisect_left M okb d k))"
  by (cases "strdict_bisect_left M okb d k")
     (auto simp: strdict_insert_def Let_def split: option.splits if_splits)

lemma strdict_remove_at_sought:
  "s_sought_key (strdict_remove_at d i) = s_sought_key d"
  by (simp add: strdict_remove_at_def split: option.splits)

lemma no_raw_key_cong: "s_sought_key d' = s_sought_key d \<Longrightarrow> no_raw_key d' = no_raw_key d"
  by (simp add: no_raw_key_def)

lemma strdict_step_no_raw:
  assumes ok: "strdict_ok M d" and nr: "no_raw_key d"
    and step: "strdict_step M S d op = Some (r, d')"
  shows "no_raw_key d'"
proof (cases op)
  case (SInsert k v okb mem)
  then have "strdict_insert M S okb mem d k v = Inr (r, d')"
    using step by (auto split: sum.splits)
  then show ?thesis
    using strdict_bisect_left_no_raw[OF ok nr, of okb k]
      no_raw_key_cong[OF strdict_insert_sought] by simp
next
  case (SRemoveAt index)
  then have "d' = strdict_remove_at d index" using step by (auto split: if_splits)
  then show ?thesis using nr no_raw_key_cong[OF strdict_remove_at_sought[of d index]] by simp
next
  case (SRemove k okb)
  note n = strdict_bisect_left_no_raw[OF ok nr, of okb k]
  show ?thesis
  proof (cases "fst (strdict_find M okb d k)")
    case None
    then have "d' = snd (strdict_bisect_left M okb d k)"
      using step SRemove strdict_find_eq[OF ok, of okb k]
      by (auto simp: strdict_remove_def split: if_splits option.splits)
    then show ?thesis using n by simp
  next
    case (Some pos)
    then have "d' = strdict_remove_at (snd (strdict_bisect_left M okb d k)) pos"
      using step SRemove strdict_find_eq[OF ok, of okb k]
      by (auto simp: strdict_remove_def split: if_splits option.splits)
    then show ?thesis
      using n no_raw_key_cong[OF strdict_remove_at_sought[of "snd (strdict_bisect_left M okb d k)" pos]]
      by simp
  qed
next
  case (SFind k okb)
  then have "d' = snd (strdict_bisect_left M okb d k)"
    using step strdict_find_eq[OF ok, of okb k] by auto
  then show ?thesis using strdict_bisect_left_no_raw[OF ok nr, of okb k] by simp
next
  case (SBisectLeft k okb)
  then have "d' = snd (strdict_bisect_left M okb d k)"
    using step by (auto split: prod.splits)
  then show ?thesis using strdict_bisect_left_no_raw[OF ok nr, of okb k] by simp
next
  case (SBisectRight k okb)
  then have "d' = snd (strdict_bisect_left M okb d k)"
    using step strdict_bisect_right_eq[OF ok, of okb k] by (auto split: prod.splits)
  then show ?thesis using strdict_bisect_left_no_raw[OF ok nr, of okb k] by simp
qed

lemma strdict_run_no_raw:
  assumes M: "4 \<le> M"
  shows "strdict_ok M d \<Longrightarrow> strdict_ordered d \<Longrightarrow> no_raw_key d \<Longrightarrow>
         strdict_run M S d ops = Some (rs, d') \<Longrightarrow> no_raw_key d'"
proof (induction ops arbitrary: d rs)
  case Nil
  then show ?case by simp
next
  case (Cons op ops)
  from Cons.prems(4) obtain r d1 rs' where
    s: "strdict_step M S d op = Some (r, d1)" and run: "strdict_run M S d1 ops = Some (rs', d')"
    by (auto split: option.splits prod.splits)
  from strdict_step_inv[OF M Cons.prems(1,2) s] have inv1: "strdict_ok M d1" "strdict_ordered d1"
    by simp_all
  have nr1: "no_raw_key d1" by (rule strdict_step_no_raw[OF Cons.prems(1,3) s])
  show ?case by (rule Cons.IH[OF inv1 nr1 run])
qed

lemma strdict_run_take:
  "strdict_run M S d ops = Some (rs, d') \<Longrightarrow>
   \<exists>d''. strdict_run M S d (take n ops) = Some (take n rs, d'')"
proof (induction ops arbitrary: d rs n)
  case Nil
  then show ?case by simp
next
  case (Cons op ops)
  from Cons.prems obtain r d1 rs' where
    s: "strdict_step M S d op = Some (r, d1)" and run: "strdict_run M S d1 ops = Some (rs', d')"
    and rs: "rs = r # rs'"
    by (auto split: option.splits prod.splits)
  show ?case
  proof (cases n)
    case 0
    then show ?thesis by simp
  next
    case (Suc m)
    from Cons.IH[OF run, of m] obtain d'' where "strdict_run M S d1 (take m ops) = Some (take m rs', d'')"
      by blast
    then show ?thesis using s rs Suc by simp
  qed
qed

lemma long_key_copy_fails:
  assumes "buffer_size (s_buffer s) = 12"
  shows "\<not> fst (stringbuffer_append_all 65535 False (stringbuffer_truncate (s_buffer s) 0)
              (ptr_text (key_at 400 ''a key longer than the buffer'')))"
  using assms
  by (simp add: stringbuffer_append_all_def stringbuffer_append_def stringbuffer_prepare_append_def
      ensure_size_def realloc_buffer_def stringbuffer_truncate_def set_len_def key_at_def
      GROWTH_FACTOR_def Let_def)


lemma intdict_get_value_at_entries:
  assumes "intdict_ok M d" "i < nitems d"
  shows "intdict_get_value_at d i = item_value (intdict_entries d ! i)"
proof -
  from assms obtain a where "array d = Some a"
    by (cases "array d") (auto simp: intdict_ok_def)
  with assms(2) show ?thesis by (simp add: intdict_get_value_at_def intdict_entries_def)
qed

lemma intdictviter_remove_effect:
  assumes ok: "intdict_ok M (iter_dict it)"
    and pos: "0 < next_index it" and le: "next_index it \<le> nitems (iter_dict it)"
  shows "fst (intdictviter_remove it) = next_index it - 1"
    and "next_index (snd (intdictviter_remove it)) = next_index it - 1"
    and "iter_end (snd (intdictviter_remove it)) = iter_end it - 1"
    and "intdict_entries (iter_dict (snd (intdictviter_remove it))) =
           take (next_index it - 1) (intdict_entries (iter_dict it)) @
           drop (next_index it) (intdict_entries (iter_dict it))"
    and "nitems (iter_dict (snd (intdictviter_remove it))) = nitems (iter_dict it) - 1"
    and "intdict_ok M (iter_dict (snd (intdictviter_remove it)))"
proof -
  have idx: "next_index it - 1 < nitems (iter_dict it)" using pos le by simp
  have d: "iter_dict (snd (intdictviter_remove it)) = intdict_remove_at (iter_dict it) (next_index it - 1)"
    by (simp add: intdictviter_remove_def Let_def)
  note e = intdict_remove_at_effect[OF ok idx]
  show "fst (intdictviter_remove it) = next_index it - 1"
    "next_index (snd (intdictviter_remove it)) = next_index it - 1"
    "iter_end (snd (intdictviter_remove it)) = iter_end it - 1"
    by (simp_all add: intdictviter_remove_def Let_def)
  show "intdict_entries (iter_dict (snd (intdictviter_remove it))) =
           take (next_index it - 1) (intdict_entries (iter_dict it)) @
           drop (next_index it) (intdict_entries (iter_dict it))"
    using e(1) pos by (simp add: d)
  show "nitems (iter_dict (snd (intdictviter_remove it))) = nitems (iter_dict it) - 1"
    using e(2) by (simp add: d)
  show "intdict_ok M (iter_dict (snd (intdictviter_remove it)))"
    using ok e(2,3,4,6) by (auto simp: d intdict_ok_def)
qed

lemma kept_upto_Suc:
  "kept_upto es (Suc c) =
     (if c mod RemoveInterval = 0 then kept_upto es c @ [es ! c] else kept_upto es c)"
  by (simp add: kept_upto_def)

lemma kept_upto_0 [simp]: "kept_upto es 0 = []"
  by (simp add: kept_upto_def)

text \<open>One round of the loop.\<close>

lemma loop_round:
  assumes ok: "intdict_ok M (iter_dict it)"
    and c: "c < length es"
    and ents: "intdict_entries (iter_dict it) = kept_upto es c @ drop c es"
    and nxt: "next_index it = length (kept_upto es c) + 1"
    and en: "iter_end it = length (kept_upto es c) + (length es - c)"
    and adv: "intdictviter_advance
               (if c mod RemoveInterval \<noteq> 0 then snd (intdictviter_remove it) else it) = (value', it')"
  shows "intdict_ok M (iter_dict it')"
    and "intdict_entries (iter_dict it') = kept_upto es (c + 1) @ drop (c + 1) es"
    and "iter_end it' = length (kept_upto es (c + 1)) + (length es - (c + 1))"
    and "c + 1 < length es \<Longrightarrow>
           value' = item_value (es ! (c + 1)) \<and> next_index it' = length (kept_upto es (c + 1)) + 1"
    and "\<not> c + 1 < length es \<Longrightarrow> value' = None \<and> next_index it' = iter_end it'"
proof -
  define it1 where "it1 = (if c mod RemoveInterval \<noteq> 0 then snd (intdictviter_remove it) else it)"
  have n: "nitems (iter_dict it) = length (kept_upto es c) + (length es - c)"
    using intdict_entries_length[OF ok] ents by simp
  have le: "next_index it \<le> nitems (iter_dict it)" using n nxt c by simp
  have dc: "drop c es = es ! c # drop (c + 1) es" using c by (simp add: Cons_nth_drop_Suc)
  have ok1: "intdict_ok M (iter_dict it1)"
    using intdictviter_remove_effect(6)[OF ok _ le] nxt ok by (simp add: it1_def)
  have ents1: "intdict_entries (iter_dict it1) = kept_upto es (c + 1) @ drop (c + 1) es"
  proof (cases "c mod RemoveInterval \<noteq> 0")
    case True
    then show ?thesis
      using intdictviter_remove_effect(4)[OF ok _ le] nxt
      by (simp add: it1_def ents kept_upto_Suc)
  next
    case False
    then show ?thesis by (simp add: it1_def ents kept_upto_Suc dc)
  qed
  have nxt1: "next_index it1 = length (kept_upto es (c + 1))"
    using intdictviter_remove_effect(2)[OF ok _ le] nxt
    by (simp add: it1_def kept_upto_Suc)
  have en1: "iter_end it1 = length (kept_upto es (c + 1)) + (length es - (c + 1))"
    using intdictviter_remove_effect(3)[OF ok _ le] nxt en c
    by (auto simp: it1_def kept_upto_Suc)
  have adv1: "intdictviter_advance it1 = (value', it')" using adv by (simp add: it1_def)
  have d': "iter_dict it' = iter_dict it1" "iter_end it' = iter_end it1"
    using adv1 by (auto simp: intdictviter_advance_def split: if_splits)
  show "intdict_ok M (iter_dict it')" using ok1 d' by simp
  show "intdict_entries (iter_dict it') = kept_upto es (c + 1) @ drop (c + 1) es"
    using ents1 d' by simp
  show "iter_end it' = length (kept_upto es (c + 1)) + (length es - (c + 1))"
    using en1 d' by simp
  show "value' = item_value (es ! (c + 1)) \<and> next_index it' = length (kept_upto es (c + 1)) + 1"
    if more: "c + 1 < length es"
  proof -
    have lt: "next_index it1 < iter_end it1" using nxt1 en1 more by simp
    have n1: "nitems (iter_dict it1) = length (kept_upto es (c + 1)) + (length es - (c + 1))"
      using intdict_entries_length[OF ok1] ents1 by simp
    have "value' = intdict_get_value_at (iter_dict it1) (next_index it1)"
      "next_index it' = next_index it1 + 1"
      using adv1 lt by (auto simp: intdictviter_advance_def)
    moreover have "intdict_get_value_at (iter_dict it1) (next_index it1) =
        item_value (intdict_entries (iter_dict it1) ! next_index it1)"
      using n1 nxt1 more by (intro intdict_get_value_at_entries[OF ok1]) simp
    moreover have "intdict_entries (iter_dict it1) ! next_index it1 = es ! (c + 1)"
      using more by (simp add: ents1 nxt1 nth_append)
    ultimately show ?thesis using nxt1 by simp
  qed
  show "value' = None \<and> next_index it' = iter_end it'" if last: "\<not> c + 1 < length es"
  proof -
    have "\<not> next_index it1 < iter_end it1" "next_index it1 = iter_end it1"
      using nxt1 en1 last by simp_all
    then show ?thesis using adv1 by (auto simp: intdictviter_advance_def)
  qed
qed


lemma visit_calls_result:
  assumes "intdict_ok M (iter_dict it)" "c < length es"
    "intdict_entries (iter_dict it) = kept_upto es c @ drop c es"
    "next_index it = length (kept_upto es c) + 1"
    "iter_end it = length (kept_upto es c) + (length es - c)"
  shows "\<exists>it'. visit_calls (length es - c) (item_value (es ! c)) it c seen =
                 (seen @ map item_value (drop c es), None, it') \<and>
               intdict_ok M (iter_dict it') \<and>
               intdict_entries (iter_dict it') = kept_entries es \<and>
               next_index it' = iter_end it'"
  using assms
proof (induction "length es - c" arbitrary: c it seen)
  case 0
  then show ?case by simp
next
  case (Suc k)
  obtain value' it' where adv: "intdictviter_advance
      (if c mod RemoveInterval \<noteq> 0 then snd (intdictviter_remove it) else it) = (value', it')"
    by (cases "intdictviter_advance
      (if c mod RemoveInterval \<noteq> 0 then snd (intdictviter_remove it) else it)")
  note r = loop_round[OF Suc.prems adv]
  have dc: "drop c es = es ! c # drop (c + 1) es" using Suc.prems(2) by (simp add: Cons_nth_drop_Suc)
  have unf: "visit_calls (length es - c) (item_value (es ! c)) it c seen =
      visit_calls k value' it' (c + 1) (seen @ [item_value (es ! c)])"
    using Suc.hyps(2)[symmetric] adv by simp
  show ?case
  proof (cases "c + 1 < length es")
    case True
    have k: "k = length es - (c + 1)" using Suc.hyps(2) by simp
    from r(4)[OF True] have v: "value' = item_value (es ! (c + 1))"
      and n: "next_index it' = length (kept_upto es (c + 1)) + 1" by simp_all
    from Suc.hyps(1)[OF k r(1) True r(2) n r(3), of "seen @ [item_value (es ! c)]"]
    show ?thesis unfolding unf v k by (simp add: dc)
  next
    case False
    then have k: "k = 0" and c1: "c + 1 = length es" using Suc.hyps(2) Suc.prems(2) by simp_all
    from r(5)[OF False] have v: "value' = None" "next_index it' = iter_end it'" by simp_all
    have "intdict_entries (iter_dict it') = kept_entries es"
      using r(2) c1 by (simp add: kept_entries_def)
    then show ?thesis unfolding unf k using v r(1) c1 by (simp add: dc)
  qed
qed

lemma iterate_removing_result:
  assumes "intdict_ok M (iter_dict it)" "c < length es"
    "intdict_entries (iter_dict it) = kept_upto es c @ drop c es"
    "next_index it = length (kept_upto es c) + 1"
    "iter_end it = length (kept_upto es c) + (length es - c)"
    and nonnull: "\<forall>i<length es. item_value (es ! i) \<noteq> None"
  shows "\<exists>it'. iterate_removing (item_value (es ! c)) it c seen =
                 (seen @ map (\<lambda>e. the (item_value e)) (drop c es), length es, it') \<and>
               intdict_ok M (iter_dict it') \<and>
               intdict_entries (iter_dict it') = kept_entries es \<and>
               next_index it' = iter_end it'"
  using assms(1-5)
proof (induction "length es - c" arbitrary: c it seen)
  case 0
  then show ?case by simp
next
  case (Suc k)
  obtain value' it' where adv: "intdictviter_advance
      (if c mod RemoveInterval \<noteq> 0 then snd (intdictviter_remove it) else it) = (value', it')"
    by (cases "intdictviter_advance
      (if c mod RemoveInterval \<noteq> 0 then snd (intdictviter_remove it) else it)")
  note r = loop_round[OF Suc.prems adv]
  have dc: "drop c es = es ! c # drop (c + 1) es" using Suc.prems(2) by (simp add: Cons_nth_drop_Suc)
  from nonnull Suc.prems(2) obtain v where v: "item_value (es ! c) = Some v" by auto
  have unf: "iterate_removing (item_value (es ! c)) it c seen =
      iterate_removing value' it' (c + 1) (seen @ [v])"
    using adv v by (subst iterate_removing.simps) simp
  show ?case
  proof (cases "c + 1 < length es")
    case True
    have k: "k = length es - (c + 1)" using Suc.hyps(2) by simp
    from r(4)[OF True] have v': "value' = item_value (es ! (c + 1))"
      and n: "next_index it' = length (kept_upto es (c + 1)) + 1" by simp_all
    from Suc.hyps(1)[OF k r(1) True r(2) n r(3), of "seen @ [v]"]
    show ?thesis unfolding unf v' by (simp add: dc v)
  next
    case False
    then have c1: "c + 1 = length es" using Suc.prems(2) by simp
    from r(5)[OF False] have v': "value' = None" "next_index it' = iter_end it'" by simp_all
    have e: "intdict_entries (iter_dict it') = kept_entries es"
      using r(2) c1 by (simp add: kept_entries_def)
    have "iterate_removing value' it' (c + 1) (seen @ [v]) = (seen @ [v], c + 1, it')"
      unfolding v' by (subst iterate_removing.simps) simp
    then show ?thesis unfolding unf using v' r(1) c1 e by (simp add: dc v)
  qed
qed

lemma length_kept_upto: "length (kept_upto es c) = (c + 1) div 2"
proof (induction c)
  case 0
  then show ?case by simp
next
  case (Suc c)
  then show ?case by (auto simp: kept_upto_Suc RemoveInterval_def) presburger+
qed

lemma intdictviter_all_init_start:
  assumes ok: "intdict_ok M d"
  shows "intdictviter_all_init d =
     (if 0 < nitems d
      then (item_value (intdict_entries d ! 0), \<lparr>iter_dict = d, next_index = 1, iter_end = nitems d\<rparr>)
      else (None, \<lparr>iter_dict = d, next_index = 0, iter_end = nitems d\<rparr>))"
  using intdict_get_value_at_entries[OF ok, of 0]
  by (simp add: intdictviter_all_init_def intdictviter_advance_def intdict_count_def)

lemma valued_dict_ok: "intdict_ok 65535 valued_dict"
  by (simp add: intdict_ok_def valued_dict_def)

lemma valued_dict_entries:
  "intdict_entries valued_dict =
     [\<lparr>item_key = 1, item_value = Some 10\<rparr>, \<lparr>item_key = 3, item_value = Some 11\<rparr>,
      \<lparr>item_key = 3, item_value = Some 12\<rparr>, \<lparr>item_key = 4, item_value = Some 13\<rparr>,
      \<lparr>item_key = 6, item_value = Some 14\<rparr>]"
  by (simp add: intdict_entries_def valued_dict_def block_of_def upt_rec)

lemma kept_entries_5:
  "kept_entries [a, b, c, d, e] = [a, c, e]"
  by (simp add: kept_entries_def kept_upto_def RemoveInterval_def upt_rec)


lemma null_value_stored:
  "\<exists>d. intdict_insert 65535 8 (Some zeroed_items) intdict_init 5 None = Inr (Some 0, d) \<and>
       fst (intdictviter_all_init d) = None \<and>
       next_index (snd (intdictviter_all_init d)) = 1"
  by (simp add: intdict_eval intdictviter_all_init_def intdictviter_advance_def
      intdict_get_value_at_def intdict_count_def)


lemma intdict_bisect_right_le:
  assumes ok: "intdict_ok M d" and ord: "intdict_ordered d"
  shows "fst (intdict_bisect_right d k) \<le> nitems d"
proof -
  have "length (takeWhile (\<lambda>x. x \<le> k) (intdict_keys d)) \<le> length (intdict_keys d)"
    by (rule length_takeWhile_le)
  also have "\<dots> \<le> nitems d"
    by (simp add: intdict_keys_def intdict_entries_def split: option.splits)
  finally show ?thesis by (simp add: intdict_bisect_right_index[OF ok ord])
qed

lemma strdict_bisect_right_le:
  assumes ok: "strdict_ok M d" and ord: "strdict_ordered d"
  shows "fst (strdict_bisect_right M okb d k) \<le> s_nitems d"
proof -
  have "length (takeWhile (\<lambda>x. x \<le> strkey (ptr_text k)) (strdict_keys d)) \<le> length (strdict_keys d)"
    by (rule length_takeWhile_le)
  also have "\<dots> \<le> s_nitems d"
    by (simp add: strdict_keys_def strdict_entries_def split: option.splits)
  finally show ?thesis by (simp add: strdict_bisect_right_index[OF ok ord])
qed

lemma strdict_get_value_at_entries:
  assumes "strdict_ok M d" "i < s_nitems d"
  shows "strdict_get_value_at d i = sitem_value (strdict_entries d ! i)"
proof -
  from assms obtain a where "s_array d = Some a"
    by (cases "s_array d") (auto simp: strdict_ok_def)
  with assms(2) show ?thesis by (simp add: strdict_get_value_at_def strdict_entries_def)
qed

lemma intdictviter_init_result:
  assumes ok: "intdict_ok M d" and ord: "intdict_ordered d"
  shows "iter_end (snd (intdictviter_init d lo hi)) = fst (intdict_bisect_right d hi)"
    and "next_index (snd (intdictviter_init d lo hi)) =
           (if fst (intdict_bisect_left d lo) < fst (intdict_bisect_right d hi)
            then fst (intdict_bisect_left d lo) + 1 else fst (intdict_bisect_left d lo))"
    and "fst (intdictviter_init d lo hi) =
           (if fst (intdict_bisect_left d lo) < fst (intdict_bisect_right d hi)
            then item_value (intdict_entries d ! fst (intdict_bisect_left d lo)) else None)"
    and "intdict_entries (iter_dict (snd (intdictviter_init d lo hi))) = intdict_entries d"
proof -
  obtain l d1 where bl: "intdict_bisect_left d lo = (l, d1)" by (cases "intdict_bisect_left d lo")
  obtain r d2 where br: "intdict_bisect_right d1 hi = (r, d2)" by (cases "intdict_bisect_right d1 hi")
  note f1 = intdict_bisect_left_fields[OF ok, of lo, unfolded bl snd_conv]
  have ok1: "intdict_ok M d1" by (rule f1(5))
  have ord1: "intdict_ordered d1" using f1(6) ord by simp
  have same1: "int_same_store d1 d" using f1(1,2,3) by (simp add: int_same_store_def)
  have r: "r = fst (intdict_bisect_right d hi)"
    using int_same_store_bisect_right[OF ok1 ok ord1 same1, of hi] br by simp
  have d2: "d2 = snd (intdict_bisect_left d1 hi)"
    using intdict_bisect_right_eq[OF ok1, of hi] br by simp
  note f2 = intdict_bisect_left_fields[OF ok1, of hi, folded d2]
  have ents: "intdict_entries d2 = intdict_entries d" using f2(4) f1(4) by simp
  have rle: "r \<le> nitems d2" using intdict_bisect_right_le[OF ok ord, of hi] r f2(1) f1(1) by simp
  have init: "intdictviter_init d lo hi =
      intdictviter_advance \<lparr>iter_dict = d2, next_index = l, iter_end = r\<rparr>"
    by (simp add: intdictviter_init_def bl br)
  have val: "l < r \<Longrightarrow> intdict_get_value_at d2 l = item_value (intdict_entries d ! l)"
    using intdict_get_value_at_entries[OF f2(5), of l] rle ents by simp
  show "iter_end (snd (intdictviter_init d lo hi)) = fst (intdict_bisect_right d hi)"
    by (simp add: init intdictviter_advance_def r)
  show "next_index (snd (intdictviter_init d lo hi)) =
           (if fst (intdict_bisect_left d lo) < fst (intdict_bisect_right d hi)
            then fst (intdict_bisect_left d lo) + 1 else fst (intdict_bisect_left d lo))"
    by (simp add: init intdictviter_advance_def r[symmetric] bl)
  show "fst (intdictviter_init d lo hi) =
           (if fst (intdict_bisect_left d lo) < fst (intdict_bisect_right d hi)
            then item_value (intdict_entries d ! fst (intdict_bisect_left d lo)) else None)"
    using val by (simp add: init intdictviter_advance_def r[symmetric] bl)
  show "intdict_entries (iter_dict (snd (intdictviter_init d lo hi))) = intdict_entries d"
    by (simp add: init intdictviter_advance_def ents)
qed

lemma strdictviter_init_result:
  assumes ok: "strdict_ok M d" and ord: "strdict_ordered d"
  shows "siter_end (snd (strdictviter_init M ok1 ok2 d lo hi)) = fst (strdict_bisect_right M ok2 d hi)"
    and "s_next_index (snd (strdictviter_init M ok1 ok2 d lo hi)) =
           (if fst (strdict_bisect_left M ok1 d lo) < fst (strdict_bisect_right M ok2 d hi)
            then fst (strdict_bisect_left M ok1 d lo) + 1 else fst (strdict_bisect_left M ok1 d lo))"
    and "fst (strdictviter_init M ok1 ok2 d lo hi) =
           (if fst (strdict_bisect_left M ok1 d lo) < fst (strdict_bisect_right M ok2 d hi)
            then sitem_value (strdict_entries d ! fst (strdict_bisect_left M ok1 d lo)) else None)"
    and "strdict_entries (siter_dict (snd (strdictviter_init M ok1 ok2 d lo hi))) = strdict_entries d"
proof -
  obtain l d1 where bl: "strdict_bisect_left M ok1 d lo = (l, d1)"
    by (cases "strdict_bisect_left M ok1 d lo")
  obtain r d2 where br: "strdict_bisect_right M ok2 d1 hi = (r, d2)"
    by (cases "strdict_bisect_right M ok2 d1 hi")
  note f1 = strdict_bisect_left_fields[OF ok, of ok1 lo, unfolded bl snd_conv]
  have okd1: "strdict_ok M d1" by (rule f1(5))
  have ord1: "strdict_ordered d1" using f1(6) ord by simp
  have same1: "str_same_store d1 d" using f1(1,2,3) by (simp add: str_same_store_def)
  have r: "r = fst (strdict_bisect_right M ok2 d hi)"
    using str_same_store_bisect_right[OF okd1 ok ord1 same1, of ok2 hi] br by simp
  have d2: "d2 = snd (strdict_bisect_left M ok2 d1 hi)"
    using strdict_bisect_right_eq[OF okd1, of ok2 hi] br by simp
  note f2 = strdict_bisect_left_fields[OF okd1, of ok2 hi, folded d2]
  have ents: "strdict_entries d2 = strdict_entries d" using f2(4) f1(4) by simp
  have rle: "r \<le> s_nitems d2"
    using strdict_bisect_right_le[OF ok ord, of ok2 hi] r f2(1) f1(1) by simp
  have init: "strdictviter_init M ok1 ok2 d lo hi =
      strdictviter_advance \<lparr>siter_dict = d2, s_next_index = l, siter_end = r\<rparr>"
    by (simp add: strdictviter_init_def bl br)
  have val: "l < r \<Longrightarrow> strdict_get_value_at d2 l = sitem_value (strdict_entries d ! l)"
    using strdict_get_value_at_entries[OF f2(5), of l] rle ents by simp
  show "siter_end (snd (strdictviter_init M ok1 ok2 d lo hi)) = fst (strdict_bisect_right M ok2 d hi)"
    by (simp add: init strdictviter_advance_def r)
  show "s_next_index (snd (strdictviter_init M ok1 ok2 d lo hi)) =
           (if fst (strdict_bisect_left M ok1 d lo) < fst (strdict_bisect_right M ok2 d hi)
            then fst (strdict_bisect_left M ok1 d lo) + 1 else fst (strdict_bisect_left M ok1 d lo))"
    by (simp add: init strdictviter_advance_def r[symmetric] bl)
  show "fst (strdictviter_init M ok1 ok2 d lo hi) =
           (if fst (strdict_bisect_left M ok1 d lo) < fst (strdict_bisect_right M ok2 d hi)
            then sitem_value (strdict_entries d ! fst (strdict_bisect_left M ok1 d lo)) else None)"
    using val by (simp add: init strdictviter_advance_def r[symmetric] bl)
  show "strdict_entries (siter_dict (snd (strdictviter_init M ok1 ok2 d lo hi))) = strdict_entries d"
    by (simp add: init strdictviter_advance_def ents)
qed

lemma strdictviter_all_init_start:
  assumes ok: "strdict_ok M d"
  shows "strdictviter_all_init d =
     (if 0 < s_nitems d
      then (sitem_value (strdict_entries d ! 0),
            \<lparr>siter_dict = d, s_next_index = 1, siter_end = s_nitems d\<rparr>)
      else (None, \<lparr>siter_dict = d, s_next_index = 0, siter_end = s_nitems d\<rparr>))"
  using strdict_get_value_at_entries[OF ok, of 0]
  by (simp add: strdictviter_all_init_def strdictviter_advance_def strdict_count_def)

lemma example_dict_bisect_range:
  "fst (intdict_bisect_left example_dict 3) = 1"
  "fst (intdict_bisect_right example_dict 4) = 4"
  using intdict_bisect_left_index[OF example_dict_ok example_dict_ordered, of 3]
    intdict_bisect_right_index[OF example_dict_ok example_dict_ordered, of 4]
  by (simp_all add: example_dict_keys)

lemma example_dict_entry_1: "item_value (intdict_entries example_dict ! Suc 0) = Some 11"
  by (simp add: intdict_entries_def example_dict_def block_of_def upt_rec)

lemma example_dict_init_range:
  "next_index (snd (intdictviter_init example_dict 3 4)) = 2"
  "iter_end (snd (intdictviter_init example_dict 3 4)) = 4"
  "fst (intdictviter_init example_dict 3 4) = Some 11"
  using intdictviter_init_result[OF example_dict_ok example_dict_ordered, of 3 4]
  by (simp_all add: example_dict_bisect_range example_dict_entry_1)

lemma example_dict_all_init:
  "intdictviter_all_init example_dict =
     (Some 10, \<lparr>iter_dict = example_dict, next_index = 1, iter_end = 5\<rparr>)"
  by (simp add: intdictviter_all_init_start[OF example_dict_ok])
     (simp add: intdict_entries_def example_dict_def block_of_def upt_rec)

lemma str_example_dict_keys:
  "strdict_keys str_example_dict = [strkey ''AARDVARK'', strkey ''BISON'', strkey ''CAMEL'']"
  by (simp add: strdict_keys_def strdict_entries_def str_example_dict_def block_of_def key_at_def
      upt_rec strkey_def toupper_def)

lemma str_example_dict_bisect_range:
  "fst (strdict_bisect_left 65535 okb str_example_dict (key_at 7 ''BISON'')) = 1"
  "fst (strdict_bisect_right 65535 okb str_example_dict (key_at 8 ''camel'')) = 3"
  using strdict_bisect_left_index[OF str_example_dict_ok str_example_dict_ordered, of okb "key_at 7 ''BISON''"]
    strdict_bisect_right_index[OF str_example_dict_ok str_example_dict_ordered, of okb "key_at 8 ''camel''"]
  by (simp_all add: str_example_dict_keys key_at_def strkey_def toupper_def)

lemma str_example_dict_entry_1: "sitem_value (strdict_entries str_example_dict ! Suc 0) = None"
  by (simp add: strdict_entries_def str_example_dict_def block_of_def upt_rec)

lemma str_example_dict_init_range:
  "s_next_index (snd (strdictviter_init 65535 ok1 ok2 str_example_dict
      (key_at 7 ''BISON'') (key_at 8 ''camel''))) = 2"
  "siter_end (snd (strdictviter_init 65535 ok1 ok2 str_example_dict
      (key_at 7 ''BISON'') (key_at 8 ''camel''))) = 3"
  "fst (strdictviter_init 65535 ok1 ok2 str_example_dict
      (key_at 7 ''BISON'') (key_at 8 ''camel'')) = None"
  using strdictviter_init_result[OF str_example_dict_ok str_example_dict_ordered,
      of ok1 ok2 "key_at 7 ''BISON''" "key_at 8 ''camel''"]
  by (simp_all add: str_example_dict_bisect_range str_example_dict_entry_1)

lemma str_example_dict_all_init:
  "strdictviter_all_init str_example_dict =
     (Some 20, \<lparr>siter_dict = str_example_dict, s_next_index = 1, siter_end = 3\<rparr>)"
  by (simp add: strdictviter_all_init_start[OF str_example_dict_ok])
     (simp add: strdict_entries_def str_example_dict_def block_of_def upt_rec)

lemma takeWhile_index_iff:
  fixes xs :: "'a::linorder list"
  assumes "sorted xs" and "i < length xs" and down: "\<And>x y. x \<le> y \<Longrightarrow> P y \<Longrightarrow> P x"
  shows "(i < length (takeWhile P xs)) = P (xs ! i)"
  using assms(1,2)
proof (induction xs arbitrary: i)
  case Nil
  then show ?case by simp
next
  case (Cons x xs)
  show ?case
  proof (cases i)
    case 0
    then show ?thesis by simp
  next
    case (Suc j)
    have "P (xs ! j) \<Longrightarrow> P x"
      using Cons.prems Suc down[of x "xs ! j"] by auto
    then show ?thesis using Cons Suc by auto
  qed
qed

lemma intdict_range_keys:
  assumes ok: "intdict_ok M d" and ord: "intdict_ordered d" and i: "i < length (intdict_keys d)"
  shows "(fst (intdict_bisect_left d lo) \<le> i \<and> i < fst (intdict_bisect_right d hi)) =
         (lo \<le> intdict_keys d ! i \<and> intdict_keys d ! i \<le> hi)"
proof -
  have srt: "sorted (intdict_keys d)" using ord by (simp add: intdict_ordered_sorted)
  have "(i < fst (intdict_bisect_left d lo)) = (intdict_keys d ! i < lo)"
    unfolding intdict_bisect_left_index[OF ok ord]
    by (rule takeWhile_index_iff[OF srt i]) simp
  moreover have "(i < fst (intdict_bisect_right d hi)) = (intdict_keys d ! i \<le> hi)"
    unfolding intdict_bisect_right_index[OF ok ord]
    by (rule takeWhile_index_iff[OF srt i]) simp
  ultimately show ?thesis by auto
qed

lemma strdict_range_keys:
  assumes ok: "strdict_ok M d" and ord: "strdict_ordered d" and i: "i < length (strdict_keys d)"
  shows "(fst (strdict_bisect_left M ok1 d lo) \<le> i \<and> i < fst (strdict_bisect_right M ok2 d hi)) =
         (strkey (ptr_text lo) \<le> strdict_keys d ! i \<and> strdict_keys d ! i \<le> strkey (ptr_text hi))"
proof -
  have srt: "sorted (strdict_keys d)" using ord by (simp add: strdict_ordered_sorted)
  have "(i < fst (strdict_bisect_left M ok1 d lo)) = (strdict_keys d ! i < strkey (ptr_text lo))"
    unfolding strdict_bisect_left_index[OF ok ord]
    by (rule takeWhile_index_iff[OF srt i]) simp
  moreover have "(i < fst (strdict_bisect_right M ok2 d hi)) = (strdict_keys d ! i \<le> strkey (ptr_text hi))"
    unfolding strdict_bisect_right_index[OF ok ord]
    by (rule takeWhile_index_iff[OF srt i]) simp
  ultimately show ?thesis by auto
qed

lemma stringbuffer_truncate_0:
  assumes "stringbuffer_ok b"
  shows "stringbuffer_get_pointer (stringbuffer_truncate b 0) = []"
    and "string_len (stringbuffer_truncate b 0) = 0"
    and "stringbuffer_ok (stringbuffer_truncate b 0)"
  using assms
  by (auto simp: stringbuffer_ok_def stringbuffer_truncate_def set_len_def stringbuffer_get_pointer_def
      split: option.splits)

lemma stringbuffer_append_all_copy:
  assumes ok: "stringbuffer_ok b" and len: "string_len b = 0" and fits: "length t \<le> M"
    and copied: "stringbuffer_append_all M okb b t = (True, b')"
  shows "stringbuffer_get_pointer b' = t" and "stringbuffer_ok b'"
  using assms
  by (auto simp: stringbuffer_append_all_def stringbuffer_append_def stringbuffer_prepare_append_def
      ensure_size_def realloc_buffer_def stringbuffer_get_pointer_def stringbuffer_ok_def Let_def
      min_def split: if_splits option.splits prod.splits bool.splits)

lemma stricmp_refl: "stricmp t t = 0"
  using stricmp_eq_iff[of t t] by simp

lemma intdict_bisect_left_cache:
  assumes ok: "intdict_ok M d" and arr: "array d = Some a" and pos: "0 < nitems d"
  shows "int_cache_slot d a k < nitems d"
    and "candidate (snd (intdict_bisect_left d k)) = Some (int_cache_slot d a k)"
    and "sought_key (snd (intdict_bisect_left d k)) = k"
    and "fst (intdict_bisect_left d k) =
           (if item_key (a (int_cache_slot d a k)) < k
            then int_search_forward a (nitems d) k (int_cache_slot d a k)
            else int_search_backward a k (int_cache_slot d a k))"
proof -
  from intdict_bisect_left_nonempty[OF ok arr pos, of k]
  obtain c where c: "c < nitems d"
    "snd (intdict_bisect_left d k) = d\<lparr>sought_key := k, candidate := Some c\<rparr>"
    "fst (intdict_bisect_left d k) =
       (if item_key (a c) < k then int_search_forward a (nitems d) k c
        else int_search_backward a k c)"
    "candidate d \<noteq> None \<and> sought_key d = k \<longrightarrow> candidate d = Some c"
    "\<not> (candidate d \<noteq> None \<and> sought_key d = k) \<longrightarrow>
       c = last (probes (int_compare a k) 0 (nitems d))"
    by blast
  have slot: "int_cache_slot d a k = c"
    using c(4,5) by (auto simp: int_cache_slot_def split: option.splits)
  show "int_cache_slot d a k < nitems d" using c(1) slot by simp
  show "candidate (snd (intdict_bisect_left d k)) = Some (int_cache_slot d a k)"
    using c(2) slot by simp
  show "sought_key (snd (intdict_bisect_left d k)) = k" using c(2) by simp
  show "fst (intdict_bisect_left d k) =
           (if item_key (a (int_cache_slot d a k)) < k
            then int_search_forward a (nitems d) k (int_cache_slot d a k)
            else int_search_backward a k (int_cache_slot d a k))"
    using c(3) slot by simp
qed

lemma strdict_bisect_left_cache:
  assumes ok: "strdict_ok M d" and arr: "s_array d = Some a" and pos: "0 < s_nitems d"
    and bok: "stringbuffer_ok (s_buffer d)" and fits: "length (ptr_text k) \<le> M"
  shows "str_cache_slot d a k < s_nitems d"
    and "fst (strdict_bisect_left M okb d k) = str_correction a (s_nitems d) k (str_cache_slot d a k)"
    and "str_cache_cleared M okb d k \<Longrightarrow>
           s_candidate (snd (strdict_bisect_left M okb d k)) = None \<and>
           s_sought_key (snd (strdict_bisect_left M okb d k)) = SoughtNull"
    and "\<not> str_cache_cleared M okb d k \<Longrightarrow>
           s_candidate (snd (strdict_bisect_left M okb d k)) = Some (str_cache_slot d a k) \<and>
           stricmp (sought_string (snd (strdict_bisect_left M okb d k))) (ptr_text k) = 0"
proof -
  have "str_cache_slot d a k < s_nitems d \<and>
        fst (strdict_bisect_left M okb d k) = str_correction a (s_nitems d) k (str_cache_slot d a k) \<and>
        (if str_cache_cleared M okb d k
         then s_candidate (snd (strdict_bisect_left M okb d k)) = None \<and>
              s_sought_key (snd (strdict_bisect_left M okb d k)) = SoughtNull
         else s_candidate (snd (strdict_bisect_left M okb d k)) = Some (str_cache_slot d a k) \<and>
              stricmp (sought_string (snd (strdict_bisect_left M okb d k))) (ptr_text k) = 0)"
    using ok arr pos
  proof (cases rule: strdict_bisect_left_cases[where k = k and okb = okb])
    case (reuse c)
    have slot: "str_cache_slot d a k = c"
      using reuse(1,3) by (simp add: str_cache_slot_def)
    have cl: "str_cache_cleared M okb d k = sought_is d k"
      using reuse(1,3) by (simp add: str_cache_cleared_def)
    show ?thesis using reuse by (simp add: slot cl)
  next
    case (search c copied b)
    have ptr: "copied \<Longrightarrow> stringbuffer_get_pointer b = ptr_text k"
      using stringbuffer_append_all_copy(1)[OF stringbuffer_truncate_0(3)[OF bok]
          stringbuffer_truncate_0(2)[OF bok] fits] search(3) by simp
    have slot: "str_cache_slot d a k = c"
      using search(2,4) ptr by (auto simp: str_cache_slot_def split: option.splits)
    have cl: "str_cache_cleared M okb d k =
        (\<not> (copied \<and> \<not> (buffer b = None \<and> ptr_addr empty_literal = ptr_addr k)))"
      using search(2,3) by (auto simp: str_cache_cleared_def)
    have ss: "copied \<Longrightarrow>
        sought_string (d\<lparr>s_buffer := b, s_sought_key := buffer_pointer b, s_candidate := Some c\<rparr>) =
        ptr_text k"
      using ptr
      by (auto simp: sought_string_def buffer_pointer_def stringbuffer_get_pointer_def
          empty_literal_def split: option.splits)
    show ?thesis
      unfolding slot cl search(5) using search(1) ss by (auto simp: stricmp_refl)
  qed
  then show "str_cache_slot d a k < s_nitems d"
    and "fst (strdict_bisect_left M okb d k) = str_correction a (s_nitems d) k (str_cache_slot d a k)"
    and "str_cache_cleared M okb d k \<Longrightarrow>
           s_candidate (snd (strdict_bisect_left M okb d k)) = None \<and>
           s_sought_key (snd (strdict_bisect_left M okb d k)) = SoughtNull"
    and "\<not> str_cache_cleared M okb d k \<Longrightarrow>
           s_candidate (snd (strdict_bisect_left M okb d k)) = Some (str_cache_slot d a k) \<and>
           stricmp (sought_string (snd (strdict_bisect_left M okb d k))) (ptr_text k) = 0"
    by simp_all
qed

lemma int_search_backward_numeral:
  "int_search_backward a k (numeral n) =
     (if item_key (a (pred_numeral n)) \<ge> k then int_search_backward a k (pred_numeral n)
      else numeral n)"
  by (simp add: numeral_eq_Suc)

lemma str_search_backward_numeral:
  "str_search_backward a k (numeral n) =
     (if stricmp (ptr_text (sitem_key (a (pred_numeral n)))) (ptr_text k) \<ge> 0
      then str_search_backward a k (pred_numeral n) else numeral n)"
  by (simp add: numeral_eq_Suc)

lemma example_dict_bisect_cache:
  "fst (intdict_bisect_left example_dict 3) = 1"
  "candidate (snd (intdict_bisect_left example_dict 3)) = Some 2"
  "sought_key (snd (intdict_bisect_left example_dict 3)) = 3"
  "fst (intdict_bisect_left example_dict 7) = 5"
  "candidate (snd (intdict_bisect_left example_dict 7)) = Some 4"
  "sought_key (snd (intdict_bisect_left example_dict 7)) = 7"
  by (simp_all add: example_dict_def block_of_def intdict_eval int_search_backward_numeral)

lemma str_example_dict_bisect_cache:
  "fst (strdict_bisect_left 65535 True str_example_dict (key_at 9 ''zebra'')) = 3"
  "s_candidate (snd (strdict_bisect_left 65535 True str_example_dict (key_at 9 ''zebra''))) = Some 2"
  "s_sought_key (snd (strdict_bisect_left 65535 True str_example_dict (key_at 9 ''zebra''))) = SoughtBuffer"
  "sought_string (snd (strdict_bisect_left 65535 True str_example_dict (key_at 9 ''zebra''))) = ''zebra''"
  by (simp_all add: str_example_dict_def block_of_def strdict_eval
      str_search_backward_numeral)

lemma int_search_forward_gt: "c < int_search_forward a n k c"
proof (induction a n k c rule: int_search_forward.induct)
  case (1 a n k index)
  show ?case
  proof (cases "index + 1 < n \<and> item_key (a (index + 1)) < k")
    case True
    with 1 have "index + 1 < int_search_forward a n k (index + 1)" by simp
    then show ?thesis using True by (subst int_search_forward.simps) simp
  next
    case False
    then show ?thesis by (subst int_search_forward.simps) auto
  qed
qed

lemma int_search_backward_le: "int_search_backward a k c \<le> c"
  by (induction c) (auto intro: le_SucI)

lemma int_search_backward_fixed:
  "(int_search_backward a k c = c) = (c = 0 \<or> item_key (a (c - 1)) < k)"
proof (cases c)
  case 0
  then show ?thesis by simp
next
  case (Suc i)
  have "int_search_backward a k i \<noteq> Suc i"
    using int_search_backward_le[of a k i] by simp
  then show ?thesis using Suc by auto
qed

lemma str_search_forward_gt: "c < str_search_forward a n k c"
proof (induction a n k c rule: str_search_forward.induct)
  case (1 a n k index)
  show ?case
  proof (cases "index + 1 < n \<and> stricmp (ptr_text (sitem_key (a (index + 1)))) (ptr_text k) < 0")
    case True
    with 1 have "index + 1 < str_search_forward a n k (index + 1)" by simp
    then show ?thesis using True by (subst str_search_forward.simps) simp
  next
    case False
    then show ?thesis by (subst str_search_forward.simps) auto
  qed
qed

lemma str_search_backward_le: "str_search_backward a k c \<le> c"
  by (induction c) (auto intro: le_SucI)

lemma str_search_backward_fixed:
  "(str_search_backward a k c = c) =
   (c = 0 \<or> stricmp (ptr_text (sitem_key (a (c - 1)))) (ptr_text k) < 0)"
proof (cases c)
  case 0
  then show ?thesis by simp
next
  case (Suc i)
  have "str_search_backward a k i \<noteq> Suc i"
    using str_search_backward_le[of a k i] by simp
  then show ?thesis using Suc by auto
qed

lemma int_correction_fixed:
  "((if item_key (a c) < k then int_search_forward a n k c else int_search_backward a k c) = c) =
   (k \<le> item_key (a c) \<and> (c = 0 \<or> item_key (a (c - 1)) < k))"
  using int_search_forward_gt[of c a n k] int_search_backward_fixed[of a k c] by auto

lemma str_correction_fixed:
  "(str_correction a n k c = c) =
   (0 \<le> stricmp (ptr_text (sitem_key (a c))) (ptr_text k) \<and>
    (c = 0 \<or> stricmp (ptr_text (sitem_key (a (c - 1)))) (ptr_text k) < 0))"
  using str_search_forward_gt[of c a n k] str_search_backward_fixed[of a k c]
  by (auto simp: str_correction_def)

lemma example_dict_array:
  "array example_dict = Some (block_of \<lparr>item_key = 0, item_value = None\<rparr>
        [\<lparr>item_key = 1, item_value = Some 10\<rparr>, \<lparr>item_key = 3, item_value = Some 11\<rparr>,
         \<lparr>item_key = 3, item_value = None\<rparr>, \<lparr>item_key = 4, item_value = Some 13\<rparr>,
         \<lparr>item_key = 6, item_value = Some 14\<rparr>])"
  "0 < nitems example_dict"
  by (simp_all add: example_dict_def)

lemma str_example_dict_array:
  "s_array str_example_dict = Some (block_of \<lparr>sitem_key = key_at 0 [], sitem_value = None\<rparr>
        [\<lparr>sitem_key = key_at 100 ''Aardvark'', sitem_value = Some 20\<rparr>,
         \<lparr>sitem_key = key_at 101 ''bison'', sitem_value = None\<rparr>,
         \<lparr>sitem_key = key_at 102 ''Camel'', sitem_value = Some 22\<rparr>])"
  "0 < s_nitems str_example_dict"
  "stringbuffer_ok (s_buffer str_example_dict)"
  "no_raw_key str_example_dict"
  "s_candidate str_example_dict = None"
  by (simp_all add: str_example_dict_def stringbuffer_ok_def stringbuffer_init_def no_raw_key_def)

lemma zebra_copy:
  "fst (stringbuffer_append_all 65535 True (stringbuffer_truncate (s_buffer str_example_dict) 0)
      (ptr_text (key_at 9 ''zebra'')))"
  "length (ptr_text (key_at 9 ''zebra'')) \<le> 65535"
  "ptr_text (key_at 9 ''zebra'') = ''zebra''"
  by (simp_all add: str_example_dict_def strdict_eval)

lemma cached_calls_unfold:
  "take 5 cached_calls =
     [Insert 5 (Some 1) (Some zeroed_items), Insert 3 None None, Insert 7 (Some 2) None,
      Insert 5 (Some 3) None, BisectLeft 5]"
  "take 4 str_cached_calls =
     [SInsert (key_at 100 ''bison'') (Some 1) True (Some str_zeroed_items),
      SInsert (key_at 101 ''Camel'') (Some 2) True None,
      SInsert (key_at 102 ''aardvark'') (Some 3) True None,
      SBisectLeft (key_at 200 ''camel'') True]"
  by (simp_all add: cached_calls_def str_cached_calls_def)

lemma cached_calls_run:
  "\<exists>d. intdict_run 65535 8 intdict_init cached_calls =
         Some ([Some 0, Some 0, Some 2, Some 1, Some 1, Some 1, Some 3, Some 1], d) \<and>
       intdict_keys d = [3, 5, 5, 7] \<and> candidate d = Some 2 \<and> sought_key d = 5"
  "\<exists>d. intdict_run 65535 8 intdict_init (take 5 cached_calls) =
         Some ([Some 0, Some 0, Some 2, Some 1, Some 1], d) \<and>
       candidate d = Some 2 \<and> sought_key d = 5"
  by (simp_all add: cached_calls_unfold, simp_all add: cached_calls_def intdict_eval int_search_backward_numeral)

lemma str_cached_calls_run:
  "\<exists>s. strdict_run 65535 8 strdict_init str_cached_calls =
         Some ([Some 0, Some 1, Some 0, Some 2, Some 2, Some 3, Some 2], s) \<and>
       s_candidate s = Some 2 \<and> s_sought_key s = SoughtBuffer \<and> sought_string s = ''camel''"
  "\<exists>s. strdict_run 65535 8 strdict_init (take 4 str_cached_calls) =
         Some ([Some 0, Some 1, Some 0, Some 2], s) \<and>
       s_candidate s = Some 2 \<and> s_sought_key s = SoughtBuffer \<and> sought_string s = ''camel''"
  by (simp_all add: cached_calls_unfold, simp_all add: str_cached_calls_def strdict_eval str_search_backward_numeral)

lemma new_size_pos: "c \<le> M \<Longrightarrow> 0 < M \<Longrightarrow> 0 < new_size M c"
  by (auto simp: new_size_def ArrayInitSize_def ArrayGrowthFactor_def)

lemma intdict_insert_total:
  assumes ok: "intdict_ok M d" and ord: "intdict_ordered d" and S: "0 < S"
  shows "nitems d = nalloc d \<and>
         (nalloc d = M \<or> (mem = None \<and> realloc_bytes M S (new_size M (nalloc d)) \<noteq> 0)) \<Longrightarrow>
           intdict_insert M S mem d k v = Inr (None, snd (intdict_bisect_left d k))"
    and "nitems d \<noteq> nalloc d \<or>
         (nalloc d \<noteq> M \<and> mem \<noteq> None \<and> new_size M (nalloc d) * S \<le> M) \<Longrightarrow>
           \<exists>d'. intdict_insert M S mem d k v = Inr (Some (fst (intdict_bisect_left d k)), d') \<and>
             intdict_entries d' =
               take (fst (intdict_bisect_left d k)) (intdict_entries d) @
               [\<lparr>item_key = k, item_value = v\<rparr>] @
               drop (fst (intdict_bisect_left d k)) (intdict_entries d) \<and>
             nitems d' = nitems d + 1 \<and>
             nalloc d' = (if nitems d = nalloc d then new_size M (nalloc d) else nalloc d) \<and>
             candidate d' = None \<and> array d' \<noteq> None"
    and "nitems d = nalloc d \<and> nalloc d \<noteq> M \<and> M < new_size M (nalloc d) * S \<and>
         (mem \<noteq> None \<or> realloc_bytes M S (new_size M (nalloc d)) = 0) \<Longrightarrow>
           intdict_insert M S mem d k v =
             Inl (if realloc_bytes M S (new_size M (nalloc d)) = 0 then ReallocZero else Overrun)"
proof -
  let ?N = "new_size M (nalloc d)"
  let ?B = "realloc_bytes M S ?N"
  show "nitems d = nalloc d \<and> (nalloc d = M \<or> (mem = None \<and> ?B \<noteq> 0)) \<Longrightarrow>
           intdict_insert M S mem d k v = Inr (None, snd (intdict_bisect_left d k))"
    using intdict_insert_fail[OF ok] by blast
  show "nitems d \<noteq> nalloc d \<or> (nalloc d \<noteq> M \<and> mem \<noteq> None \<and> ?N * S \<le> M) \<Longrightarrow>
           \<exists>d'. intdict_insert M S mem d k v = Inr (Some (fst (intdict_bisect_left d k)), d') \<and>
             intdict_entries d' =
               take (fst (intdict_bisect_left d k)) (intdict_entries d) @
               [\<lparr>item_key = k, item_value = v\<rparr>] @
               drop (fst (intdict_bisect_left d k)) (intdict_entries d) \<and>
             nitems d' = nitems d + 1 \<and>
             nalloc d' = (if nitems d = nalloc d then ?N else nalloc d) \<and>
             candidate d' = None \<and> array d' \<noteq> None"
  proof -
    assume a: "nitems d \<noteq> nalloc d \<or> (nalloc d \<noteq> M \<and> mem \<noteq> None \<and> ?N * S \<le> M)"
    have can: "nitems d = nalloc d \<longrightarrow>
                nalloc d \<noteq> M \<and> mem \<noteq> None \<and> ?B \<noteq> 0 \<and> \<not> ?B div S < ?N"
    proof
      assume full: "nitems d = nalloc d"
      with a have b: "nalloc d \<noteq> M" "mem \<noteq> None" "?N * S \<le> M" by simp_all
      have "nalloc d \<le> M" using ok by (simp add: intdict_ok_def)
      with b(1) have "0 < M" by simp
      then have "0 < ?N" using \<open>nalloc d \<le> M\<close> by (intro new_size_pos)
      then have "?B \<noteq> 0" using b(3) S by (simp add: realloc_bytes_exact)
      moreover have "\<not> ?B div S < ?N" using realloc_bytes_room[OF S, of M ?N] b(3) by simp
      ultimately show "nalloc d \<noteq> M \<and> mem \<noteq> None \<and> ?B \<noteq> 0 \<and> \<not> ?B div S < ?N"
        using b by simp
    qed
    from intdict_insert_success[OF ok ord can] show ?thesis .
  qed
  show "nitems d = nalloc d \<and> nalloc d \<noteq> M \<and> M < ?N * S \<and> (mem \<noteq> None \<or> ?B = 0) \<Longrightarrow>
           intdict_insert M S mem d k v = Inl (if ?B = 0 then ReallocZero else Overrun)"
  proof -
    assume a: "nitems d = nalloc d \<and> nalloc d \<noteq> M \<and> M < ?N * S \<and> (mem \<noteq> None \<or> ?B = 0)"
    show ?thesis
    proof (cases "?B = 0")
      case True
      then show ?thesis using intdict_insert_fault(1)[OF ok] a by simp
    next
      case False
      with a obtain fresh where mem: "mem = Some fresh" by auto
      have "?B div S < ?N" using realloc_bytes_room[OF S, of M ?N] a by simp
      then show ?thesis using intdict_insert_fault(2)[OF ok _ _ False mem] a False by simp
    qed
  qed
qed

lemma strdict_insert_total:
  assumes ok: "strdict_ok M d" and ord: "strdict_ordered d" and S: "0 < S"
  shows "s_nitems d = s_nalloc d \<and>
         (s_nalloc d = M \<or> (mem = None \<and> realloc_bytes M S (new_size M (s_nalloc d)) \<noteq> 0)) \<Longrightarrow>
           strdict_insert M S okb mem d k v = Inr (None, snd (strdict_bisect_left M okb d k))"
    and "s_nitems d \<noteq> s_nalloc d \<or>
         (s_nalloc d \<noteq> M \<and> mem \<noteq> None \<and> new_size M (s_nalloc d) * S \<le> M) \<Longrightarrow>
           \<exists>d'. strdict_insert M S okb mem d k v =
                  Inr (Some (fst (strdict_bisect_left M okb d k)), d') \<and>
             strdict_entries d' =
               take (fst (strdict_bisect_left M okb d k)) (strdict_entries d) @
               [\<lparr>sitem_key = k, sitem_value = v\<rparr>] @
               drop (fst (strdict_bisect_left M okb d k)) (strdict_entries d) \<and>
             s_nitems d' = s_nitems d + 1 \<and>
             s_nalloc d' = (if s_nitems d = s_nalloc d then new_size M (s_nalloc d) else s_nalloc d) \<and>
             s_candidate d' = None \<and> s_array d' \<noteq> None"
    and "s_nitems d = s_nalloc d \<and> s_nalloc d \<noteq> M \<and> M < new_size M (s_nalloc d) * S \<and>
         (mem \<noteq> None \<or> realloc_bytes M S (new_size M (s_nalloc d)) = 0) \<Longrightarrow>
           strdict_insert M S okb mem d k v =
             Inl (if realloc_bytes M S (new_size M (s_nalloc d)) = 0 then ReallocZero else Overrun)"
proof -
  let ?N = "new_size M (s_nalloc d)"
  let ?B = "realloc_bytes M S ?N"
  show "s_nitems d = s_nalloc d \<and> (s_nalloc d = M \<or> (mem = None \<and> ?B \<noteq> 0)) \<Longrightarrow>
           strdict_insert M S okb mem d k v = Inr (None, snd (strdict_bisect_left M okb d k))"
    using strdict_insert_fail[OF ok] by blast
  show "s_nitems d \<noteq> s_nalloc d \<or> (s_nalloc d \<noteq> M \<and> mem \<noteq> None \<and> ?N * S \<le> M) \<Longrightarrow>
           \<exists>d'. strdict_insert M S okb mem d k v =
                  Inr (Some (fst (strdict_bisect_left M okb d k)), d') \<and>
             strdict_entries d' =
               take (fst (strdict_bisect_left M okb d k)) (strdict_entries d) @
               [\<lparr>sitem_key = k, sitem_value = v\<rparr>] @
               drop (fst (strdict_bisect_left M okb d k)) (strdict_entries d) \<and>
             s_nitems d' = s_nitems d + 1 \<and>
             s_nalloc d' = (if s_nitems d = s_nalloc d then ?N else s_nalloc d) \<and>
             s_candidate d' = None \<and> s_array d' \<noteq> None"
  proof -
    assume a: "s_nitems d \<noteq> s_nalloc d \<or> (s_nalloc d \<noteq> M \<and> mem \<noteq> None \<and> ?N * S \<le> M)"
    have can: "s_nitems d = s_nalloc d \<longrightarrow>
                s_nalloc d \<noteq> M \<and> mem \<noteq> None \<and> ?B \<noteq> 0 \<and> \<not> ?B div S < ?N"
    proof
      assume full: "s_nitems d = s_nalloc d"
      with a have b: "s_nalloc d \<noteq> M" "mem \<noteq> None" "?N * S \<le> M" by simp_all
      have "s_nalloc d \<le> M" using ok by (simp add: strdict_ok_def)
      with b(1) have "0 < M" by simp
      then have "0 < ?N" using \<open>s_nalloc d \<le> M\<close> by (intro new_size_pos)
      then have "?B \<noteq> 0" using b(3) S by (simp add: realloc_bytes_exact)
      moreover have "\<not> ?B div S < ?N" using realloc_bytes_room[OF S, of M ?N] b(3) by simp
      ultimately show "s_nalloc d \<noteq> M \<and> mem \<noteq> None \<and> ?B \<noteq> 0 \<and> \<not> ?B div S < ?N"
        using b by simp
    qed
    from strdict_insert_success[OF ok ord can] show ?thesis .
  qed
  show "s_nitems d = s_nalloc d \<and> s_nalloc d \<noteq> M \<and> M < ?N * S \<and> (mem \<noteq> None \<or> ?B = 0) \<Longrightarrow>
           strdict_insert M S okb mem d k v = Inl (if ?B = 0 then ReallocZero else Overrun)"
  proof -
    assume a: "s_nitems d = s_nalloc d \<and> s_nalloc d \<noteq> M \<and> M < ?N * S \<and> (mem \<noteq> None \<or> ?B = 0)"
    show ?thesis
    proof (cases "?B = 0")
      case True
      then show ?thesis using strdict_insert_fault(1)[OF ok] a by simp
    next
      case False
      with a obtain fresh where mem: "mem = Some fresh" by auto
      have "?B div S < ?N" using realloc_bytes_room[OF S, of M ?N] a by simp
      then show ?thesis using strdict_insert_fault(2)[OF ok _ _ False mem] a False by simp
    qed
  qed
qed

lemma intdict_run_append:
  "intdict_run M S d (xs @ ys) =
     (case intdict_run M S d xs of
        None \<Rightarrow> None
      | Some (rs, d1) \<Rightarrow>
          (case intdict_run M S d1 ys of
             None \<Rightarrow> None
           | Some (rs', d2) \<Rightarrow> Some (rs @ rs', d2)))"
  by (induction xs arbitrary: d) (auto split: option.splits)

text \<open>Appending the key \<open>n\<close> to a dictionary whose keys are \<open>0, ..., n - 1\<close>.\<close>

lemma append_key:
  assumes M: "4 \<le> M" and S: "0 < S" and ok: "intdict_ok M d" and ord: "intdict_ordered d"
    and keys: "intdict_keys d = map int [0..<n]"
    and room: "nitems d \<noteq> nalloc d \<or> (nalloc d \<noteq> M \<and> new_size M (nalloc d) * S \<le> M)"
  shows "\<exists>d'. intdict_step M S d (Insert (int n) v (Some fresh)) = Some (Some n, d') \<and>
           intdict_ok M d' \<and> intdict_ordered d' \<and> intdict_keys d' = map int [0..<Suc n] \<and>
           nalloc d' = (if nitems d = nalloc d then new_size M (nalloc d) else nalloc d)"
proof -
  have "takeWhile (\<lambda>x. x < int n) (map int [0..<n]) = map int [0..<n]"
    by (rule takeWhile_eq_all_conv[THEN iffD2]) auto
  then have "length (takeWhile (\<lambda>x. x < int n) (map int [0..<n])) = length (map int [0..<n])"
    by (simp only:)
  then have idx: "fst (intdict_bisect_left d (int n)) = n"
    unfolding intdict_bisect_left_index[OF ok ord] keys by (simp only: length_map length_upt)
  have len: "length (intdict_entries d) = n"
    using keys by (metis intdict_keys_entries length_map length_upt minus_nat.diff_0)
  from intdict_insert_total(2)[OF ok ord S, of "Some fresh" "int n" v] room
  obtain d' where d': "intdict_insert M S (Some fresh) d (int n) v = Inr (Some n, d')"
    "intdict_entries d' = intdict_entries d @ [\<lparr>item_key = int n, item_value = v\<rparr>]"
    "nalloc d' = (if nitems d = nalloc d then new_size M (nalloc d) else nalloc d)"
    unfolding idx using len by auto
  have inv: "intdict_ok M d'" "intdict_ordered d'"
    using intdict_insert_inv[OF M ok ord d'(1)] by simp_all
  have "intdict_keys d' = map int [0..<Suc n]"
    using d'(2) keys by (simp add: intdict_keys_entries)
  with d' inv show ?thesis by (intro exI[of _ d']) simp
qed

lemma append_keys:
  assumes M: "4 \<le> M" and S: "0 < S" and ok: "intdict_ok M d" and ord: "intdict_ordered d"
    and keys: "intdict_keys d = map int [0..<a]"
    and room: "a \<noteq> nalloc d \<or> (nalloc d \<noteq> M \<and> new_size M (nalloc d) * S \<le> M)"
    and C: "C = (if a = nalloc d then new_size M (nalloc d) else nalloc d)"
  shows "a + m < C \<Longrightarrow>
         \<exists>d'. intdict_run M S d (map (\<lambda>i. Insert (int i) None (Some zeroed_items)) [a..<a + Suc m]) =
                 Some (map Some [a..<a + Suc m], d') \<and>
           intdict_ok M d' \<and> intdict_ordered d' \<and> intdict_keys d' = map int [0..<a + Suc m] \<and>
           nalloc d' = C"
proof (induction m)
  case 0
  have na: "nitems d = a"
    using keys intdict_entries_length[OF ok] by (metis intdict_keys_entries length_map length_upt minus_nat.diff_0)
  from append_key[OF M S ok ord keys, of None zeroed_items] room na C
  show ?case by (auto split: option.splits)
next
  case (Suc m)
  then obtain d1 where d1:
    "intdict_run M S d (map (\<lambda>i. Insert (int i) None (Some zeroed_items)) [a..<a + Suc m]) =
       Some (map Some [a..<a + Suc m], d1)"
    "intdict_ok M d1" "intdict_ordered d1" "intdict_keys d1 = map int [0..<a + Suc m]"
    "nalloc d1 = C" by auto
  have n1: "nitems d1 = a + Suc m"
    using d1(4) intdict_entries_length[OF d1(2)]
    by (metis intdict_keys_entries length_map length_upt minus_nat.diff_0)
  have room1: "nitems d1 \<noteq> nalloc d1 \<or> (nalloc d1 \<noteq> M \<and> new_size M (nalloc d1) * S \<le> M)"
    using n1 d1(5) Suc.prems by simp
  from append_key[OF M S d1(2,3,4) room1, of None zeroed_items]
  obtain d2 where d2:
    "intdict_step M S d1 (Insert (int (a + Suc m)) None (Some zeroed_items)) = Some (Some (a + Suc m), d2)"
    "intdict_ok M d2" "intdict_ordered d2" "intdict_keys d2 = map int [0..<Suc (a + Suc m)]"
    "nalloc d2 = nalloc d1"
    using n1 d1(5) Suc.prems by auto
  have split: "[a..<a + Suc (Suc m)] = [a..<a + Suc m] @ [a + Suc m]" by simp
  show ?case
    unfolding split map_append intdict_run_append d1(1)
    using d2 d1(5) by simp
qed

lemma insert_calls_split:
  "a \<le> b \<Longrightarrow> insert_calls b =
     insert_calls a @ map (\<lambda>i. Insert (int i) None (Some zeroed_items)) [a..<b]"
  unfolding insert_calls_def map_append[symmetric]
  by (metis le_add_diff_inverse upt_add_eq_append zero_le)

text \<open>
  \<open>4 * 2 ^ j\<close> insertions fill a block of as many slots, if such a block fits in memory.
\<close>

lemma insert_calls_fill:
  assumes M: "M = 2 ^ w - 1" "3 \<le> w" and S: "0 < S"
  shows "4 * 2 ^ j * S \<le> M \<Longrightarrow>
         \<exists>d. intdict_run M S intdict_init (insert_calls (4 * 2 ^ j)) =
                Some (map Some [0..<4 * 2 ^ j], d) \<and>
           intdict_ok M d \<and> intdict_ordered d \<and> intdict_keys d = map int [0..<4 * 2 ^ j] \<and>
           nitems d = 4 * 2 ^ j \<and> nalloc d = 4 * 2 ^ j"
proof (induction j)
  case 0
  have M4: "4 \<le> M" using size_max_shape[OF M(2)] M(1) by auto
  have inv0: "intdict_ok M intdict_init" "intdict_ordered intdict_init"
    using intdict_init_inv[of M] by simp_all
  have k0: "intdict_keys intdict_init = map int [0..<0]"
    by (simp add: intdict_keys_def intdict_entries_def intdict_init_def)
  have n0: "new_size M (nalloc intdict_init) = 4"
    by (simp add: new_size_def intdict_init_def ArrayInitSize_def)
  have room: "0 \<noteq> nalloc intdict_init \<or>
      (nalloc intdict_init \<noteq> M \<and> new_size M (nalloc intdict_init) * S \<le> M)"
    using 0 M4 n0 by (simp add: intdict_init_def)
  from append_keys[OF M4 S inv0 k0 room, of 4 3] n0
  obtain d where d: "intdict_run M S intdict_init (insert_calls 4) = Some (map Some [0..<4], d)"
    "intdict_ok M d" "intdict_ordered d" "intdict_keys d = map int [0..<4]" "nalloc d = 4"
    by (auto simp: insert_calls_def intdict_init_def)
  have "nitems d = 4"
    using d(4) intdict_entries_length[OF d(2)]
    by (metis intdict_keys_entries length_map length_upt minus_nat.diff_0)
  with d show ?case by simp
next
  case (Suc j)
  define c :: nat where "c = 4 * 2 ^ j"
  have c2: "4 * 2 ^ Suc j = 2 * c" by (simp add: c_def)
  have M4: "4 \<le> M" using size_max_shape[OF M(2)] M(1) by auto
  have fit: "2 * c * S \<le> M" using Suc.prems unfolding c2 .
  have "c * S \<le> 2 * c * S" by simp
  with fit have "c * S \<le> M" by simp
  with Suc.IH obtain d where d:
    "intdict_run M S intdict_init (insert_calls c) = Some (map Some [0..<c], d)"
    "intdict_ok M d" "intdict_ordered d" "intdict_keys d = map int [0..<c]"
    "nitems d = c" "nalloc d = c"
    unfolding c_def by auto
  have cpos: "0 < c" by (simp add: c_def)
  have "2 * c * 1 \<le> 2 * c * S" using S by (intro mult_le_mono2) simp
  then have "2 * c \<le> 2 * c * S" by (simp only: mult_1_right)
  from this fit have half: "2 * c \<le> M" by (rule le_trans)
  have "c \<noteq> M" using half cpos by simp
  moreover have "4 dvd c" by (simp add: c_def)
  ultimately have ns: "new_size M c = 2 * c"
    using new_size_doubling[OF M, of c] half cpos by simp
  have room: "c \<noteq> nalloc d \<or> (nalloc d \<noteq> M \<and> new_size M (nalloc d) * S \<le> M)"
    using d(6) \<open>c \<noteq> M\<close> ns fit by simp
  have C: "2 * c = (if c = nalloc d then new_size M (nalloc d) else nalloc d)"
    using d(6) ns by simp
  obtain m where m: "c = Suc m" using cpos by (cases c) auto
  have lt: "c + m < 2 * c" using m by simp
  from append_keys[OF M4 S d(2,3,4) room C lt]
  obtain d' where d':
    "intdict_run M S d (map (\<lambda>i. Insert (int i) None (Some zeroed_items)) [c..<c + Suc m]) =
       Some (map Some [c..<c + Suc m], d')"
    "intdict_ok M d'" "intdict_ordered d'" "intdict_keys d' = map int [0..<c + Suc m]"
    "nalloc d' = 2 * c" by blast
  have e: "c + Suc m = 2 * c" using m by simp
  have n': "nitems d' = 2 * c"
    using d'(4) intdict_entries_length[OF d'(2)] e
    by (metis intdict_keys_entries length_map length_upt minus_nat.diff_0)
  have up: "[0..<2 * c] = [0..<c] @ [c..<2 * c]"
    by (metis mult_2 upt_add_eq_append zero_le)
  have run2: "intdict_run M S d (map (\<lambda>i. Insert (int i) None (Some zeroed_items)) [c..<2 * c]) =
       Some (map Some [c..<2 * c], d')"
    using d'(1) unfolding e .
  have sp: "insert_calls (2 * c) =
      insert_calls c @ map (\<lambda>i. Insert (int i) None (Some zeroed_items)) [c..<2 * c]"
    by (rule insert_calls_split) simp
  have "intdict_run M S intdict_init (insert_calls (2 * c)) = Some (map Some [0..<2 * c], d')"
    by (simp only: sp intdict_run_append d(1) run2 up option.case prod.case map_append)
  moreover have "intdict_keys d' = map int [0..<2 * c]" using d'(4) unfolding e .
  ultimately show ?case using d'(2,3,5) n' unfolding c2 by simp
qed

lemma wrapped_block_overrun:
  assumes fits: "c * S \<le> M" and wraps: "M < 2 * c * S" and S: "0 < S"
  shows "realloc_bytes M S (2 * c) div S < c"
proof -
  have lt: "2 * c * S < 2 * (M + 1)" using fits by simp
  have ge: "M + 1 \<le> 2 * c * S" using wraps by simp
  have "(2 * c * S) mod (M + 1) = 2 * c * S - (M + 1)"
    using lt ge by (simp add: mod_if)
  then have "realloc_bytes M S (2 * c) = 2 * c * S - (M + 1)"
    by (simp add: realloc_bytes_def)
  also have "\<dots> < c * S" using fits ge by simp
  finally show ?thesis using S by (simp add: div_less_iff_less_mult)
qed

lemma intdict_insert_false_only:
  assumes ok: "intdict_ok M d" and ord: "intdict_ordered d"
    and res: "intdict_insert M S mem d k v = Inr (None, d')"
  shows "nitems d = nalloc d \<and> (nalloc d = M \<or> mem = None) \<and>
         intdict_entries d' = intdict_entries d \<and> nitems d' = nitems d \<and>
         nalloc d' = nalloc d \<and> array d' = array d"
  using ok ord res
proof (cases rule: intdict_insert_outcome)
  case fail
  then show ?thesis using intdict_bisect_left_fields(1-4)[OF ok, of k] by auto
next
  case success
  then show ?thesis by simp
qed

lemma strdict_insert_false_only:
  assumes ok: "strdict_ok M d" and ord: "strdict_ordered d"
    and res: "strdict_insert M S okb mem d k v = Inr (None, d')"
  shows "s_nitems d = s_nalloc d \<and> (s_nalloc d = M \<or> mem = None) \<and>
         strdict_entries d' = strdict_entries d \<and> s_nitems d' = s_nitems d \<and>
         s_nalloc d' = s_nalloc d \<and> s_array d' = s_array d"
  using ok ord res
proof (cases rule: strdict_insert_outcome)
  case fail
  then show ?thesis using strdict_bisect_left_fields(1-4)[OF ok, of okb k] by auto
next
  case success
  then show ?thesis by simp
qed

lemma full_block_16_8:
  "\<exists>d. intdict_run 65535 8 intdict_init (insert_calls 4096) = Some (map Some [0..<4096], d) \<and>
       intdict_ok 65535 d \<and> intdict_ordered d \<and> nitems d = 4096 \<and> nalloc d = 4096"
  using insert_calls_fill[of 65535 16 8 10] by auto

lemma full_block_16_6:
  "\<exists>d. intdict_run 65535 6 intdict_init (insert_calls 8192) = Some (map Some [0..<8192], d) \<and>
       intdict_ok 65535 d \<and> intdict_ordered d \<and> nitems d = 8192 \<and> nalloc d = 8192"
  using insert_calls_fill[of 65535 16 6 11] by auto

lemma full_block_32_8:
  "\<exists>d. intdict_run 4294967295 8 intdict_init (insert_calls 268435456) =
         Some (map Some [0..<268435456], d) \<and>
       intdict_ok 4294967295 d \<and> intdict_ordered d \<and> nitems d = 268435456 \<and> nalloc d = 268435456"
  using insert_calls_fill[of 4294967295 32 8 26] by auto

lemma full_block_4:
  "\<exists>d. intdict_run 65535 8 intdict_init (insert_calls 4) = Some (map Some [0..<4], d) \<and>
       intdict_ok 65535 d \<and> intdict_ordered d \<and> intdict_keys d = [0, 1, 2, 3] \<and>
       nitems d = 4 \<and> nalloc d = 4"
  using insert_calls_fill[of 65535 16 8 0] by (auto simp: upt_rec)

lemma str_example_calls_4:
  "take 4 str_example_calls =
     [SInsert (key_at 100 []) (Some 1) True (Some str_zeroed_items),
      SInsert (key_at 101 ''Aardvark'') (Some 2) False None,
      SInsert (key_at 102 ''bison'') (Some 3) True None,
      SInsert (key_at 103 ''Camel'') (Some 4) True None]"
  by (simp add: str_example_calls_def)

lemma str_full_block_4:
  "\<exists>s. strdict_run 65535 8 strdict_init (take 4 str_example_calls) =
         Some ([Some 0, Some 1, Some 2, Some 3], s) \<and>
       s_nitems s = 4 \<and> s_nalloc s = 4 \<and>
       fst (strdict_bisect_left 65535 True s (key_at 300 ''BADGER'')) = 2"
  unfolding str_example_calls_4
  by (simp add: strdict_eval str_search_backward_numeral)

lemma example_dict_cached:
  "intdict_ok 65535 (snd (intdict_bisect_left example_dict 3))"
  "array (snd (intdict_bisect_left example_dict 3)) = array example_dict"
  "nitems (snd (intdict_bisect_left example_dict 3)) = 5"
  "candidate (snd (intdict_bisect_left example_dict 3)) = Some 2"
  "sought_key (snd (intdict_bisect_left example_dict 3)) = 3"
  "fst (intdict_bisect_left (snd (intdict_bisect_left example_dict 3)) 3) = 1"
  "candidate (snd (intdict_bisect_left (snd (intdict_bisect_left example_dict 3)) 3)) = Some 2"
  using intdict_bisect_left_fields(5)[OF example_dict_ok, of 3]
  by (simp_all add: example_dict_def block_of_def intdict_eval int_search_backward_numeral)

lemma str_example_dict_cached:
  "strdict_ok 65535 (snd (strdict_bisect_left 65535 True str_example_dict (key_at 9 ''zebra'')))"
  "s_array (snd (strdict_bisect_left 65535 True str_example_dict (key_at 9 ''zebra''))) =
     s_array str_example_dict"
  "s_nitems (snd (strdict_bisect_left 65535 True str_example_dict (key_at 9 ''zebra''))) = 3"
  "stringbuffer_ok (s_buffer (snd (strdict_bisect_left 65535 True str_example_dict (key_at 9 ''zebra''))))"
  "s_candidate (snd (strdict_bisect_left 65535 True str_example_dict (key_at 9 ''zebra''))) = Some 2"
  "sought_string (snd (strdict_bisect_left 65535 True str_example_dict (key_at 9 ''zebra''))) = ''zebra''"
  "s_sought_key (snd (strdict_bisect_left 65535 True str_example_dict (key_at 9 ''zebra''))) = SoughtBuffer"
  "fst (strdict_bisect_left 65535 False
     (snd (strdict_bisect_left 65535 True str_example_dict (key_at 9 ''zebra'')))
     (key_at 10 ''ZEBRA'')) = 3"
  "s_candidate (snd (strdict_bisect_left 65535 False
     (snd (strdict_bisect_left 65535 True str_example_dict (key_at 9 ''zebra'')))
     (key_at 10 ''ZEBRA''))) = Some 2"
  using strdict_bisect_left_fields(5)[OF str_example_dict_ok, of True "key_at 9 ''zebra''"]
  by (simp_all add: str_example_dict_def block_of_def strdict_eval str_search_backward_numeral
      stringbuffer_ok_def)

lemma str_example_dict_literal:
  "fst (strdict_bisect_left 65535 True str_example_dict empty_literal) = 0"
  "s_candidate (snd (strdict_bisect_left 65535 True str_example_dict empty_literal)) = None"
  "s_sought_key (snd (strdict_bisect_left 65535 True str_example_dict empty_literal)) = SoughtNull"
  "s_candidate (snd (strdict_bisect_left 65535 True str_example_dict (key_at 11 []))) = Some 0"
  "s_sought_key (snd (strdict_bisect_left 65535 True str_example_dict (key_at 11 []))) = SoughtLiteral"
  "str_cache_cleared 65535 True str_example_dict empty_literal"
  "\<not> str_cache_cleared 65535 True str_example_dict (key_at 11 [])"
  by (simp_all add: str_example_dict_def block_of_def strdict_eval str_search_backward_numeral
      str_cache_cleared_def)

section \<open>The claims\<close>

text \<open>
  C1. For every well-formed dictionary whose keys are in order and every key \<open>k\<close>:
  \<^verbatim>\<open>bisect_left(k)\<close> is at most \<^verbatim>\<open>bisect_right(k)\<close>; \<^verbatim>\<open>bisect_left(k)\<close> is the number of
  entries whose key is less than \<open>k\<close>, and it is the first position whose key is not
  less than \<open>k\<close> (every earlier key is less, and the key there, if there is one, is
  not), or the count; \<^verbatim>\<open>bisect_right(k)\<close> is the first position whose key is greater
  than \<open>k\<close>, or the count.
\<close>

theorem C1_bisect_contract:
  assumes "intdict_ok size_max dict" and "intdict_ordered dict"
  shows "fst (intdict_bisect_left dict k) \<le> fst (intdict_bisect_right dict k) \<and>
         fst (intdict_bisect_left dict k) = length (filter (\<lambda>x. x < k) (intdict_keys dict)) \<and>
         fst (intdict_bisect_left dict k) \<le> length (intdict_keys dict) \<and>
         (\<forall>i. i < fst (intdict_bisect_left dict k) \<longrightarrow> intdict_keys dict ! i < k) \<and>
         (fst (intdict_bisect_left dict k) < length (intdict_keys dict) \<longrightarrow>
            k \<le> intdict_keys dict ! fst (intdict_bisect_left dict k)) \<and>
         fst (intdict_bisect_right dict k) \<le> length (intdict_keys dict) \<and>
         (\<forall>i. i < fst (intdict_bisect_right dict k) \<longrightarrow> intdict_keys dict ! i \<le> k) \<and>
         (fst (intdict_bisect_right dict k) < length (intdict_keys dict) \<longrightarrow>
            k < intdict_keys dict ! fst (intdict_bisect_right dict k))"
proof -
  let ?ks = "intdict_keys dict"
  have l: "fst (intdict_bisect_left dict k) = length (takeWhile (\<lambda>x. x < k) ?ks)"
    by (rule intdict_bisect_left_index[OF assms])
  have r: "fst (intdict_bisect_right dict k) = length (takeWhile (\<lambda>x. x \<le> k) ?ks)"
    by (rule intdict_bisect_right_index[OF assms])
  have srt: "sorted ?ks" using assms(2) by (simp add: intdict_ordered_sorted)
  have le: "fst (intdict_bisect_left dict k) \<le> fst (intdict_bisect_right dict k)"
  proof (cases "array dict")
    case None
    then show ?thesis by (simp add: l r intdict_keys_None)
  next
    case (Some a)
    then show ?thesis by (rule intdict_bisect_right_bound(2)[OF assms])
  qed
  have cnt: "length (takeWhile (\<lambda>x. x < k) ?ks) = length (filter (\<lambda>x. x < k) ?ks)"
    by (simp add: sorted_filter_takeWhile[OF srt])
  from takeWhile_boundary[of "\<lambda>x. x < k" ?ks] takeWhile_boundary[of "\<lambda>x. x \<le> k" ?ks]
  show ?thesis using le cnt unfolding l r by (simp add: not_less not_le)
qed

theorem C1_bisect_contract_witness:
  "intdict_ok 65535 example_dict \<and> intdict_ordered example_dict \<and>
   fst (intdict_bisect_left example_dict 3) = 1 \<and>
   fst (intdict_bisect_right example_dict 3) = 3 \<and>
   length (filter (\<lambda>x. x < 3) (intdict_keys example_dict)) = 1 \<and>
   intdict_keys example_dict ! 1 = 3 \<and> intdict_keys example_dict ! 3 = 4"
  using C1_bisect_contract[OF example_dict_ok example_dict_ordered, of 3]
    example_dict_ok example_dict_ordered example_dict_bisect_3
  by (simp add: example_dict_keys)

text \<open>
  C2. Cache transparency, for both dictionaries. Whatever calls led from the initialised
  dictionary to a state, the same calls with the search cache disabled (the candidate
  discarded before every call, so that \<^verbatim>\<open>bisect_left\<close> always runs the full binary
  search) succeed with the same results and leave the same entries; and in every state
  so reached \<^verbatim>\<open>bisect_left\<close>, \<^verbatim>\<open>find\<close> and \<^verbatim>\<open>bisect_right\<close> return for every key the index
  that their variants without the cache return.
\<close>

theorem C2_cache_transparency:
  assumes "4 \<le> size_max"
  shows "(intdict_run size_max item_size intdict_init ops = Some (rs, dict) \<longrightarrow>
            (\<exists>dict'. intdict_run_nocache size_max item_size intdict_init ops = Some (rs, dict') \<and>
                     intdict_entries dict' = intdict_entries dict) \<and>
            fst (intdict_bisect_left_nocache dict k) = fst (intdict_bisect_left dict k) \<and>
            fst (intdict_find (dict\<lparr>candidate := None\<rparr>) k) = fst (intdict_find dict k) \<and>
            fst (intdict_bisect_right (dict\<lparr>candidate := None\<rparr>) k) =
              fst (intdict_bisect_right dict k)) \<and>
         (strdict_run size_max item_size strdict_init sops = Some (srs, sdict) \<longrightarrow>
            (\<exists>sdict'. strdict_run_nocache size_max item_size strdict_init sops = Some (srs, sdict') \<and>
                      strdict_entries sdict' = strdict_entries sdict) \<and>
            fst (strdict_bisect_left_nocache size_max ok sdict sk) =
              fst (strdict_bisect_left size_max ok sdict sk) \<and>
            fst (strdict_find size_max ok (sdict\<lparr>s_candidate := None\<rparr>) sk) =
              fst (strdict_find size_max ok sdict sk) \<and>
            fst (strdict_bisect_right size_max ok (sdict\<lparr>s_candidate := None\<rparr>) sk) =
              fst (strdict_bisect_right size_max ok sdict sk))"
proof (intro conjI impI)
  assume run: "intdict_run size_max item_size intdict_init ops = Some (rs, dict)"
  have inv0: "intdict_ok size_max intdict_init" "intdict_ordered intdict_init"
    using intdict_init_inv[of size_max] by simp_all
  from intdict_run_nocache_sim[OF assms inv0(1) inv0(1) inv0(2) int_same_store_refl run]
  show "\<exists>dict'. intdict_run_nocache size_max item_size intdict_init ops = Some (rs, dict') \<and>
                     intdict_entries dict' = intdict_entries dict"
    by (metis int_same_store_entries)
  have inv: "intdict_ok size_max dict" "intdict_ordered dict"
    using intdict_run_inv[OF assms inv0 run] by simp_all
  show "fst (intdict_bisect_left_nocache dict k) = fst (intdict_bisect_left dict k)"
    "fst (intdict_find (dict\<lparr>candidate := None\<rparr>) k) = fst (intdict_find dict k)"
    "fst (intdict_bisect_right (dict\<lparr>candidate := None\<rparr>) k) = fst (intdict_bisect_right dict k)"
    by (rule intdict_nocache_index[OF inv])+
next
  assume run: "strdict_run size_max item_size strdict_init sops = Some (srs, sdict)"
  have inv0: "strdict_ok size_max strdict_init" "strdict_ordered strdict_init"
    using strdict_init_inv[of size_max] by simp_all
  from strdict_run_nocache_sim[OF assms inv0(1) inv0(1) inv0(2) str_same_store_refl run]
  show "\<exists>sdict'. strdict_run_nocache size_max item_size strdict_init sops = Some (srs, sdict') \<and>
                      strdict_entries sdict' = strdict_entries sdict"
    by (metis str_same_store_entries)
  have inv: "strdict_ok size_max sdict" "strdict_ordered sdict"
    using strdict_run_inv[OF assms inv0 run] by simp_all
  show "fst (strdict_bisect_left_nocache size_max ok sdict sk) =
              fst (strdict_bisect_left size_max ok sdict sk)"
    "fst (strdict_find size_max ok (sdict\<lparr>s_candidate := None\<rparr>) sk) =
              fst (strdict_find size_max ok sdict sk)"
    "fst (strdict_bisect_right size_max ok (sdict\<lparr>s_candidate := None\<rparr>) sk) =
              fst (strdict_bisect_right size_max ok sdict sk)"
    by (rule strdict_nocache_index[OF inv])+
qed

text \<open>
  In the two runs below the fifth call and those after it search for the key that the
  call before them left in the cache, so that they reuse the candidate; the cache still
  holds that key after the last call.
\<close>

theorem C2_cache_transparency_witness:
  "(4::nat) \<le> 65535 \<and>
   (\<exists>d0. intdict_run 65535 8 intdict_init (take 5 cached_calls) =
            Some ([Some 0, Some 0, Some 2, Some 1, Some 1], d0) \<and>
          candidate d0 = Some 2 \<and> sought_key d0 = 5) \<and>
   (\<exists>d d'. intdict_run 65535 8 intdict_init cached_calls =
              Some ([Some 0, Some 0, Some 2, Some 1, Some 1, Some 1, Some 3, Some 1], d) \<and>
            candidate d = Some 2 \<and> sought_key d = 5 \<and>
            intdict_run_nocache 65535 8 intdict_init cached_calls =
              Some ([Some 0, Some 0, Some 2, Some 1, Some 1, Some 1, Some 3, Some 1], d') \<and>
            intdict_entries d' = intdict_entries d \<and>
            fst (intdict_bisect_left_nocache d 5) = fst (intdict_bisect_left d 5) \<and>
            fst (intdict_find (d\<lparr>candidate := None\<rparr>) 5) = fst (intdict_find d 5) \<and>
            fst (intdict_bisect_right (d\<lparr>candidate := None\<rparr>) 5) = fst (intdict_bisect_right d 5)) \<and>
   (\<exists>s0. strdict_run 65535 8 strdict_init (take 4 str_cached_calls) =
            Some ([Some 0, Some 1, Some 0, Some 2], s0) \<and>
          s_candidate s0 = Some 2 \<and> sought_string s0 = ''camel'') \<and>
   (\<exists>s s'. strdict_run 65535 8 strdict_init str_cached_calls =
              Some ([Some 0, Some 1, Some 0, Some 2, Some 2, Some 3, Some 2], s) \<and>
            s_candidate s = Some 2 \<and> sought_string s = ''camel'' \<and>
            strdict_run_nocache 65535 8 strdict_init str_cached_calls =
              Some ([Some 0, Some 1, Some 0, Some 2, Some 2, Some 3, Some 2], s') \<and>
            strdict_entries s' = strdict_entries s \<and>
            fst (strdict_bisect_left_nocache 65535 False s (key_at 300 ''CAMEL'')) =
              fst (strdict_bisect_left 65535 False s (key_at 300 ''CAMEL'')))"
proof -
  from cached_calls_run(1) obtain d where d: "intdict_run 65535 8 intdict_init cached_calls =
      Some ([Some 0, Some 0, Some 2, Some 1, Some 1, Some 1, Some 3, Some 1], d)"
    and dc: "candidate d = Some 2" "sought_key d = 5"
    by blast
  from str_cached_calls_run(1) obtain s where s: "strdict_run 65535 8 strdict_init str_cached_calls =
      Some ([Some 0, Some 1, Some 0, Some 2, Some 2, Some 3, Some 2], s)"
    and sc: "s_candidate s = Some 2" "sought_string s = ''camel''"
    by blast
  have M: "(4::nat) \<le> 65535" by simp
  note t = C2_cache_transparency[OF M, of 8 cached_calls _ d 5 str_cached_calls _ s False
      "key_at 300 ''CAMEL''", unfolded d s]
  from t obtain d' where d': "intdict_run_nocache 65535 8 intdict_init cached_calls =
      Some ([Some 0, Some 0, Some 2, Some 1, Some 1, Some 1, Some 3, Some 1], d')"
    "intdict_entries d' = intdict_entries d" by auto
  from t obtain s' where s': "strdict_run_nocache 65535 8 strdict_init str_cached_calls =
      Some ([Some 0, Some 1, Some 0, Some 2, Some 2, Some 3, Some 2], s')"
    "strdict_entries s' = strdict_entries s" by auto
  have i: "fst (intdict_bisect_left_nocache d 5) = fst (intdict_bisect_left d 5)"
    "fst (intdict_find (d\<lparr>candidate := None\<rparr>) 5) = fst (intdict_find d 5)"
    "fst (intdict_bisect_right (d\<lparr>candidate := None\<rparr>) 5) = fst (intdict_bisect_right d 5)"
    using t by simp_all
  have j: "fst (strdict_bisect_left_nocache 65535 False s (key_at 300 ''CAMEL'')) =
        fst (strdict_bisect_left 65535 False s (key_at 300 ''CAMEL''))" using t by simp
  have p0: "\<exists>d0. intdict_run 65535 8 intdict_init (take 5 cached_calls) =
            Some ([Some 0, Some 0, Some 2, Some 1, Some 1], d0) \<and>
          candidate d0 = Some 2 \<and> sought_key d0 = 5"
    by (rule cached_calls_run(2))
  have q0: "\<exists>s0. strdict_run 65535 8 strdict_init (take 4 str_cached_calls) =
            Some ([Some 0, Some 1, Some 0, Some 2], s0) \<and>
          s_candidate s0 = Some 2 \<and> sought_string s0 = ''camel''"
    using str_cached_calls_run(2) by blast
  show ?thesis
    apply (intro conjI)
        apply (rule M)
       apply (rule p0)
      apply (rule exI[of _ d], rule exI[of _ d'])
      apply (simp only: d d' dc i)
     apply (rule q0)
    apply (rule exI[of _ s], rule exI[of _ s'])
    apply (simp only: s s' sc j)
    done
qed



text \<open>
  C4. On a well-formed, ordered dictionary (of either kind), with \<open>N\<close> the capacity that
  a full block is to grow to:
  \<^item> \<^verbatim>\<open>insert\<close> returns false when the block is full and either its capacity is
    \<^verbatim>\<open>SIZE_MAX\<close> or \<^verbatim>\<open>realloc\<close> returns null (for a request that is not of 0 bytes); it
    returns false only when the block is full and its capacity is \<^verbatim>\<open>SIZE_MAX\<close> or the
    allocator has refused, and then the entries, their count, the capacity and the block
    are what they were;
  \<^item> it returns true when the block is not full, or is below \<^verbatim>\<open>SIZE_MAX\<close> and \<^verbatim>\<open>realloc\<close>
    returns a block for a request of \<open>N * item_size \<le> SIZE_MAX\<close> bytes; the index is then
    the one that \<^verbatim>\<open>bisect_left\<close> computes, the entries are the old ones with the new
    entry put in at that index (those from the index on moved up by one), the count is
    one more, and the capacity is \<open>N\<close> if the block was full and the old one if not;
  \<^item> it does neither only when the block is full and \<open>N * item_size\<close> exceeds \<^verbatim>\<open>SIZE_MAX\<close>,
    so that the request wraps; and with a full block below \<^verbatim>\<open>SIZE_MAX\<close> and a request that
    wraps it does neither when the request is of 0 bytes (\<open>ReallocZero\<close>) and when
    \<^verbatim>\<open>realloc\<close> returns a block for it (\<open>Overrun\<close>).
\<close>

theorem C4_insert_strong_guarantee:
  assumes "intdict_ok size_max dict" and "intdict_ordered dict"
    and "strdict_ok size_max sdict" and "strdict_ordered sdict"
    and "0 < item_size"
  shows "(nitems dict = nalloc dict \<and>
          (nalloc dict = size_max \<or>
           (mem = None \<and> realloc_bytes size_max item_size (new_size size_max (nalloc dict)) \<noteq> 0)) \<longrightarrow>
            (\<exists>dict'. intdict_insert size_max item_size mem dict k v = Inr (None, dict'))) \<and>
         (\<forall>dict'. intdict_insert size_max item_size mem dict k v = Inr (None, dict') \<longrightarrow>
            nitems dict = nalloc dict \<and> (nalloc dict = size_max \<or> mem = None) \<and>
            intdict_entries dict' = intdict_entries dict \<and> nitems dict' = nitems dict \<and>
            nalloc dict' = nalloc dict \<and> array dict' = array dict) \<and>
         (nitems dict \<noteq> nalloc dict \<or>
          (nalloc dict \<noteq> size_max \<and> mem \<noteq> None \<and>
           new_size size_max (nalloc dict) * item_size \<le> size_max) \<longrightarrow>
            (\<exists>dict'. intdict_insert size_max item_size mem dict k v =
                       Inr (Some (fst (intdict_bisect_left dict k)), dict') \<and>
               intdict_entries dict' =
                 take (fst (intdict_bisect_left dict k)) (intdict_entries dict) @
                 [\<lparr>item_key = k, item_value = v\<rparr>] @
                 drop (fst (intdict_bisect_left dict k)) (intdict_entries dict) \<and>
               nitems dict' = nitems dict + 1 \<and>
               nalloc dict' =
                 (if nitems dict = nalloc dict then new_size size_max (nalloc dict)
                  else nalloc dict))) \<and>
         (\<forall>f. intdict_insert size_max item_size mem dict k v = Inl f \<longrightarrow>
            nitems dict = nalloc dict \<and>
            size_max < new_size size_max (nalloc dict) * item_size) \<and>
         (nitems dict = nalloc dict \<and> nalloc dict \<noteq> size_max \<and>
          size_max < new_size size_max (nalloc dict) * item_size \<and>
          (mem \<noteq> None \<or> realloc_bytes size_max item_size (new_size size_max (nalloc dict)) = 0) \<longrightarrow>
            intdict_insert size_max item_size mem dict k v =
              Inl (if realloc_bytes size_max item_size (new_size size_max (nalloc dict)) = 0
                   then ReallocZero else Overrun)) \<and>
         (s_nitems sdict = s_nalloc sdict \<and>
          (s_nalloc sdict = size_max \<or>
           (smem = None \<and> realloc_bytes size_max item_size (new_size size_max (s_nalloc sdict)) \<noteq> 0)) \<longrightarrow>
            (\<exists>sdict'. strdict_insert size_max item_size ok smem sdict sk sv = Inr (None, sdict'))) \<and>
         (\<forall>sdict'. strdict_insert size_max item_size ok smem sdict sk sv = Inr (None, sdict') \<longrightarrow>
            s_nitems sdict = s_nalloc sdict \<and> (s_nalloc sdict = size_max \<or> smem = None) \<and>
            strdict_entries sdict' = strdict_entries sdict \<and> s_nitems sdict' = s_nitems sdict \<and>
            s_nalloc sdict' = s_nalloc sdict \<and> s_array sdict' = s_array sdict) \<and>
         (s_nitems sdict \<noteq> s_nalloc sdict \<or>
          (s_nalloc sdict \<noteq> size_max \<and> smem \<noteq> None \<and>
           new_size size_max (s_nalloc sdict) * item_size \<le> size_max) \<longrightarrow>
            (\<exists>sdict'. strdict_insert size_max item_size ok smem sdict sk sv =
                        Inr (Some (fst (strdict_bisect_left size_max ok sdict sk)), sdict') \<and>
               strdict_entries sdict' =
                 take (fst (strdict_bisect_left size_max ok sdict sk)) (strdict_entries sdict) @
                 [\<lparr>sitem_key = sk, sitem_value = sv\<rparr>] @
                 drop (fst (strdict_bisect_left size_max ok sdict sk)) (strdict_entries sdict) \<and>
               s_nitems sdict' = s_nitems sdict + 1 \<and>
               s_nalloc sdict' =
                 (if s_nitems sdict = s_nalloc sdict then new_size size_max (s_nalloc sdict)
                  else s_nalloc sdict))) \<and>
         (\<forall>f. strdict_insert size_max item_size ok smem sdict sk sv = Inl f \<longrightarrow>
            s_nitems sdict = s_nalloc sdict \<and>
            size_max < new_size size_max (s_nalloc sdict) * item_size) \<and>
         (s_nitems sdict = s_nalloc sdict \<and> s_nalloc sdict \<noteq> size_max \<and>
          size_max < new_size size_max (s_nalloc sdict) * item_size \<and>
          (smem \<noteq> None \<or>
           realloc_bytes size_max item_size (new_size size_max (s_nalloc sdict)) = 0) \<longrightarrow>
            strdict_insert size_max item_size ok smem sdict sk sv =
              Inl (if realloc_bytes size_max item_size (new_size size_max (s_nalloc sdict)) = 0
                   then ReallocZero else Overrun))"
proof -
  note it = intdict_insert_total[OF assms(1,2,5), of mem k v]
  note st = strdict_insert_total[OF assms(3,4,5), of smem ok sk sv]
  have i1: "nitems dict = nalloc dict \<and>
          (nalloc dict = size_max \<or>
           (mem = None \<and> realloc_bytes size_max item_size (new_size size_max (nalloc dict)) \<noteq> 0)) \<longrightarrow>
            (\<exists>dict'. intdict_insert size_max item_size mem dict k v = Inr (None, dict'))"
    using it(1) by blast
  have i2: "\<forall>dict'. intdict_insert size_max item_size mem dict k v = Inr (None, dict') \<longrightarrow>
            nitems dict = nalloc dict \<and> (nalloc dict = size_max \<or> mem = None) \<and>
            intdict_entries dict' = intdict_entries dict \<and> nitems dict' = nitems dict \<and>
            nalloc dict' = nalloc dict \<and> array dict' = array dict"
    using intdict_insert_false_only[OF assms(1,2)] by blast
  have i3: "nitems dict \<noteq> nalloc dict \<or>
          (nalloc dict \<noteq> size_max \<and> mem \<noteq> None \<and>
           new_size size_max (nalloc dict) * item_size \<le> size_max) \<longrightarrow>
            (\<exists>dict'. intdict_insert size_max item_size mem dict k v =
                       Inr (Some (fst (intdict_bisect_left dict k)), dict') \<and>
               intdict_entries dict' =
                 take (fst (intdict_bisect_left dict k)) (intdict_entries dict) @
                 [\<lparr>item_key = k, item_value = v\<rparr>] @
                 drop (fst (intdict_bisect_left dict k)) (intdict_entries dict) \<and>
               nitems dict' = nitems dict + 1 \<and>
               nalloc dict' =
                 (if nitems dict = nalloc dict then new_size size_max (nalloc dict)
                  else nalloc dict))"
    using it(2) by blast
  have i4: "\<forall>f. intdict_insert size_max item_size mem dict k v = Inl f \<longrightarrow>
            nitems dict = nalloc dict \<and>
            size_max < new_size size_max (nalloc dict) * item_size"
  proof (intro allI impI)
    fix f assume f: "intdict_insert size_max item_size mem dict k v = Inl f"
    show "nitems dict = nalloc dict \<and> size_max < new_size size_max (nalloc dict) * item_size"
    proof (rule ccontr)
      assume "\<not> (nitems dict = nalloc dict \<and>
                 size_max < new_size size_max (nalloc dict) * item_size)"
      then consider "nitems dict \<noteq> nalloc dict"
        | "nitems dict = nalloc dict" "nalloc dict = size_max"
        | "nitems dict = nalloc dict" "nalloc dict \<noteq> size_max" "mem = None"
          "new_size size_max (nalloc dict) * item_size \<le> size_max"
        | "nitems dict = nalloc dict" "nalloc dict \<noteq> size_max" "mem \<noteq> None"
          "new_size size_max (nalloc dict) * item_size \<le> size_max"
        by fastforce
      then show False
      proof cases
        case 1
        then show ?thesis using it(2) f by auto
      next
        case 2
        then show ?thesis using it(1) f by auto
      next
        case 3
        have "nalloc dict \<le> size_max" using assms(1) by (simp add: intdict_ok_def)
        with 3(2) have "0 < new_size size_max (nalloc dict)" by (intro new_size_pos) simp_all
        then have "realloc_bytes size_max item_size (new_size size_max (nalloc dict)) \<noteq> 0"
          using 3(4) assms(5) by (simp add: realloc_bytes_exact)
        then show ?thesis using it(1) f 3 by auto
      next
        case 4
        then show ?thesis using it(2) f by auto
      qed
    qed
  qed
  have i5: "nitems dict = nalloc dict \<and> nalloc dict \<noteq> size_max \<and>
          size_max < new_size size_max (nalloc dict) * item_size \<and>
          (mem \<noteq> None \<or> realloc_bytes size_max item_size (new_size size_max (nalloc dict)) = 0) \<longrightarrow>
            intdict_insert size_max item_size mem dict k v =
              Inl (if realloc_bytes size_max item_size (new_size size_max (nalloc dict)) = 0
                   then ReallocZero else Overrun)"
    using it(3) by blast
  have s1: "s_nitems sdict = s_nalloc sdict \<and>
          (s_nalloc sdict = size_max \<or>
           (smem = None \<and> realloc_bytes size_max item_size (new_size size_max (s_nalloc sdict)) \<noteq> 0)) \<longrightarrow>
            (\<exists>sdict'. strdict_insert size_max item_size ok smem sdict sk sv = Inr (None, sdict'))"
    using st(1) by blast
  have s2: "\<forall>sdict'. strdict_insert size_max item_size ok smem sdict sk sv = Inr (None, sdict') \<longrightarrow>
            s_nitems sdict = s_nalloc sdict \<and> (s_nalloc sdict = size_max \<or> smem = None) \<and>
            strdict_entries sdict' = strdict_entries sdict \<and> s_nitems sdict' = s_nitems sdict \<and>
            s_nalloc sdict' = s_nalloc sdict \<and> s_array sdict' = s_array sdict"
    using strdict_insert_false_only[OF assms(3,4)] by blast
  have s3: "s_nitems sdict \<noteq> s_nalloc sdict \<or>
          (s_nalloc sdict \<noteq> size_max \<and> smem \<noteq> None \<and>
           new_size size_max (s_nalloc sdict) * item_size \<le> size_max) \<longrightarrow>
            (\<exists>sdict'. strdict_insert size_max item_size ok smem sdict sk sv =
                        Inr (Some (fst (strdict_bisect_left size_max ok sdict sk)), sdict') \<and>
               strdict_entries sdict' =
                 take (fst (strdict_bisect_left size_max ok sdict sk)) (strdict_entries sdict) @
                 [\<lparr>sitem_key = sk, sitem_value = sv\<rparr>] @
                 drop (fst (strdict_bisect_left size_max ok sdict sk)) (strdict_entries sdict) \<and>
               s_nitems sdict' = s_nitems sdict + 1 \<and>
               s_nalloc sdict' =
                 (if s_nitems sdict = s_nalloc sdict then new_size size_max (s_nalloc sdict)
                  else s_nalloc sdict))"
    using st(2) by blast
  have s4: "\<forall>f. strdict_insert size_max item_size ok smem sdict sk sv = Inl f \<longrightarrow>
            s_nitems sdict = s_nalloc sdict \<and>
            size_max < new_size size_max (s_nalloc sdict) * item_size"
  proof (intro allI impI)
    fix f assume f: "strdict_insert size_max item_size ok smem sdict sk sv = Inl f"
    show "s_nitems sdict = s_nalloc sdict \<and>
          size_max < new_size size_max (s_nalloc sdict) * item_size"
    proof (rule ccontr)
      assume "\<not> (s_nitems sdict = s_nalloc sdict \<and>
                 size_max < new_size size_max (s_nalloc sdict) * item_size)"
      then consider "s_nitems sdict \<noteq> s_nalloc sdict"
        | "s_nitems sdict = s_nalloc sdict" "s_nalloc sdict = size_max"
        | "s_nitems sdict = s_nalloc sdict" "s_nalloc sdict \<noteq> size_max" "smem = None"
          "new_size size_max (s_nalloc sdict) * item_size \<le> size_max"
        | "s_nitems sdict = s_nalloc sdict" "s_nalloc sdict \<noteq> size_max" "smem \<noteq> None"
          "new_size size_max (s_nalloc sdict) * item_size \<le> size_max"
        by fastforce
      then show False
      proof cases
        case 1
        then show ?thesis using st(2) f by auto
      next
        case 2
        then show ?thesis using st(1) f by auto
      next
        case 3
        have "s_nalloc sdict \<le> size_max" using assms(3) by (simp add: strdict_ok_def)
        with 3(2) have "0 < new_size size_max (s_nalloc sdict)" by (intro new_size_pos) simp_all
        then have "realloc_bytes size_max item_size (new_size size_max (s_nalloc sdict)) \<noteq> 0"
          using 3(4) assms(5) by (simp add: realloc_bytes_exact)
        then show ?thesis using st(1) f 3 by auto
      next
        case 4
        then show ?thesis using st(2) f by auto
      qed
    qed
  qed
  have s5: "s_nitems sdict = s_nalloc sdict \<and> s_nalloc sdict \<noteq> size_max \<and>
          size_max < new_size size_max (s_nalloc sdict) * item_size \<and>
          (smem \<noteq> None \<or>
           realloc_bytes size_max item_size (new_size size_max (s_nalloc sdict)) = 0) \<longrightarrow>
            strdict_insert size_max item_size ok smem sdict sk sv =
              Inl (if realloc_bytes size_max item_size (new_size size_max (s_nalloc sdict)) = 0
                   then ReallocZero else Overrun)"
    using st(3) by blast
  from i1 i2 i3 i4 i5 s1 s2 s3 s4 s5 show ?thesis by (intro conjI)
qed

text \<open>
  A block of four slots filled by four insertions: the fifth insertion grows it to eight
  slots when \<^verbatim>\<open>realloc\<close> returns a block, and fails, leaving everything as it was, when
  \<^verbatim>\<open>realloc\<close> returns null. A block of 4096 slots of 8 bytes filled by 4096 insertions,
  with \<^verbatim>\<open>SIZE_MAX\<close> 65535: the next insertion asks for \<open>8192 * 8 mod 65536 = 0\<close> bytes, and
  neither inserts the entry nor fails.
\<close>

theorem C4_insert_strong_guarantee_witness:
  "(0::nat) < 8 \<and>
   (\<exists>rs d. intdict_run 65535 8 intdict_init (insert_calls 4) = Some (rs, d) \<and>
      intdict_ok 65535 d \<and> intdict_ordered d \<and>
      nitems d = 4 \<and> nalloc d = 4 \<and> intdict_keys d = [0, 1, 2, 3] \<and>
      (\<exists>d'. intdict_insert 65535 8 (Some zeroed_items) d 2 (Some 7) = Inr (Some 2, d') \<and>
         intdict_keys d' = [0, 1, 2, 2, 3] \<and> nitems d' = 5 \<and> nalloc d' = 8) \<and>
      (\<exists>d'. intdict_insert 65535 8 None d 2 (Some 7) = Inr (None, d') \<and>
         intdict_entries d' = intdict_entries d \<and> nitems d' = 4 \<and> nalloc d' = 4)) \<and>
   (\<exists>rs s. strdict_run 65535 8 strdict_init (take 4 str_example_calls) = Some (rs, s) \<and>
      strdict_ok 65535 s \<and> strdict_ordered s \<and> s_nitems s = 4 \<and> s_nalloc s = 4 \<and>
      (\<exists>s'. strdict_insert 65535 8 True (Some str_zeroed_items) s (key_at 300 ''BADGER'') None =
              Inr (Some 2, s') \<and>
         s_nitems s' = 5 \<and> s_nalloc s' = 8) \<and>
      (\<exists>s'. strdict_insert 65535 8 True None s (key_at 300 ''BADGER'') None = Inr (None, s') \<and>
         strdict_entries s' = strdict_entries s \<and> s_nitems s' = 4 \<and> s_nalloc s' = 4)) \<and>
   (\<exists>rs d. intdict_run 65535 8 intdict_init (insert_calls 4096) = Some (rs, d) \<and>
      intdict_ok 65535 d \<and> intdict_ordered d \<and> nitems d = 4096 \<and> nalloc d = 4096 \<and>
      new_size 65535 4096 = 8192 \<and> (65535::nat) < 8192 * 8 \<and>
      realloc_bytes 65535 8 8192 = 0 \<and>
      intdict_insert 65535 8 (Some zeroed_items) d 5000 (Some 7) = Inl ReallocZero)"
proof -
  from full_block_4 obtain d where d:
    "intdict_run 65535 8 intdict_init (insert_calls 4) = Some (map Some [0..<4], d)"
    "intdict_ok 65535 d" "intdict_ordered d" "intdict_keys d = [0, 1, 2, 3]"
    "nitems d = 4" "nalloc d = 4" by blast
  from str_full_block_4 obtain s where s:
    "strdict_run 65535 8 strdict_init (take 4 str_example_calls) =
       Some ([Some 0, Some 1, Some 2, Some 3], s)"
    "s_nitems s = 4" "s_nalloc s = 4"
    "fst (strdict_bisect_left 65535 True s (key_at 300 ''BADGER'')) = 2" by blast
  have M: "(4::nat) \<le> 65535" and S: "(0::nat) < 8" by simp_all
  have sinv: "strdict_ok 65535 s" "strdict_ordered s"
    using strdict_run_inv[OF M _ _ s(1)] strdict_init_inv[of 65535] by simp_all
  have n: "new_size 65535 4 = 8" by (simp add: new_size_def ArrayGrowthFactor_def)
  have b: "realloc_bytes 65535 8 8 = 64" by (simp add: realloc_bytes_def)
  have i: "fst (intdict_bisect_left d 2) = 2"
    by (simp add: intdict_bisect_left_index[OF d(2,3)] d(4))
  note grow = C4_insert_strong_guarantee[OF d(2,3) sinv S, of "Some zeroed_items" 2 "Some 7"
      "Some str_zeroed_items" True "key_at 300 ''BADGER''" None]
  note fail = C4_insert_strong_guarantee[OF d(2,3) sinv S, of None 2 "Some 7"
      None True "key_at 300 ''BADGER''" None]
  from grow obtain d1 where d1:
    "intdict_insert 65535 8 (Some zeroed_items) d 2 (Some 7) = Inr (Some 2, d1)"
    "intdict_entries d1 = take 2 (intdict_entries d) @ [\<lparr>item_key = 2, item_value = Some 7\<rparr>] @
       drop 2 (intdict_entries d)"
    "nitems d1 = 5" "nalloc d1 = 8"
    using d(5,6) n i by auto
  have "intdict_keys d1 = take 2 (intdict_keys d) @ [2] @ drop 2 (intdict_keys d)"
    by (simp add: intdict_keys_entries d1(2) take_map drop_map)
  then have k1: "intdict_keys d1 = [0, 1, 2, 2, 3]" by (simp add: d(4))
  from fail obtain d2 where d2:
    "intdict_insert 65535 8 None d 2 (Some 7) = Inr (None, d2)"
    using d(5,6) n b by auto
  with fail have d2': "intdict_entries d2 = intdict_entries d" "nitems d2 = 4" "nalloc d2 = 4"
    using d(5,6) by auto
  from grow obtain s1 where s1:
    "strdict_insert 65535 8 True (Some str_zeroed_items) s (key_at 300 ''BADGER'') None =
       Inr (Some 2, s1)"
    "s_nitems s1 = 5" "s_nalloc s1 = 8"
    using s(2,3,4) n by auto
  from fail obtain s2 where s2:
    "strdict_insert 65535 8 True None s (key_at 300 ''BADGER'') None = Inr (None, s2)"
    using s(2,3) n b by auto
  with fail have s2': "strdict_entries s2 = strdict_entries s" "s_nitems s2 = 4" "s_nalloc s2 = 4"
    using s(2,3) by auto
  have int_part: "\<exists>rs d. intdict_run 65535 8 intdict_init (insert_calls 4) = Some (rs, d) \<and>
      intdict_ok 65535 d \<and> intdict_ordered d \<and>
      nitems d = 4 \<and> nalloc d = 4 \<and> intdict_keys d = [0, 1, 2, 3] \<and>
      (\<exists>d'. intdict_insert 65535 8 (Some zeroed_items) d 2 (Some 7) = Inr (Some 2, d') \<and>
         intdict_keys d' = [0, 1, 2, 2, 3] \<and> nitems d' = 5 \<and> nalloc d' = 8) \<and>
      (\<exists>d'. intdict_insert 65535 8 None d 2 (Some 7) = Inr (None, d') \<and>
         intdict_entries d' = intdict_entries d \<and> nitems d' = 4 \<and> nalloc d' = 4)"
    using d d1(1,3,4) k1 d2 d2'
    by (intro exI[of _ "map Some [0..<4]"] exI[of _ d]) auto
  have str_part: "\<exists>rs s. strdict_run 65535 8 strdict_init (take 4 str_example_calls) = Some (rs, s) \<and>
      strdict_ok 65535 s \<and> strdict_ordered s \<and> s_nitems s = 4 \<and> s_nalloc s = 4 \<and>
      (\<exists>s'. strdict_insert 65535 8 True (Some str_zeroed_items) s (key_at 300 ''BADGER'') None =
              Inr (Some 2, s') \<and>
         s_nitems s' = 5 \<and> s_nalloc s' = 8) \<and>
      (\<exists>s'. strdict_insert 65535 8 True None s (key_at 300 ''BADGER'') None = Inr (None, s') \<and>
         strdict_entries s' = strdict_entries s \<and> s_nitems s' = 4 \<and> s_nalloc s' = 4)"
    using s(1,2,3) sinv s1 s2 s2'
    by (intro exI[of _ "[Some 0, Some 1, Some 2, Some 3]"] exI[of _ s]) auto
  from full_block_16_8 obtain e where e:
    "intdict_run 65535 8 intdict_init (insert_calls 4096) = Some (map Some [0..<4096], e)"
    "intdict_ok 65535 e" "intdict_ordered e" "nitems e = 4096" "nalloc e = 4096" by blast
  have n': "new_size 65535 4096 = 8192" by (simp add: new_size_def ArrayGrowthFactor_def)
  have b': "realloc_bytes 65535 8 8192 = 0" by (simp add: realloc_bytes_def)
  note wrap = C4_insert_strong_guarantee[OF e(2,3) sinv S, of "Some zeroed_items" 5000 "Some 7"
      None True "key_at 300 ''BADGER''" None]
  have flt: "intdict_insert 65535 8 (Some zeroed_items) e 5000 (Some 7) = Inl ReallocZero"
    using wrap e(4,5) n' b' by simp
  have wrap_part: "\<exists>rs d. intdict_run 65535 8 intdict_init (insert_calls 4096) = Some (rs, d) \<and>
      intdict_ok 65535 d \<and> intdict_ordered d \<and> nitems d = 4096 \<and> nalloc d = 4096 \<and>
      new_size 65535 4096 = 8192 \<and> (65535::nat) < 8192 * 8 \<and>
      realloc_bytes 65535 8 8192 = 0 \<and>
      intdict_insert 65535 8 (Some zeroed_items) d 5000 (Some 7) = Inl ReallocZero"
    using e n' b' flt
    by (intro exI[of _ "map Some [0..<4096]"] exI[of _ e]) simp
  from S int_part str_part wrap_part show ?thesis by (intro conjI)
qed

text \<open>
  C5. When \<^verbatim>\<open>bisect_left(key)\<close> returns on a dictionary that is not empty, its result is
  what the linear correction yields from a slot \<open>c\<close> below the count: the cached candidate
  if the cached key compares equal to \<open>key\<close>, and otherwise the last slot that the binary
  search compared with \<open>key\<close>. The correction goes forward from \<open>c\<close> if the key there is
  less than \<open>key\<close>, else backward; its result is \<open>c\<close> exactly when the key at \<open>c\<close> is not
  less than \<open>key\<close> and \<open>c\<close> is 0 or the key before \<open>c\<close> is less than \<open>key\<close>.

  The integer dictionary then holds \<open>key\<close> as its \<open>sought_key\<close> and \<open>c\<close>, not the result, as
  its candidate. So does the string dictionary, with a key that compares equal to \<open>key\<close>,
  unless \<^verbatim>\<open>dict->sought_key == key\<close> holds at the end, when it clears both: after a failed
  copy of the key, and when the pointer in the cache is the caller's (the key is the
  literal \<^verbatim>\<open>""\<close> that \<^verbatim>\<open>stringbuffer_get_pointer\<close> returns for a buffer without a block).
\<close>

theorem C5_cache_holds_start_slot:
  assumes "intdict_ok size_max dict" and "array dict = Some a" and "0 < nitems dict"
    and "strdict_ok size_max sdict" and "s_array sdict = Some sa" and "0 < s_nitems sdict"
    and "stringbuffer_ok (s_buffer sdict)" and "length (ptr_text word) \<le> size_max"
  shows "int_cache_slot dict a key < nitems dict \<and>
         candidate (snd (intdict_bisect_left dict key)) = Some (int_cache_slot dict a key) \<and>
         sought_key (snd (intdict_bisect_left dict key)) = key \<and>
         fst (intdict_bisect_left dict key) =
           (if item_key (a (int_cache_slot dict a key)) < key
            then int_search_forward a (nitems dict) key (int_cache_slot dict a key)
            else int_search_backward a key (int_cache_slot dict a key)) \<and>
         ((fst (intdict_bisect_left dict key) = int_cache_slot dict a key) =
          (key \<le> item_key (a (int_cache_slot dict a key)) \<and>
           (int_cache_slot dict a key = 0 \<or>
            item_key (a (int_cache_slot dict a key - 1)) < key))) \<and>
         str_cache_slot sdict sa word < s_nitems sdict \<and>
         fst (strdict_bisect_left size_max okb sdict word) =
           str_correction sa (s_nitems sdict) word (str_cache_slot sdict sa word) \<and>
         ((fst (strdict_bisect_left size_max okb sdict word) = str_cache_slot sdict sa word) =
          (0 \<le> stricmp (ptr_text (sitem_key (sa (str_cache_slot sdict sa word)))) (ptr_text word) \<and>
           (str_cache_slot sdict sa word = 0 \<or>
            stricmp (ptr_text (sitem_key (sa (str_cache_slot sdict sa word - 1)))) (ptr_text word)
              < 0))) \<and>
         (if str_cache_cleared size_max okb sdict word
          then s_candidate (snd (strdict_bisect_left size_max okb sdict word)) = None \<and>
               s_sought_key (snd (strdict_bisect_left size_max okb sdict word)) = SoughtNull
          else s_candidate (snd (strdict_bisect_left size_max okb sdict word)) =
                 Some (str_cache_slot sdict sa word) \<and>
               stricmp (sought_string (snd (strdict_bisect_left size_max okb sdict word)))
                 (ptr_text word) = 0)"
proof -
  note i = intdict_bisect_left_cache[OF assms(1-3)]
  note s = strdict_bisect_left_cache[OF assms(4-8)]
  have ifix: "(fst (intdict_bisect_left dict key) = int_cache_slot dict a key) =
          (key \<le> item_key (a (int_cache_slot dict a key)) \<and>
           (int_cache_slot dict a key = 0 \<or>
            item_key (a (int_cache_slot dict a key - 1)) < key))"
    unfolding i(4) by (rule int_correction_fixed)
  have sfix: "(fst (strdict_bisect_left size_max okb sdict word) = str_cache_slot sdict sa word) =
          (0 \<le> stricmp (ptr_text (sitem_key (sa (str_cache_slot sdict sa word)))) (ptr_text word) \<and>
           (str_cache_slot sdict sa word = 0 \<or>
            stricmp (ptr_text (sitem_key (sa (str_cache_slot sdict sa word - 1)))) (ptr_text word)
              < 0))"
    unfolding s(2) by (rule str_correction_fixed)
  have cache: "if str_cache_cleared size_max okb sdict word
          then s_candidate (snd (strdict_bisect_left size_max okb sdict word)) = None \<and>
               s_sought_key (snd (strdict_bisect_left size_max okb sdict word)) = SoughtNull
          else s_candidate (snd (strdict_bisect_left size_max okb sdict word)) =
                 Some (str_cache_slot sdict sa word) \<and>
               stricmp (sought_string (snd (strdict_bisect_left size_max okb sdict word)))
                 (ptr_text word) = 0"
    using s(3,4) by (cases "str_cache_cleared size_max okb sdict word") simp_all
  from i ifix s(1,2) sfix cache show ?thesis by (intro conjI)
qed

text \<open>
  Three searches that find the cache filled: \<^verbatim>\<open>bisect_left(3)\<close> after \<^verbatim>\<open>bisect_left(3)\<close>
  reuses slot 2 and returns 1; \<^verbatim>\<open>bisect_left("ZEBRA")\<close> after \<^verbatim>\<open>bisect_left("zebra")\<close>
  reuses slot 2 and returns 3; and a search for the literal \<^verbatim>\<open>""\<close> in a dictionary whose
  buffer has no block returns 0 with the cache cleared.
\<close>

theorem C5_cache_holds_start_slot_witness:
  "intdict_ok 65535 (snd (intdict_bisect_left example_dict 3)) \<and>
   0 < nitems (snd (intdict_bisect_left example_dict 3)) \<and>
   candidate (snd (intdict_bisect_left example_dict 3)) = Some 2 \<and>
   sought_key (snd (intdict_bisect_left example_dict 3)) = 3 \<and>
   fst (intdict_bisect_left (snd (intdict_bisect_left example_dict 3)) 3) = 1 \<and>
   candidate (snd (intdict_bisect_left (snd (intdict_bisect_left example_dict 3)) 3)) = Some 2 \<and>
   strdict_ok 65535 (snd (strdict_bisect_left 65535 True str_example_dict (key_at 9 ''zebra''))) \<and>
   stringbuffer_ok
     (s_buffer (snd (strdict_bisect_left 65535 True str_example_dict (key_at 9 ''zebra'')))) \<and>
   s_candidate (snd (strdict_bisect_left 65535 True str_example_dict (key_at 9 ''zebra''))) = Some 2 \<and>
   sought_string (snd (strdict_bisect_left 65535 True str_example_dict (key_at 9 ''zebra''))) =
     ''zebra'' \<and>
   fst (strdict_bisect_left 65535 False
     (snd (strdict_bisect_left 65535 True str_example_dict (key_at 9 ''zebra'')))
     (key_at 10 ''ZEBRA'')) = 3 \<and>
   s_candidate (snd (strdict_bisect_left 65535 False
     (snd (strdict_bisect_left 65535 True str_example_dict (key_at 9 ''zebra'')))
     (key_at 10 ''ZEBRA''))) = Some 2 \<and>
   strdict_ok 65535 str_example_dict \<and> stringbuffer_ok (s_buffer str_example_dict) \<and>
   str_cache_cleared 65535 True str_example_dict empty_literal \<and>
   fst (strdict_bisect_left 65535 True str_example_dict empty_literal) = 0 \<and>
   s_candidate (snd (strdict_bisect_left 65535 True str_example_dict empty_literal)) = None \<and>
   s_sought_key (snd (strdict_bisect_left 65535 True str_example_dict empty_literal)) = SoughtNull"
proof -
  let ?d = "snd (intdict_bisect_left example_dict 3)"
  let ?s = "snd (strdict_bisect_left 65535 True str_example_dict (key_at 9 ''zebra''))"
  have arr: "array ?d = Some (block_of \<lparr>item_key = 0, item_value = None\<rparr>
        [\<lparr>item_key = 1, item_value = Some 10\<rparr>, \<lparr>item_key = 3, item_value = Some 11\<rparr>,
         \<lparr>item_key = 3, item_value = None\<rparr>, \<lparr>item_key = 4, item_value = Some 13\<rparr>,
         \<lparr>item_key = 6, item_value = Some 14\<rparr>])"
    using example_dict_cached(2) example_dict_array(1) by simp
  have pos: "0 < nitems ?d" using example_dict_cached(3) by simp
  have sarr: "s_array ?s = Some (block_of \<lparr>sitem_key = key_at 0 [], sitem_value = None\<rparr>
        [\<lparr>sitem_key = key_at 100 ''Aardvark'', sitem_value = Some 20\<rparr>,
         \<lparr>sitem_key = key_at 101 ''bison'', sitem_value = None\<rparr>,
         \<lparr>sitem_key = key_at 102 ''Camel'', sitem_value = Some 22\<rparr>])"
    using str_example_dict_cached(2) str_example_dict_array(1) by simp
  have spos: "0 < s_nitems ?s" using str_example_dict_cached(3) by simp
  have len: "length (ptr_text (key_at 10 ''ZEBRA'')) \<le> 65535"
    "length (ptr_text empty_literal) \<le> 65535"
    by (simp_all add: key_at_def empty_literal_def)
  note reuse = C5_cache_holds_start_slot[OF example_dict_cached(1) arr pos
      str_example_dict_cached(1) sarr spos str_example_dict_cached(4) len(1), of 3 False]
  note literal = C5_cache_holds_start_slot[OF example_dict_cached(1) arr pos
      str_example_dict_ok str_example_dict_array(1,2,3) len(2), of 3 True]
  have cl: "s_candidate (snd (strdict_bisect_left 65535 True str_example_dict empty_literal)) = None \<and>
      s_sought_key (snd (strdict_bisect_left 65535 True str_example_dict empty_literal)) = SoughtNull"
    using literal str_example_dict_literal(6) by simp
  show ?thesis
    using reuse cl pos example_dict_cached str_example_dict_cached str_example_dict_ok
      str_example_dict_array(3) str_example_dict_literal(1,6)
    by simp
qed

text \<open>
  On the example dictionaries the candidate is not the result: \<^verbatim>\<open>bisect_left(3)\<close> returns 1
  with the candidate at slot 2, the duplicate that the binary search found;
  \<^verbatim>\<open>bisect_left(7)\<close> returns the count, 5, which is no slot, with the candidate at slot 4;
  and \<^verbatim>\<open>bisect_left("zebra")\<close>, with its key copied, returns the count, 3, with the
  candidate at slot 2.
\<close>

theorem C5_candidate_is_not_result_counterexample:
  "intdict_ok 65535 example_dict \<and> intdict_ordered example_dict \<and> 0 < nitems example_dict \<and>
   fst (intdict_bisect_left example_dict 3) = 1 \<and>
   candidate (snd (intdict_bisect_left example_dict 3)) = Some 2 \<and>
   fst (intdict_bisect_left example_dict 7) = 5 \<and>
   candidate (snd (intdict_bisect_left example_dict 7)) = Some 4 \<and>
   strdict_ok 65535 str_example_dict \<and> strdict_ordered str_example_dict \<and>
   0 < s_nitems str_example_dict \<and>
   fst (strdict_bisect_left 65535 True str_example_dict (key_at 9 ''zebra'')) = 3 \<and>
   s_candidate (snd (strdict_bisect_left 65535 True str_example_dict (key_at 9 ''zebra''))) = Some 2 \<and>
   s_sought_key (snd (strdict_bisect_left 65535 True str_example_dict (key_at 9 ''zebra''))) = SoughtBuffer"
  by (simp add: example_dict_ok example_dict_ordered example_dict_array(2)
      str_example_dict_ok str_example_dict_ordered str_example_dict_array(2)
      example_dict_bisect_cache str_example_dict_bisect_cache)

text \<open>
  C6. For the string dictionary. After any calls on an initialised dictionary, and after
  every prefix of them, the cached \<^verbatim>\<open>sought_key\<close> is not a caller's pointer; after one
  more \<^verbatim>\<open>bisect_left\<close> it is not the pointer just passed. If that call searches a
  non-empty dictionary and the copy of the key cannot be allocated, then at its return
  \<^verbatim>\<open>sought_key\<close> and \<^verbatim>\<open>candidate\<close> are both null, and the index it returns is still the
  lower bound: the search itself ran on the caller's key.
\<close>

theorem C6_raw_key_never_cached:
  assumes "4 \<le> size_max"
    and "strdict_run size_max item_size strdict_init ops = Some (rs, dict)"
  shows "(\<exists>dict'. strdict_run size_max item_size strdict_init (take n ops) = Some (take n rs, dict') \<and>
                   no_raw_key dict' \<and> (\<forall>p. s_sought_key dict' \<noteq> SoughtCaller p)) \<and>
         no_raw_key (snd (strdict_bisect_left size_max ok dict k)) \<and>
         s_sought_key (snd (strdict_bisect_left size_max ok dict k)) \<noteq> SoughtCaller k \<and>
         (0 < s_nitems dict \<and>
          (s_candidate dict = None \<or> stricmp (sought_string dict) (ptr_text k) \<noteq> 0) \<and>
          \<not> fst (stringbuffer_append_all size_max ok
                   (stringbuffer_truncate (s_buffer dict) 0) (ptr_text k)) \<longrightarrow>
          s_sought_key (snd (strdict_bisect_left size_max ok dict k)) = SoughtNull \<and>
          s_candidate (snd (strdict_bisect_left size_max ok dict k)) = None \<and>
          fst (strdict_bisect_left size_max ok dict k) =
            length (takeWhile (\<lambda>x. x < strkey (ptr_text k)) (strdict_keys dict)))"
proof -
  have inv0: "strdict_ok size_max strdict_init" "strdict_ordered strdict_init"
    using strdict_init_inv[of size_max] by simp_all
  have nr0: "no_raw_key strdict_init" by (simp add: no_raw_key_def strdict_init_def)
  from strdict_run_take[OF assms(2), of n]
  obtain dict' where run': "strdict_run size_max item_size strdict_init (take n ops) = Some (take n rs, dict')"
    by blast
  have nr': "no_raw_key dict'" by (rule strdict_run_no_raw[OF assms(1) inv0 nr0 run'])
  then have "\<forall>p. s_sought_key dict' \<noteq> SoughtCaller p" by (auto simp: no_raw_key_def)
  with run' nr' have prefix: "\<exists>dict'. strdict_run size_max item_size strdict_init (take n ops) = Some (take n rs, dict') \<and>
                   no_raw_key dict' \<and> (\<forall>p. s_sought_key dict' \<noteq> SoughtCaller p)" by blast
  have inv: "strdict_ok size_max dict" "strdict_ordered dict"
    using strdict_run_inv[OF assms(1) inv0 assms(2)] by simp_all
  have nr: "no_raw_key dict" by (rule strdict_run_no_raw[OF assms(1) inv0 nr0 assms(2)])
  have after: "no_raw_key (snd (strdict_bisect_left size_max ok dict k))"
    by (rule strdict_bisect_left_no_raw[OF inv(1) nr])
  then have after': "s_sought_key (snd (strdict_bisect_left size_max ok dict k)) \<noteq> SoughtCaller k"
    by (auto simp: no_raw_key_def)
  have failing: "0 < s_nitems dict \<and>
          (s_candidate dict = None \<or> stricmp (sought_string dict) (ptr_text k) \<noteq> 0) \<and>
          \<not> fst (stringbuffer_append_all size_max ok
                   (stringbuffer_truncate (s_buffer dict) 0) (ptr_text k)) \<longrightarrow>
          s_sought_key (snd (strdict_bisect_left size_max ok dict k)) = SoughtNull \<and>
          s_candidate (snd (strdict_bisect_left size_max ok dict k)) = None \<and>
          fst (strdict_bisect_left size_max ok dict k) =
            length (takeWhile (\<lambda>x. x < strkey (ptr_text k)) (strdict_keys dict))"
  proof
    assume a: "0 < s_nitems dict \<and>
          (s_candidate dict = None \<or> stricmp (sought_string dict) (ptr_text k) \<noteq> 0) \<and>
          \<not> fst (stringbuffer_append_all size_max ok
                   (stringbuffer_truncate (s_buffer dict) 0) (ptr_text k))"
    then obtain a' where arr: "s_array dict = Some a'"
      using inv(1) by (cases "s_array dict") (auto simp: strdict_ok_def)
    from a have "s_sought_key (snd (strdict_bisect_left size_max ok dict k)) = SoughtNull \<and>
         s_candidate (snd (strdict_bisect_left size_max ok dict k)) = None"
      using strdict_bisect_left_copy_failure[OF inv(1) arr, of k ok] by blast
    then show "s_sought_key (snd (strdict_bisect_left size_max ok dict k)) = SoughtNull \<and>
          s_candidate (snd (strdict_bisect_left size_max ok dict k)) = None \<and>
          fst (strdict_bisect_left size_max ok dict k) =
            length (takeWhile (\<lambda>x. x < strkey (ptr_text k)) (strdict_keys dict))"
      using strdict_bisect_left_index[OF inv, of ok k] by simp
  qed
  from prefix after after' failing show ?thesis by (intro conjI)
qed


theorem C6_raw_key_never_cached_witness:
  "(4::nat) \<le> 65535 \<and>
   (\<exists>rs d. strdict_run 65535 8 strdict_init str_example_calls = Some (rs, d) \<and>
      no_raw_key d \<and> 0 < s_nitems d \<and> s_candidate d = None \<and>
      \<not> fst (stringbuffer_append_all 65535 False (stringbuffer_truncate (s_buffer d) 0)
              (ptr_text (key_at 400 ''a key longer than the buffer''))) \<and>
      s_sought_key (snd (strdict_bisect_left 65535 False d
         (key_at 400 ''a key longer than the buffer''))) = SoughtNull \<and>
      s_candidate (snd (strdict_bisect_left 65535 False d
         (key_at 400 ''a key longer than the buffer''))) = None)"
proof -
  from str_example_calls_run obtain rs d where
    d: "strdict_run 65535 8 strdict_init str_example_calls = Some (rs, d)"
    "s_nitems d = 5" "s_candidate d = None" "buffer_size (s_buffer d) = 12" by blast
  have M: "(4::nat) \<le> 65535" by simp
  note fail = long_key_copy_fails[OF d(4)]
  note t = C6_raw_key_never_cached[OF M d(1), of "length str_example_calls" False
      "key_at 400 ''a key longer than the buffer''"]
  have nr: "no_raw_key d" using t d(1) by auto
  have cleared: "s_sought_key (snd (strdict_bisect_left 65535 False d
         (key_at 400 ''a key longer than the buffer''))) = SoughtNull \<and>
      s_candidate (snd (strdict_bisect_left 65535 False d
         (key_at 400 ''a key longer than the buffer''))) = None"
    using t d(2,3) fail by simp
  show ?thesis
    using M d nr fail cleared by (intro conjI exI[of _ rs] exI[of _ d]) simp_all
qed

text \<open>
  C7. For an iterator that has advanced at least once (\<open>0 < next_index \<le> end \<le> count\<close>),
  \<^verbatim>\<open>remove\<close> returns \<open>next_index - 1\<close>, takes the entry at that index out of the
  dictionary and lowers \<open>next_index\<close> and \<open>end\<close> by one, so that the next \<^verbatim>\<open>advance\<close>
  yields the entry that stood at the old \<open>next_index\<close>. Consequently, iterating over a
  dictionary of \<open>N\<close> entries and removing the yielded entry in every second round visits
  the \<open>N\<close> entries in order, the call after them finds the range exhausted, and what is
  left are the \<open>(N + 1) div 2\<close> entries of the even rounds, in their order. This is shown
  for \<open>N\<close> rounds of the loop's body whatever the values are, and for the loop of the
  library's test, which stops at the first null value, when no value is null.
\<close>

theorem C7_iterator_remove:
  assumes "intdict_ok size_max (iter_dict iter)"
    and "0 < next_index iter" and "next_index iter \<le> iter_end iter"
    and "iter_end iter \<le> nitems (iter_dict iter)"
    and "intdict_ok size_max dict"
  shows "fst (intdictviter_remove iter) = next_index iter - 1 \<and>
         intdict_entries (iter_dict (snd (intdictviter_remove iter))) =
           take (next_index iter - 1) (intdict_entries (iter_dict iter)) @
           drop (next_index iter) (intdict_entries (iter_dict iter)) \<and>
         next_index (snd (intdictviter_remove iter)) = next_index iter - 1 \<and>
         iter_end (snd (intdictviter_remove iter)) = iter_end iter - 1 \<and>
         (next_index iter < iter_end iter \<longrightarrow>
            fst (intdictviter_advance (snd (intdictviter_remove iter))) =
              item_value (intdict_entries (iter_dict iter) ! next_index iter) \<and>
            next_index (snd (intdictviter_advance (snd (intdictviter_remove iter)))) =
              next_index iter) \<and>
         fst (visit_calls (nitems dict) (fst (intdictviter_all_init dict))
                (snd (intdictviter_all_init dict)) 0 []) =
           map item_value (intdict_entries dict) \<and>
         fst (snd (visit_calls (nitems dict) (fst (intdictviter_all_init dict))
                (snd (intdictviter_all_init dict)) 0 [])) = None \<and>
         intdict_entries (iter_dict (snd (snd (visit_calls (nitems dict)
                (fst (intdictviter_all_init dict)) (snd (intdictviter_all_init dict)) 0 [])))) =
           kept_entries (intdict_entries dict) \<and>
         length (kept_entries (intdict_entries dict)) = (nitems dict + 1) div 2 \<and>
         ((\<forall>e\<in>set (intdict_entries dict). item_value e \<noteq> None) \<longrightarrow>
            map Some (fst (iterate_removing (fst (intdictviter_all_init dict))
                (snd (intdictviter_all_init dict)) 0 [])) =
              map item_value (intdict_entries dict) \<and>
            fst (snd (iterate_removing (fst (intdictviter_all_init dict))
                (snd (intdictviter_all_init dict)) 0 [])) = nitems dict \<and>
            intdict_entries (iter_dict (snd (snd (iterate_removing
                (fst (intdictviter_all_init dict)) (snd (intdictviter_all_init dict)) 0 [])))) =
              kept_entries (intdict_entries dict))"
proof -
  let ?es = "intdict_entries dict"
  have le: "next_index iter \<le> nitems (iter_dict iter)" using assms(3,4) by simp
  note rm = intdictviter_remove_effect[OF assms(1,2) le]
  have okr: "intdict_ok size_max (iter_dict (snd (intdictviter_remove iter)))" by (rule rm(6))
  have after: "next_index iter < iter_end iter \<longrightarrow>
            fst (intdictviter_advance (snd (intdictviter_remove iter))) =
              item_value (intdict_entries (iter_dict iter) ! next_index iter) \<and>
            next_index (snd (intdictviter_advance (snd (intdictviter_remove iter)))) =
              next_index iter"
  proof
    assume lt: "next_index iter < iter_end iter"
    let ?it = "snd (intdictviter_remove iter)"
    have lt': "next_index ?it < iter_end ?it" using rm(2,3) lt assms(2) by simp
    have in_range: "next_index ?it < nitems (iter_dict ?it)"
      using rm(2,5) lt assms(2,4) by simp
    have len: "length (intdict_entries (iter_dict iter)) = nitems (iter_dict iter)"
      by (rule intdict_entries_length[OF assms(1)])
    have "fst (intdictviter_advance ?it) = intdict_get_value_at (iter_dict ?it) (next_index ?it)"
      using lt' by (simp add: intdictviter_advance_def)
    also have "\<dots> = item_value (intdict_entries (iter_dict ?it) ! next_index ?it)"
      by (rule intdict_get_value_at_entries[OF okr in_range])
    also have "intdict_entries (iter_dict ?it) ! next_index ?it =
        intdict_entries (iter_dict iter) ! next_index iter"
      using rm(2) assms(2) lt assms(4) len by (simp add: rm(4) nth_append)
    finally have "fst (intdictviter_advance ?it) =
        item_value (intdict_entries (iter_dict iter) ! next_index iter)" .
    moreover have "next_index (snd (intdictviter_advance ?it)) = next_index iter"
      using lt' rm(2) assms(2) by (simp add: intdictviter_advance_def)
    ultimately show "fst (intdictviter_advance ?it) =
              item_value (intdict_entries (iter_dict iter) ! next_index iter) \<and>
            next_index (snd (intdictviter_advance ?it)) = next_index iter" by simp
  qed
  have len: "length ?es = nitems dict" by (rule intdict_entries_length[OF assms(5)])
  have klen: "length (kept_entries ?es) = (nitems dict + 1) div 2"
    by (simp add: kept_entries_def length_kept_upto len)
  note start = intdictviter_all_init_start[OF assms(5)]
  have counted: "fst (visit_calls (nitems dict) (fst (intdictviter_all_init dict))
                (snd (intdictviter_all_init dict)) 0 []) = map item_value ?es \<and>
         fst (snd (visit_calls (nitems dict) (fst (intdictviter_all_init dict))
                (snd (intdictviter_all_init dict)) 0 [])) = None \<and>
         intdict_entries (iter_dict (snd (snd (visit_calls (nitems dict)
                (fst (intdictviter_all_init dict)) (snd (intdictviter_all_init dict)) 0 [])))) =
           kept_entries ?es"
  proof (cases "0 < nitems dict")
    case True
    let ?it0 = "\<lparr>iter_dict = dict, next_index = 1, iter_end = nitems dict\<rparr>"
    have c: "0 < length ?es" using True len by simp
    from visit_calls_result[of size_max ?it0 0 ?es "[]"] assms(5) c len
    obtain it' where "visit_calls (length ?es - 0) (item_value (?es ! 0)) ?it0 0 [] =
        ([] @ map item_value (drop 0 ?es), None, it')"
      "intdict_entries (iter_dict it') = kept_entries ?es" by auto
    then show ?thesis using True start len by simp
  next
    case False
    then have "?es = []" using len by simp
    then show ?thesis using False start by (simp add: kept_entries_def)
  qed
  have looped: "(\<forall>e\<in>set ?es. item_value e \<noteq> None) \<longrightarrow>
            map Some (fst (iterate_removing (fst (intdictviter_all_init dict))
                (snd (intdictviter_all_init dict)) 0 [])) = map item_value ?es \<and>
            fst (snd (iterate_removing (fst (intdictviter_all_init dict))
                (snd (intdictviter_all_init dict)) 0 [])) = nitems dict \<and>
            intdict_entries (iter_dict (snd (snd (iterate_removing
                (fst (intdictviter_all_init dict)) (snd (intdictviter_all_init dict)) 0 [])))) =
              kept_entries ?es"
  proof
    assume nn: "\<forall>e\<in>set ?es. item_value e \<noteq> None"
    then have nn': "\<forall>i<length ?es. item_value (?es ! i) \<noteq> None" by simp
    have some: "map Some (map (\<lambda>e. the (item_value e)) ?es) = map item_value ?es"
      using nn by (simp add: map_idI)
    show "map Some (fst (iterate_removing (fst (intdictviter_all_init dict))
                (snd (intdictviter_all_init dict)) 0 [])) = map item_value ?es \<and>
            fst (snd (iterate_removing (fst (intdictviter_all_init dict))
                (snd (intdictviter_all_init dict)) 0 [])) = nitems dict \<and>
            intdict_entries (iter_dict (snd (snd (iterate_removing
                (fst (intdictviter_all_init dict)) (snd (intdictviter_all_init dict)) 0 [])))) =
              kept_entries ?es"
    proof (cases "0 < nitems dict")
      case True
      let ?it0 = "\<lparr>iter_dict = dict, next_index = 1, iter_end = nitems dict\<rparr>"
      have c: "0 < length ?es" using True len by simp
      from iterate_removing_result[of size_max ?it0 0 ?es "[]"] assms(5) c len nn'
      obtain it' where "iterate_removing (item_value (?es ! 0)) ?it0 0 [] =
          ([] @ map (\<lambda>e. the (item_value e)) (drop 0 ?es), length ?es, it')"
        "intdict_entries (iter_dict it') = kept_entries ?es" by auto
      then show ?thesis using True start len some by simp
    next
      case False
      then have e: "?es = []" using len by simp
      have "iterate_removing None \<lparr>iter_dict = dict, next_index = 0, iter_end = nitems dict\<rparr> 0 [] =
          ([], 0, \<lparr>iter_dict = dict, next_index = 0, iter_end = nitems dict\<rparr>)"
        by (subst iterate_removing.simps) simp
      then show ?thesis using False start e by (simp add: kept_entries_def)
    qed
  qed
  from rm(1,4,2,3) after counted klen looped show ?thesis by (intro conjI) simp_all
qed


theorem C7_iterator_remove_witness:
  "intdict_ok 65535 valued_dict \<and> (0::nat) < 2 \<and> (2::nat) \<le> 5 \<and> 5 \<le> nitems valued_dict \<and>
   fst (intdictviter_remove \<lparr>iter_dict = valued_dict, next_index = 2, iter_end = 5\<rparr>) = 1 \<and>
   map item_value (intdict_entries (iter_dict (snd (intdictviter_remove
       \<lparr>iter_dict = valued_dict, next_index = 2, iter_end = 5\<rparr>)))) =
     [Some 10, Some 12, Some 13, Some 14] \<and>
   fst (intdictviter_advance (snd (intdictviter_remove
       \<lparr>iter_dict = valued_dict, next_index = 2, iter_end = 5\<rparr>))) = Some 12 \<and>
   list_all (\<lambda>e. item_value e \<noteq> None) (intdict_entries valued_dict) \<and>
   fst (iterate_removing (fst (intdictviter_all_init valued_dict))
          (snd (intdictviter_all_init valued_dict)) 0 []) = [10, 11, 12, 13, 14] \<and>
   fst (snd (iterate_removing (fst (intdictviter_all_init valued_dict))
          (snd (intdictviter_all_init valued_dict)) 0 [])) = 5 \<and>
   map item_value (intdict_entries (iter_dict (snd (snd (iterate_removing
          (fst (intdictviter_all_init valued_dict))
          (snd (intdictviter_all_init valued_dict)) 0 []))))) = [Some 10, Some 12, Some 14]"
proof -
  have n: "nitems valued_dict = 5" by (simp add: valued_dict_def)
  have nn: "\<forall>e\<in>set (intdict_entries valued_dict). item_value e \<noteq> None"
    by (simp add: valued_dict_entries)
  note t = C7_iterator_remove[of 65535 "\<lparr>iter_dict = valued_dict, next_index = 2, iter_end = 5\<rparr>"
      valued_dict]
  have t': "fst (intdictviter_remove \<lparr>iter_dict = valued_dict, next_index = 2, iter_end = 5\<rparr>) = 1"
    "map item_value (intdict_entries (iter_dict (snd (intdictviter_remove
       \<lparr>iter_dict = valued_dict, next_index = 2, iter_end = 5\<rparr>)))) =
     [Some 10, Some 12, Some 13, Some 14]"
    "fst (intdictviter_advance (snd (intdictviter_remove
       \<lparr>iter_dict = valued_dict, next_index = 2, iter_end = 5\<rparr>))) = Some 12"
    "map Some (fst (iterate_removing (fst (intdictviter_all_init valued_dict))
          (snd (intdictviter_all_init valued_dict)) 0 [])) =
       map Some [10, 11, 12, 13, 14]"
    "fst (snd (iterate_removing (fst (intdictviter_all_init valued_dict))
          (snd (intdictviter_all_init valued_dict)) 0 [])) = 5"
    "map item_value (intdict_entries (iter_dict (snd (snd (iterate_removing
          (fst (intdictviter_all_init valued_dict))
          (snd (intdictviter_all_init valued_dict)) 0 []))))) = [Some 10, Some 12, Some 14]"
    using t valued_dict_ok n nn
    by (simp_all add: valued_dict_entries kept_entries_5)
  have inj: "fst (iterate_removing (fst (intdictviter_all_init valued_dict))
          (snd (intdictviter_all_init valued_dict)) 0 []) = [10, 11, 12, 13, 14]"
    using t'(4) by (simp only: inj_map_eq_map[OF inj_Some])
  show ?thesis
    using valued_dict_ok n t'(1,2,3,5,6) inj
    by (simp add: valued_dict_entries)
qed

text \<open>
  C8. The capacity that \<^verbatim>\<open>insert\<close> asks for does follow the sequence 0, 4, 8, 16, ..., but
  the number of bytes that it asks \<^verbatim>\<open>realloc\<close> for, \<open>new_size * item_size\<close>, is computed in
  \<^verbatim>\<open>size_t\<close> and overflows before the capacity can reach \<^verbatim>\<open>SIZE_MAX\<close>. Three dictionaries
  that insertions alone have filled:
  \<^item> \<^verbatim>\<open>SIZE_MAX\<close> 65535, items of 8 bytes, 4096 items in 4096 slots: the next insertion
    doubles the capacity to 8192 and asks for \<open>8192 * 8 mod 65536 = 0\<close> bytes;
  \<^item> \<^verbatim>\<open>SIZE_MAX\<close> 65535, items of 6 bytes, 8192 items in 8192 slots: the next insertion
    asks for \<open>16384 * 6 mod 65536 = 32768\<close> bytes, room for 5461 items; if \<^verbatim>\<open>realloc\<close>
    returns that block, the capacity becomes 16384 and the entry is written beyond the
    block; if it returns null, the insertion fails;
  \<^item> \<^verbatim>\<open>SIZE_MAX\<close> \<open>2 ^ 32 - 1\<close>, items of 8 bytes, \<open>2 ^ 28\<close> items in as many slots: the next
    insertion asks for 0 bytes.
\<close>

theorem C8_growth_request_overflows:
  "(\<exists>rs d. intdict_run 65535 8 intdict_init (insert_calls 4096) = Some (rs, d) \<and>
      nitems d = 4096 \<and> nalloc d = 4096 \<and>
      new_size 65535 (nalloc d) = 8192 \<and> realloc_bytes 65535 8 8192 = 0 \<and>
      intdict_insert 65535 8 (Some zeroed_items) d 4096 None = Inl ReallocZero \<and>
      intdict_insert 65535 8 None d 4096 None = Inl ReallocZero) \<and>
   (\<exists>rs d. intdict_run 65535 6 intdict_init (insert_calls 8192) = Some (rs, d) \<and>
      nitems d = 8192 \<and> nalloc d = 8192 \<and>
      new_size 65535 (nalloc d) = 16384 \<and> realloc_bytes 65535 6 16384 = 32768 \<and>
      (32768::nat) div 6 = 5461 \<and>
      intdict_insert 65535 6 (Some zeroed_items) d 8192 None = Inl Overrun \<and>
      (\<exists>d'. intdict_insert 65535 6 None d 8192 None = Inr (None, d'))) \<and>
   (\<exists>rs d. intdict_run 4294967295 8 intdict_init (insert_calls 268435456) = Some (rs, d) \<and>
      nitems d = 268435456 \<and> nalloc d = 268435456 \<and>
      new_size 4294967295 (nalloc d) = 536870912 \<and>
      realloc_bytes 4294967295 8 536870912 = 0 \<and>
      intdict_insert 4294967295 8 (Some zeroed_items) d 268435456 None = Inl ReallocZero)"
proof (intro conjI)
  from full_block_16_8 obtain d where d:
    "intdict_run 65535 8 intdict_init (insert_calls 4096) = Some (map Some [0..<4096], d)"
    "intdict_ok 65535 d" "intdict_ordered d" "nitems d = 4096" "nalloc d = 4096" by blast
  have n: "new_size 65535 (nalloc d) = 8192"
    by (simp add: d(5) new_size_def ArrayGrowthFactor_def)
  have b: "realloc_bytes 65535 8 8192 = 0" by (simp add: realloc_bytes_def)
  have "intdict_insert 65535 8 mem d 4096 None = Inl ReallocZero" for mem
    using intdict_insert_total(3)[OF d(2,3), of 8 mem 4096 None] d(4,5) n b by simp
  with d n b show "\<exists>rs d. intdict_run 65535 8 intdict_init (insert_calls 4096) = Some (rs, d) \<and>
      nitems d = 4096 \<and> nalloc d = 4096 \<and>
      new_size 65535 (nalloc d) = 8192 \<and> realloc_bytes 65535 8 8192 = 0 \<and>
      intdict_insert 65535 8 (Some zeroed_items) d 4096 None = Inl ReallocZero \<and>
      intdict_insert 65535 8 None d 4096 None = Inl ReallocZero"
    by (intro exI[of _ "map Some [0..<4096]"] exI[of _ d]) simp
next
  from full_block_16_6 obtain d where d:
    "intdict_run 65535 6 intdict_init (insert_calls 8192) = Some (map Some [0..<8192], d)"
    "intdict_ok 65535 d" "intdict_ordered d" "nitems d = 8192" "nalloc d = 8192" by blast
  have n: "new_size 65535 (nalloc d) = 16384"
    by (simp add: d(5) new_size_def ArrayGrowthFactor_def)
  have b: "realloc_bytes 65535 6 16384 = 32768" by (simp add: realloc_bytes_def)
  have over: "intdict_insert 65535 6 (Some zeroed_items) d 8192 None = Inl Overrun"
    using intdict_insert_total(3)[OF d(2,3), of 6 "Some zeroed_items" 8192 None] d(4,5) n b by simp
  have "intdict_insert 65535 6 None d 8192 None = Inr (None, snd (intdict_bisect_left d 8192))"
    using intdict_insert_total(1)[OF d(2,3), of 6 None 8192 None] d(4,5) n b by simp
  with d n b over show "\<exists>rs d. intdict_run 65535 6 intdict_init (insert_calls 8192) = Some (rs, d) \<and>
      nitems d = 8192 \<and> nalloc d = 8192 \<and>
      new_size 65535 (nalloc d) = 16384 \<and> realloc_bytes 65535 6 16384 = 32768 \<and>
      (32768::nat) div 6 = 5461 \<and>
      intdict_insert 65535 6 (Some zeroed_items) d 8192 None = Inl Overrun \<and>
      (\<exists>d'. intdict_insert 65535 6 None d 8192 None = Inr (None, d'))"
    by (intro exI[of _ "map Some [0..<8192]"] exI[of _ d]) simp
next
  from full_block_32_8 obtain d where d:
    "intdict_run 4294967295 8 intdict_init (insert_calls 268435456) =
       Some (map Some [0..<268435456], d)"
    "intdict_ok 4294967295 d" "intdict_ordered d" "nitems d = 268435456" "nalloc d = 268435456"
    by blast
  have n: "new_size 4294967295 (nalloc d) = 536870912"
    by (simp add: d(5) new_size_def ArrayGrowthFactor_def)
  have b: "realloc_bytes 4294967295 8 536870912 = 0" by (simp add: realloc_bytes_def)
  have "intdict_insert 4294967295 8 (Some zeroed_items) d 268435456 None = Inl ReallocZero"
    using intdict_insert_total(3)[OF d(2,3), of 8 "Some zeroed_items" 268435456 None] d(4,5) n b
    by simp
  with d n b show "\<exists>rs d. intdict_run 4294967295 8 intdict_init (insert_calls 268435456) =
        Some (rs, d) \<and>
      nitems d = 268435456 \<and> nalloc d = 268435456 \<and>
      new_size 4294967295 (nalloc d) = 536870912 \<and>
      realloc_bytes 4294967295 8 536870912 = 0 \<and>
      intdict_insert 4294967295 8 (Some zeroed_items) d 268435456 None = Inl ReallocZero"
    by (intro exI[of _ "map Some [0..<268435456]"] exI[of _ d]) simp
qed

text \<open>
  C9. \<^verbatim>\<open>init\<close> over a range of keys computes \<^verbatim>\<open>bisect_left(min_key)\<close> and
  \<^verbatim>\<open>bisect_right(max_key)\<close>, sets the end of the range to the latter, and then returns
  the result of a first \<^verbatim>\<open>advance\<close>. So, for a well-formed dictionary whose keys are in
  order, when \<^verbatim>\<open>init\<close> returns: \<open>end\<close> is \<^verbatim>\<open>bisect_right(max_key)\<close>; if the range is not
  empty, \<^verbatim>\<open>init\<close> has returned the value of its first entry, the one at
  \<^verbatim>\<open>bisect_left(min_key)\<close>, and \<open>next_index\<close> is \<^verbatim>\<open>bisect_left(min_key) + 1\<close>; if the range is
  empty, \<^verbatim>\<open>init\<close> has returned null and \<open>next_index\<close> is \<^verbatim>\<open>bisect_left(min_key)\<close>. The
  positions from \<^verbatim>\<open>bisect_left(min_key)\<close> up to \<open>end\<close> are exactly those whose key \<open>k\<close> has
  \<open>min_key \<le> k \<le> max_key\<close>, and the entries are unchanged. \<^verbatim>\<open>all_init\<close> sets \<open>end\<close> to the
  count and behaves likewise from position 0: \<open>next_index\<close> is 1 and the first value is
  returned when the dictionary is not empty, and \<open>next_index\<close> is 0 when it is. This holds
  for both dictionaries.

  In particular \<open>next_index\<close> is not \<^verbatim>\<open>bisect_left(min_key)\<close> (nor 0 after \<^verbatim>\<open>all_init\<close>)
  when \<^verbatim>\<open>init\<close> returns with a range that is not empty: it is one more.
\<close>

theorem C9_init_returns_first_value:
  assumes "intdict_ok size_max dict" and "intdict_ordered dict"
    and "strdict_ok size_max sdict" and "strdict_ordered sdict"
  shows "iter_end (snd (intdictviter_init dict min_key max_key)) =
           fst (intdict_bisect_right dict max_key) \<and>
         next_index (snd (intdictviter_init dict min_key max_key)) =
           (if fst (intdict_bisect_left dict min_key) < fst (intdict_bisect_right dict max_key)
            then fst (intdict_bisect_left dict min_key) + 1
            else fst (intdict_bisect_left dict min_key)) \<and>
         fst (intdictviter_init dict min_key max_key) =
           (if fst (intdict_bisect_left dict min_key) < fst (intdict_bisect_right dict max_key)
            then item_value (intdict_entries dict ! fst (intdict_bisect_left dict min_key))
            else None) \<and>
         intdict_entries (iter_dict (snd (intdictviter_init dict min_key max_key))) =
           intdict_entries dict \<and>
         (\<forall>i < length (intdict_keys dict).
            (fst (intdict_bisect_left dict min_key) \<le> i \<and>
             i < iter_end (snd (intdictviter_init dict min_key max_key))) =
            (min_key \<le> intdict_keys dict ! i \<and> intdict_keys dict ! i \<le> max_key)) \<and>
         intdictviter_all_init dict =
           (if 0 < nitems dict
            then (item_value (intdict_entries dict ! 0),
                  \<lparr>iter_dict = dict, next_index = 1, iter_end = nitems dict\<rparr>)
            else (None, \<lparr>iter_dict = dict, next_index = 0, iter_end = nitems dict\<rparr>)) \<and>
         siter_end (snd (strdictviter_init size_max ok1 ok2 sdict smin smax)) =
           fst (strdict_bisect_right size_max ok2 sdict smax) \<and>
         s_next_index (snd (strdictviter_init size_max ok1 ok2 sdict smin smax)) =
           (if fst (strdict_bisect_left size_max ok1 sdict smin) <
               fst (strdict_bisect_right size_max ok2 sdict smax)
            then fst (strdict_bisect_left size_max ok1 sdict smin) + 1
            else fst (strdict_bisect_left size_max ok1 sdict smin)) \<and>
         fst (strdictviter_init size_max ok1 ok2 sdict smin smax) =
           (if fst (strdict_bisect_left size_max ok1 sdict smin) <
               fst (strdict_bisect_right size_max ok2 sdict smax)
            then sitem_value (strdict_entries sdict ! fst (strdict_bisect_left size_max ok1 sdict smin))
            else None) \<and>
         strdict_entries (siter_dict (snd (strdictviter_init size_max ok1 ok2 sdict smin smax))) =
           strdict_entries sdict \<and>
         (\<forall>i < length (strdict_keys sdict).
            (fst (strdict_bisect_left size_max ok1 sdict smin) \<le> i \<and>
             i < siter_end (snd (strdictviter_init size_max ok1 ok2 sdict smin smax))) =
            (strkey (ptr_text smin) \<le> strdict_keys sdict ! i \<and>
             strdict_keys sdict ! i \<le> strkey (ptr_text smax))) \<and>
         strdictviter_all_init sdict =
           (if 0 < s_nitems sdict
            then (sitem_value (strdict_entries sdict ! 0),
                  \<lparr>siter_dict = sdict, s_next_index = 1, siter_end = s_nitems sdict\<rparr>)
            else (None, \<lparr>siter_dict = sdict, s_next_index = 0, siter_end = s_nitems sdict\<rparr>))"
proof -
  note i = intdictviter_init_result[OF assms(1,2), of min_key max_key]
  note s = strdictviter_init_result[OF assms(3,4), of ok1 ok2 smin smax]
  have ir: "\<forall>i < length (intdict_keys dict).
            (fst (intdict_bisect_left dict min_key) \<le> i \<and>
             i < iter_end (snd (intdictviter_init dict min_key max_key))) =
            (min_key \<le> intdict_keys dict ! i \<and> intdict_keys dict ! i \<le> max_key)"
    unfolding i(1) using intdict_range_keys[OF assms(1,2)] by blast
  have sr: "\<forall>i < length (strdict_keys sdict).
            (fst (strdict_bisect_left size_max ok1 sdict smin) \<le> i \<and>
             i < siter_end (snd (strdictviter_init size_max ok1 ok2 sdict smin smax))) =
            (strkey (ptr_text smin) \<le> strdict_keys sdict ! i \<and>
             strdict_keys sdict ! i \<le> strkey (ptr_text smax))"
    unfolding s(1) using strdict_range_keys[OF assms(3,4)] by blast
  show ?thesis
    using i s ir sr intdictviter_all_init_start[OF assms(1)] strdictviter_all_init_start[OF assms(3)]
    by (intro conjI) assumption+
qed

theorem C9_init_returns_first_value_witness:
  "intdict_ok 65535 example_dict \<and> intdict_ordered example_dict \<and>
   strdict_ok 65535 str_example_dict \<and> strdict_ordered str_example_dict \<and>
   fst (intdict_bisect_left example_dict 3) = 1 \<and>
   fst (intdict_bisect_right example_dict 4) = 4 \<and>
   next_index (snd (intdictviter_init example_dict 3 4)) = 2 \<and>
   iter_end (snd (intdictviter_init example_dict 3 4)) = 4 \<and>
   fst (intdictviter_init example_dict 3 4) = Some 11 \<and>
   s_next_index (snd (strdictviter_init 65535 True True str_example_dict
      (key_at 7 ''BISON'') (key_at 8 ''camel''))) = 2 \<and>
   siter_end (snd (strdictviter_init 65535 True True str_example_dict
      (key_at 7 ''BISON'') (key_at 8 ''camel''))) = 3 \<and>
   fst (strdictviter_init 65535 True True str_example_dict
      (key_at 7 ''BISON'') (key_at 8 ''camel'')) = None"
  using C9_init_returns_first_value[OF example_dict_ok example_dict_ordered
      str_example_dict_ok str_example_dict_ordered,
      of 3 4 True True "key_at 7 ''BISON''" "key_at 8 ''camel''"]
    example_dict_ok example_dict_ordered str_example_dict_ok str_example_dict_ordered
  by (simp add: example_dict_bisect_range str_example_dict_bisect_range
      example_dict_entry_1 str_example_dict_entry_1)

text \<open>
  On the example dictionaries, \<^verbatim>\<open>bisect_left\<close> of the lower bound is 1 and \<open>next_index\<close> is 2
  when \<^verbatim>\<open>init\<close> returns; after \<^verbatim>\<open>all_init\<close> it is 1, not 0.
\<close>

theorem C9_next_index_after_init_counterexample:
  "intdict_ok 65535 example_dict \<and> intdict_ordered example_dict \<and>
   fst (intdict_bisect_left example_dict 3) = 1 \<and>
   next_index (snd (intdictviter_init example_dict 3 4)) = 2 \<and>
   next_index (snd (intdictviter_all_init example_dict)) = 1 \<and>
   strdict_ok 65535 str_example_dict \<and> strdict_ordered str_example_dict \<and>
   fst (strdict_bisect_left 65535 True str_example_dict (key_at 7 ''BISON'')) = 1 \<and>
   s_next_index (snd (strdictviter_init 65535 True True str_example_dict
      (key_at 7 ''BISON'') (key_at 8 ''camel''))) = 2 \<and>
   s_next_index (snd (strdictviter_all_init str_example_dict)) = 1"
  by (simp add: example_dict_ok example_dict_ordered str_example_dict_ok str_example_dict_ordered
      example_dict_bisect_range example_dict_init_range example_dict_all_init
      str_example_dict_bisect_range str_example_dict_init_range str_example_dict_all_init)

text \<open>
  C10. \<^verbatim>\<open>advance\<close> returns null when the range is exhausted, and it returns the stored
  value, which may be null: where the entry at \<open>next_index\<close> of a range that is not
  exhausted holds a null value, \<^verbatim>\<open>advance\<close> returns null and still moves \<open>next_index\<close> on
  by one, and \<^verbatim>\<open>all_init\<close> returns null for a dictionary that begins with such an entry.
  A null result therefore does not tell an exhausted range from a null value. This holds
  for both dictionaries.
\<close>

theorem C10_null_value_is_not_exhaustion:
  assumes "array (iter_dict iter) = Some a" and "next_index iter < iter_end iter"
    and "item_value (a (next_index iter)) = None"
    and "s_array (siter_dict siter) = Some sa" and "s_next_index siter < siter_end siter"
    and "sitem_value (sa (s_next_index siter)) = None"
  shows "intdictviter_advance iter = (None, iter\<lparr>next_index := next_index iter + 1\<rparr>) \<and>
         strdictviter_advance siter = (None, siter\<lparr>s_next_index := s_next_index siter + 1\<rparr>) \<and>
         (next_index iter = 0 \<and> iter_end iter = nitems (iter_dict iter) \<longrightarrow>
            intdictviter_all_init (iter_dict iter) =
              (None, \<lparr>iter_dict = iter_dict iter, next_index = 1, iter_end = nitems (iter_dict iter)\<rparr>)) \<and>
         (s_next_index siter = 0 \<and> siter_end siter = s_nitems (siter_dict siter) \<longrightarrow>
            strdictviter_all_init (siter_dict siter) =
              (None, \<lparr>siter_dict = siter_dict siter, s_next_index = 1,
                      siter_end = s_nitems (siter_dict siter)\<rparr>)) \<and>
         (\<not> next_index it < iter_end it \<longrightarrow> intdictviter_advance it = (None, it)) \<and>
         (\<not> s_next_index sit < siter_end sit \<longrightarrow> strdictviter_advance sit = (None, sit))"
  using assms
  by (auto simp: intdictviter_advance_def strdictviter_advance_def intdict_get_value_at_def
      strdict_get_value_at_def intdictviter_all_init_def strdictviter_all_init_def
      intdict_count_def strdict_count_def)

theorem C10_null_value_is_not_exhaustion_witness:
  "array (iter_dict \<lparr>iter_dict = example_dict, next_index = 2, iter_end = 5\<rparr>) = array example_dict \<and>
   (2::nat) < 5 \<and>
   item_value (intdict_entries example_dict ! 2) = None \<and>
   sitem_value (strdict_entries str_example_dict ! 1) = None \<and>
   fst (intdictviter_advance \<lparr>iter_dict = example_dict, next_index = 2, iter_end = 5\<rparr>) = None \<and>
   next_index (snd (intdictviter_advance
      \<lparr>iter_dict = example_dict, next_index = 2, iter_end = 5\<rparr>)) = 3 \<and>
   fst (strdictviter_advance \<lparr>siter_dict = str_example_dict, s_next_index = 1, siter_end = 3\<rparr>) = None \<and>
   s_next_index (snd (strdictviter_advance
      \<lparr>siter_dict = str_example_dict, s_next_index = 1, siter_end = 3\<rparr>)) = 2 \<and>
   (\<exists>d. intdict_insert 65535 8 (Some zeroed_items) intdict_init 5 None = Inr (Some 0, d) \<and>
        fst (intdictviter_all_init d) = None \<and>
        next_index (snd (intdictviter_all_init d)) = 1)"
proof -
  let ?a = "block_of \<lparr>item_key = 0, item_value = None\<rparr>
        [\<lparr>item_key = 1, item_value = Some 10\<rparr>, \<lparr>item_key = 3, item_value = Some 11\<rparr>,
         \<lparr>item_key = 3, item_value = None\<rparr>, \<lparr>item_key = 4, item_value = Some 13\<rparr>,
         \<lparr>item_key = 6, item_value = Some 14\<rparr>]"
  let ?sa = "block_of \<lparr>sitem_key = key_at 0 [], sitem_value = None\<rparr>
        [\<lparr>sitem_key = key_at 100 ''Aardvark'', sitem_value = Some 20\<rparr>,
         \<lparr>sitem_key = key_at 101 ''bison'', sitem_value = None\<rparr>,
         \<lparr>sitem_key = key_at 102 ''Camel'', sitem_value = Some 22\<rparr>]"
  let ?it = "\<lparr>iter_dict = example_dict, next_index = 2, iter_end = 5\<rparr>"
  let ?sit = "\<lparr>siter_dict = str_example_dict, s_next_index = 1, siter_end = 3\<rparr>"
  have h1: "array (iter_dict ?it) = Some ?a" by (simp add: example_dict_def)
  have h2: "next_index ?it < iter_end ?it" by simp
  have h3: "item_value (?a (next_index ?it)) = None" by (simp add: block_of_def)
  have h4: "s_array (siter_dict ?sit) = Some ?sa" by (simp add: str_example_dict_def)
  have h5: "s_next_index ?sit < siter_end ?sit" by simp
  have h6: "sitem_value (?sa (s_next_index ?sit)) = None" by (simp add: block_of_def)
  note t = C10_null_value_is_not_exhaustion[OF h1 h2 h3 h4 h5 h6]
  have e1: "item_value (intdict_entries example_dict ! 2) = None"
    by (simp add: intdict_entries_def example_dict_def block_of_def)
  have e2: "sitem_value (strdict_entries str_example_dict ! 1) = None"
    by (simp add: strdict_entries_def str_example_dict_def block_of_def)
  show ?thesis using t e1 e2 null_value_stored by simp
qed

end
